(* ===== verification/Prelude.thy ===== *)
theory Prelude
  imports Main
begin

text \<open>
  The prelude of the development: the collections of facts the component theories
  add to, and the lemmas on lists that several components share.

  \<^item> \<open>wp_simps\<close>: equations that compute the weakest precondition of a program
    construct (theory \<open>C_Runtime\<close> and every component after it);
  \<^item> \<open>res_simps\<close>: equations that say which resources a call takes, uses and gives
    back (theory \<open>Posix\<close>).
\<close>

named_theorems wp_simps "weakest preconditions, as rewrite rules"
named_theorems res_simps "the resources a call acquires, uses and releases"

section \<open>Overwriting a segment of a list\<close>

text \<open>\<open>overlay xs k ys\<close> is \<open>xs\<close> with \<open>ys\<close> written from index \<open>k\<close> on.\<close>

definition overlay :: "'a list \<Rightarrow> nat \<Rightarrow> 'a list \<Rightarrow> 'a list" where
  "overlay xs k ys = take k xs @ ys @ drop (k + length ys) xs"

lemma length_overlay [simp]:
  "k + length ys \<le> length xs \<Longrightarrow> length (overlay xs k ys) = length xs"
  by (simp add: overlay_def)

lemma take_overlay:
  "k + length ys \<le> length xs \<Longrightarrow> take (k + length ys) (overlay xs k ys) = take k xs @ ys"
  by (simp add: overlay_def)

lemma overlay_replicate:
  "length ys \<le> n \<Longrightarrow> overlay (replicate n z) 0 ys = ys @ replicate (n - length ys) z"
  by (simp add: overlay_def)

lemma overlay_step:
  assumes "xs = ys @ replicate m z" and "length zs \<le> m"
  shows "overlay xs (length ys) zs = (ys @ zs) @ replicate (m - length zs) z"
  using assms by (simp add: overlay_def)

section \<open>The first index that satisfies a predicate\<close>

text \<open>\<open>first_index p xs\<close> is the index a forward scan of \<open>xs\<close> stops at.\<close>

primrec first_index :: "('a \<Rightarrow> bool) \<Rightarrow> 'a list \<Rightarrow> nat option" where
  "first_index p [] = None"
| "first_index p (x # xs) = (if p x then Some 0 else map_option Suc (first_index p xs))"

lemma first_index_Some:
  "first_index p xs = Some i \<Longrightarrow> i < length xs \<and> p (xs ! i) \<and> (\<forall>j < i. \<not> p (xs ! j))"
proof (induction xs arbitrary: i)
  case Nil
  then show ?case by simp
next
  case (Cons x xs)
  then show ?case by (auto simp: less_Suc_eq_0_disj split: if_splits)
qed

lemma first_index_None: "first_index p xs = None \<longleftrightarrow> (\<forall>x \<in> set xs. \<not> p x)"
  by (induction xs) auto

lemma first_index_exists: "x \<in> set xs \<Longrightarrow> p x \<Longrightarrow> \<exists>i. first_index p xs = Some i"
  by (cases "first_index p xs") (auto simp: first_index_None)

section \<open>Deleting an index\<close>

definition delete_at :: "nat \<Rightarrow> 'a list \<Rightarrow> 'a list" where
  "delete_at i xs = take i xs @ drop (Suc i) xs"

lemma length_delete_at [simp]: "i < length xs \<Longrightarrow> length (delete_at i xs) = length xs - 1"
  by (simp add: delete_at_def)

lemma map_delete_at: "map f (delete_at i xs) = delete_at i (map f xs)"
  by (simp add: delete_at_def take_map drop_map)

lemma set_delete_at: "set (delete_at i xs) \<subseteq> set xs"
  using set_take_subset set_drop_subset by (fastforce simp: delete_at_def)

lemma hd_delete_at: "0 < i \<Longrightarrow> i < length xs \<Longrightarrow> hd (delete_at i xs) = hd xs"
  by (cases xs) (auto simp: delete_at_def take_Cons')

end
