(* ===== verification/Os_Calls.thy ===== *)
theory Os_Calls
  imports Prelude "HOL-Library.Word"
begin

text \<open>
  The boundary of the programs: the calls they make to the operating system, to the C
  library's input, output and allocation functions, to POSIX threads, to OpenSSL, to libcurl
  and to the file system.
  None of that code is in the repository, so none of it is defined here. A call is a
  value of the datatype \<open>call\<close>, what comes back is a value of the record \<open>answer\<close>, and
  the environment is an arbitrary function \<open>os\<close> that chooses the answer from everything
  that has happened so far. A theorem that holds for every \<open>os\<close> therefore holds for
  every peer, every interleaving of network events and every failure.

  A history (\<open>log\<close>) lists the calls with their answers, the newest first.
\<close>

type_synonym bytes = "char list"

abbreviation (input) NUL :: char where "NUL \<equiv> CHR 0x00"
abbreviation (input) CR :: char where "CR \<equiv> CHR 0x0D"
abbreviation (input) LF :: char where "LF \<equiv> CHR 0x0A"

section \<open>The structures the calls take\<close>

text \<open>\<open>struct sockaddr\<close> (its port in network byte order) and \<open>struct addrinfo\<close>; the
  \<open>ai_next\<close> chain of the latter is a list.\<close>

record sockaddr =
  sa_family :: int
  sin_port :: "16 word"
  sin_addr :: bytes

record addrinfo =
  ai_flags :: int
  ai_family :: int
  ai_socktype :: int
  ai_protocol :: int
  ai_addrlen :: int
  ai_addr :: sockaddr

definition zero_sockaddr :: sockaddr where
  "zero_sockaddr = \<lparr>sa_family = 0, sin_port = 0, sin_addr = []\<rparr>"

text \<open>\<open>memset(&hints, 0, sizeof(hints))\<close>\<close>

definition zero_addrinfo :: addrinfo where
  "zero_addrinfo = \<lparr>ai_flags = 0, ai_family = 0, ai_socktype = 0, ai_protocol = 0,
     ai_addrlen = 0, ai_addr = zero_sockaddr\<rparr>"

section \<open>Calls and answers\<close>

datatype (plugins only: code) call =
    GetProtoByName bytes
  | GetServByName bytes bytes
  | GetAddrInfo "bytes option" bytes addrinfo
  | FreeAddrInfo int
  | GetNameInfo sockaddr
  | Socket int int int
  | SetSockOpt int int int
  | Bind int sockaddr int
  | Listen int int
  | Accept int
  | Connect int sockaddr int
  | Recv int int int
  | Send int bytes int
  | RecvFrom int int int
  | SendTo int bytes int sockaddr int
  | Close int
  | Shutdown int int
  | Fcntl int int int
  | PollCall "(int \<times> int) list" int
  | SelectCall int "int list"
  | TimeCall
  | SleepCall int
  | TimerfdCreate int int
  | TimerfdSettime int int
  | Malloc int
  | Realloc int int
  | Free int
  | Fgets int
  | Out bytes
  | Err bytes
  | PthreadCreate bytes int
  | PthreadDetach
  | SslInit
  | SslCtxNew bytes
  | SslCtxFree int
  | SslUseCert int bytes
  | SslUseKey int bytes
  | SslNew int
  | SslSetFd int int
  | SslAccept int
  | SslConnect int
  | SslRead int int
  | SslWrite int bytes
  | SslGetCipher int
  | SslShutdown int
  | SslPrintErrors
  | SslFree int
  | CurrentPath
  | PathExists bytes
  | IsDirectory bytes
  | FileOpen bytes
  | FileSize bytes
  | FileRead bytes int
  | FileClose bytes
  | FileCreate bytes
  | FilePut bytes bytes
  | GetHostByName bytes
  | CurlGlobalInit
  | CurlGlobalCleanup
  | CurlEasyInit
  | CurlSetOpt int int bytes
  | CurlPerform int "64 word"
  | CurlEasyCleanup int
  | CurlMultiInit
  | CurlMultiAdd int int
  | CurlMultiPerform int "64 word"
  | CurlMultiWait int int
  | CurlMultiRemove int int
  | CurlMultiCleanup int
  | StdThread bytes
  | StdJoin int

text \<open>
  What a call gives back: its return value, the value it leaves in \<open>errno\<close>, the pointer
  it returns or stores (0 is NULL), the bytes it writes through its buffer argument, the
  \<open>revents\<close> of a poll or the descriptors left in the set of a select, the address list of
  \<open>getaddrinfo\<close>, the address of the peer, and the names a structure lists (aliases, the
  protocol of a service).
\<close>

record answer =
  a_ret :: int
  a_errno :: int
  a_ptr :: int
  a_buf :: bytes
  a_flags :: "int list"
  a_infos :: "addrinfo list"
  a_peer :: sockaddr
  a_names :: "bytes list"

definition plain :: "int \<Rightarrow> answer" where
  "plain r = \<lparr>a_ret = r, a_errno = 0, a_ptr = 0, a_buf = [], a_flags = [], a_infos = [],
     a_peer = zero_sockaddr, a_names = []\<rparr>"

lemma plain_sel [simp]:
  "a_ret (plain r) = r" "a_errno (plain r) = 0" "a_ptr (plain r) = 0" "a_buf (plain r) = []"
  "a_flags (plain r) = []" "a_infos (plain r) = []" "a_peer (plain r) = zero_sockaddr"
  "a_names (plain r) = []"
  by (simp_all add: plain_def)

type_synonym event = "call \<times> answer"
type_synonym log = "event list"
type_synonym os = "log \<Rightarrow> call \<Rightarrow> answer"

text \<open>
  \<open>CurlPerform\<close> and \<open>CurlMultiPerform\<close> stand for a library function that is running: each one
  hands the library what the last callback returned (0 at first) and is answered with the
  next callback, or with the return of the function (theory \<open>Curl\<close>).
\<close>

section \<open>Constants of the system headers (Linux)\<close>

abbreviation (input) AF_INET :: int where "AF_INET \<equiv> 2"
abbreviation (input) AF_UNSPEC :: int where "AF_UNSPEC \<equiv> 0"
abbreviation (input) AF_INET6 :: int where "AF_INET6 \<equiv> 10"
abbreviation (input) SOCK_STREAM :: int where "SOCK_STREAM \<equiv> 1"
abbreviation (input) SOCK_DGRAM :: int where "SOCK_DGRAM \<equiv> 2"
abbreviation (input) AI_PASSIVE :: int where "AI_PASSIVE \<equiv> 1"
abbreviation (input) SOL_SOCKET :: int where "SOL_SOCKET \<equiv> 1"
abbreviation (input) SO_REUSEADDR :: int where "SO_REUSEADDR \<equiv> 2"
abbreviation (input) SO_BROADCAST :: int where "SO_BROADCAST \<equiv> 6"
abbreviation (input) SO_KEEPALIVE :: int where "SO_KEEPALIVE \<equiv> 9"
abbreviation (input) SO_RCVTIMEO :: int where "SO_RCVTIMEO \<equiv> 20"
abbreviation (input) SO_SNDTIMEO :: int where "SO_SNDTIMEO \<equiv> 21"
abbreviation (input) F_GETFL :: int where "F_GETFL \<equiv> 3"
abbreviation (input) F_SETFL :: int where "F_SETFL \<equiv> 4"
abbreviation (input) O_NONBLOCK :: int where "O_NONBLOCK \<equiv> 2048"
abbreviation (input) POLLIN :: int where "POLLIN \<equiv> 1"
abbreviation (input) POLLERR :: int where "POLLERR \<equiv> 8"
abbreviation (input) POLLHUP :: int where "POLLHUP \<equiv> 16"
abbreviation (input) EAGAIN :: int where "EAGAIN \<equiv> 11"
abbreviation (input) ENOMEM :: int where "ENOMEM \<equiv> 12"
abbreviation (input) MSG_NOSIGNAL :: int where "MSG_NOSIGNAL \<equiv> 16384"
abbreviation (input) SHUT_RDWR :: int where "SHUT_RDWR \<equiv> 2"
abbreviation (input) CLOCK_REALTIME :: int where "CLOCK_REALTIME \<equiv> 0"
abbreviation (input) TFD_NONBLOCK :: int where "TFD_NONBLOCK \<equiv> 2048"
abbreviation (input) FD_SETSIZE :: int where "FD_SETSIZE \<equiv> 1024"

end
