(* ===== verification/C_Runtime.thy ===== *)
theory C_Runtime
  imports Os_Calls
begin

text \<open>
  C programs as state transformers over the history of their calls. A program either
  finishes with a value or stops: by \<open>exit\<close>, by a failed \<open>assert\<close>, by undefined behaviour
  (\<open>Fault\<close>, which the model makes explicit where the C code can have it), or because the
  fuel of one of its unbounded loops is spent (\<open>Unfinished\<close>: it is still running).

  The second half is the calculus every component uses: weakest preconditions as rewrite
  rules, and one rule for loops.
\<close>

section \<open>Programs\<close>

datatype fault = Out_Of_Bounds | Null_Deref | Uninitialised | Int_Overflow | Const_Write

datatype stop = Exit int | Abort | Fault fault | Unfinished

datatype 'a outcome = Done 'a | Stop stop

type_synonym 'a prog = "os \<Rightarrow> log \<Rightarrow> 'a outcome \<times> log"

definition ret :: "'a \<Rightarrow> 'a prog" where
  "ret a = (\<lambda>os h. (Done a, h))"

definition halt :: "stop \<Rightarrow> 'a prog" where
  "halt s = (\<lambda>os h. (Stop s, h))"

definition bindp :: "'a prog \<Rightarrow> ('a \<Rightarrow> 'b prog) \<Rightarrow> 'b prog" where
  "bindp m f = (\<lambda>os h. case m os h of
      (Done a, h') \<Rightarrow> f a os h'
    | (Stop s, h') \<Rightarrow> (Stop s, h'))"

definition thenp :: "'a prog \<Rightarrow> 'b prog \<Rightarrow> 'b prog" where
  "thenp m n = bindp m (\<lambda>_. n)"

text \<open>A call: the environment answers, and the pair is recorded.\<close>

definition sys :: "call \<Rightarrow> answer prog" where
  "sys c = (\<lambda>os h. let a = os h c in (Done a, (c, a) # h))"

definition whenp :: "bool \<Rightarrow> unit prog \<Rightarrow> unit prog" where
  "whenp b m = (if b then m else ret ())"

text \<open>\<open>assert(b)\<close>\<close>

definition assertp :: "bool \<Rightarrow> unit prog" where
  "assertp b = (if b then ret () else halt Abort)"

text \<open>Undefined behaviour unless \<open>b\<close> holds.\<close>

definition guardp :: "fault \<Rightarrow> bool \<Rightarrow> unit prog" where
  "guardp e b = (if b then ret () else halt (Fault e))"

text \<open>The value of an expression that is undefined where the option is \<open>None\<close>.\<close>

definition getp :: "fault \<Rightarrow> 'a option \<Rightarrow> 'a prog" where
  "getp e x = (case x of None \<Rightarrow> halt (Fault e) | Some a \<Rightarrow> ret a)"

text \<open>
  A loop over a state: its body goes round again with a new state or leaves with a value
  (by \<open>break\<close>, \<open>return\<close> or a failed condition). The number bounds the rounds; a loop that
  has not left by then is \<open>Unfinished\<close>.
\<close>

datatype ('s, 'b) iter = Again 's | Leave 'b

primrec loop :: "nat \<Rightarrow> ('s \<Rightarrow> ('s, 'b) iter prog) \<Rightarrow> 's \<Rightarrow> 'b prog" where
  "loop 0 body s = halt Unfinished"
| "loop (Suc n) body s =
     bindp (body s) (\<lambda>r. case r of Again s' \<Rightarrow> loop n body s' | Leave b \<Rightarrow> ret b)"

text \<open>The final history and outcome of a run that starts with no history.\<close>

definition outcome_of :: "'a prog \<Rightarrow> os \<Rightarrow> 'a outcome" where
  "outcome_of m os = fst (m os [])"

definition trace_of :: "'a prog \<Rightarrow> os \<Rightarrow> log" where
  "trace_of m os = rev (snd (m os []))"

section \<open>Monad laws\<close>

lemma bindp_ret [simp]: "bindp (ret a) f = f a"
  by (simp add: bindp_def ret_def)

lemma bindp_halt [simp]: "bindp (halt s) f = halt s"
  by (simp add: bindp_def halt_def)

lemma bindp_assoc: "bindp (bindp m f) g = bindp m (\<lambda>a. bindp (f a) g)"
  by (rule ext)+ (simp add: bindp_def split: prod.split outcome.split)

lemma thenp_ret [simp]: "thenp (ret a) n = n"
  by (simp add: thenp_def)

lemma thenp_halt [simp]: "thenp (halt s) n = halt s"
  by (simp add: thenp_def)

section \<open>Weakest preconditions\<close>

text \<open>
  \<open>wp m Q E os h\<close>: run with environment \<open>os\<close> from history \<open>h\<close>, the program \<open>m\<close> finishes
  in a value and history that satisfy \<open>Q\<close>, or stops in a way and history that satisfy
  \<open>E\<close>.
\<close>

definition wp :: "'a prog \<Rightarrow> ('a \<Rightarrow> log \<Rightarrow> bool) \<Rightarrow> (stop \<Rightarrow> log \<Rightarrow> bool) \<Rightarrow> os \<Rightarrow> log \<Rightarrow> bool" where
  "wp m Q E os h = (case m os h of (Done a, h') \<Rightarrow> Q a h' | (Stop s, h') \<Rightarrow> E s h')"

text \<open>The answer is kept as a variable, so that it is not copied into the history.\<close>

definition answers :: "os \<Rightarrow> log \<Rightarrow> call \<Rightarrow> answer \<Rightarrow> bool" where
  "answers os h c a \<longleftrightarrow> os h c = a"

lemma wp_ret [wp_simps]: "wp (ret a) Q E os h = Q a h"
  by (simp add: wp_def ret_def)

lemma wp_halt [wp_simps]: "wp (halt s) Q E os h = E s h"
  by (simp add: wp_def halt_def)

lemma wp_bindp [wp_simps]:
  "wp (bindp m f) Q E os h = wp m (\<lambda>a h'. wp (f a) Q E os h') E os h"
  by (simp add: wp_def bindp_def split: prod.split outcome.split)

lemma wp_thenp [wp_simps]:
  "wp (thenp m n) Q E os h = wp m (\<lambda>_ h'. wp n Q E os h') E os h"
  by (simp add: thenp_def wp_bindp)

lemma wp_sys [wp_simps]:
  "wp (sys c) Q E os h = (\<forall>a. answers os h c a \<longrightarrow> Q a ((c, a) # h))"
  by (simp add: wp_def sys_def answers_def Let_def)

lemma wp_if [wp_simps]:
  "wp (if b then m else n) Q E os h = (if b then wp m Q E os h else wp n Q E os h)"
  by simp

lemma wp_whenp [wp_simps]:
  "wp (whenp b m) Q E os h = (if b then wp m Q E os h else Q () h)"
  by (simp add: whenp_def wp_ret)

lemma wp_assertp [wp_simps]:
  "wp (assertp b) Q E os h = (if b then Q () h else E Abort h)"
  by (simp add: assertp_def wp_ret wp_halt)

lemma wp_guardp [wp_simps]:
  "wp (guardp e b) Q E os h = (if b then Q () h else E (Fault e) h)"
  by (simp add: guardp_def wp_ret wp_halt)

lemma wp_getp [wp_simps]:
  "wp (getp e x) Q E os h = (case x of None \<Rightarrow> E (Fault e) h | Some a \<Rightarrow> Q a h)"
  by (simp add: getp_def wp_ret wp_halt split: option.split)

lemma wp_Let [wp_simps]: "wp (Let x f) Q E os h = (let a = x in wp (f a) Q E os h)"
  by simp

lemma wp_case_option [wp_simps]:
  "wp (case x of None \<Rightarrow> m | Some a \<Rightarrow> f a) Q E os h =
     (case x of None \<Rightarrow> wp m Q E os h | Some a \<Rightarrow> wp (f a) Q E os h)"
  by (simp split: option.split)

lemma wp_case_list [wp_simps]:
  "wp (case xs of [] \<Rightarrow> m | y # ys \<Rightarrow> f y ys) Q E os h =
     (case xs of [] \<Rightarrow> wp m Q E os h | y # ys \<Rightarrow> wp (f y ys) Q E os h)"
  by (simp split: list.split)

lemma wp_case_prod [wp_simps]:
  "wp (case x of (a, b) \<Rightarrow> f a b) Q E os h = (case x of (a, b) \<Rightarrow> wp (f a b) Q E os h)"
  by (simp split: prod.split)

lemma wp_case_iter [wp_simps]:
  "wp (case r of Again s \<Rightarrow> f s | Leave b \<Rightarrow> g b) Q E os h =
     (case r of Again s \<Rightarrow> wp (f s) Q E os h | Leave b \<Rightarrow> wp (g b) Q E os h)"
  by (simp split: iter.split)

text \<open>Consequence: a program that does \<open>Q\<close> does anything weaker.\<close>

lemma wp_mono:
  assumes "wp m Q E os h"
    and "\<And>a h'. Q a h' \<Longrightarrow> Q' a h'" and "\<And>s h'. E s h' \<Longrightarrow> E' s h'"
  shows "wp m Q' E' os h"
  using assms by (auto simp: wp_def split: prod.splits outcome.splits)

lemma wp_conj:
  "wp m Q E os h \<Longrightarrow> wp m Q' E' os h \<Longrightarrow>
   wp m (\<lambda>a h'. Q a h' \<and> Q' a h') (\<lambda>s h'. E s h' \<and> E' s h') os h"
  by (auto simp: wp_def split: prod.splits outcome.splits)

lemma wp_Done: "wp m Q E os h \<Longrightarrow> m os h = (Done a, h') \<Longrightarrow> Q a h'"
  by (simp add: wp_def)

lemma wp_Stop: "wp m Q E os h \<Longrightarrow> m os h = (Stop s, h') \<Longrightarrow> E s h'"
  by (simp add: wp_def)

lemma wp_iff_run:
  "wp m Q E os h \<longleftrightarrow> (\<forall>a h'. m os h = (Done a, h') \<longrightarrow> Q a h')
     \<and> (\<forall>s h'. m os h = (Stop s, h') \<longrightarrow> E s h')"
  by (auto simp: wp_def split: prod.splits outcome.splits)

section \<open>Histories only grow\<close>

definition grows :: "'a prog \<Rightarrow> bool" where
  "grows m \<longleftrightarrow> (\<forall>os h. \<exists>evs. snd (m os h) = evs @ h)"

lemma grows_ret: "grows (ret a)" and grows_halt: "grows (halt s)"
  by (simp_all add: grows_def ret_def halt_def)

lemma grows_sys: "grows (sys c)"
  by (simp add: grows_def sys_def Let_def)

lemma grows_bindp: "grows m \<Longrightarrow> (\<And>a. grows (f a)) \<Longrightarrow> grows (bindp m f)"
  unfolding grows_def
proof (intro allI)
  fix os h
  assume m: "\<forall>os h. \<exists>evs. snd (m os h) = evs @ h" and f: "\<And>a. \<forall>os h. \<exists>evs. snd (f a os h) = evs @ h"
  obtain r h1 where r: "m os h = (r, h1)" by fastforce
  from m r obtain e1 where h1: "h1 = e1 @ h" by (metis snd_conv)
  show "\<exists>evs. snd (bindp m f os h) = evs @ h"
  proof (cases r)
    case (Done a)
    from f obtain e2 where "snd (f a os h1) = e2 @ h1" by blast
    with Done r h1 show ?thesis by (auto simp: bindp_def)
  qed (use r h1 in \<open>auto simp: bindp_def\<close>)
qed

lemma grows_thenp: "grows m \<Longrightarrow> grows n \<Longrightarrow> grows (thenp m n)"
  by (simp add: thenp_def grows_bindp)

lemma grows_if: "(b \<Longrightarrow> grows m) \<Longrightarrow> (\<not> b \<Longrightarrow> grows n) \<Longrightarrow> grows (if b then m else n)"
  by simp

lemma grows_case_prod: "(\<And>a b. x = (a, b) \<Longrightarrow> grows (f a b)) \<Longrightarrow> grows (case x of (a, b) \<Rightarrow> f a b)"
  by (simp split: prod.split)

lemma grows_Let: "grows (f x) \<Longrightarrow> grows (let a = x in f a)"
  by simp

lemma grows_case_option: "grows m \<Longrightarrow> (\<And>a. grows (f a)) \<Longrightarrow> grows (case x of None \<Rightarrow> m | Some a \<Rightarrow> f a)"
  by (simp split: option.split)

lemma grows_checks: "grows (assertp b)" "grows (guardp e b)" "grows (getp e x)"
  by (simp_all add: assertp_def guardp_def getp_def grows_ret grows_halt split: option.split)

lemmas grows_intros = grows_ret grows_halt grows_sys grows_bindp grows_thenp grows_if grows_Let
  grows_case_prod grows_case_option grows_checks

lemma wp_grows:
  assumes "grows m" and "wp m Q E os h"
  shows "wp m (\<lambda>a h'. Q a h' \<and> (\<exists>evs. h' = evs @ h)) E os h"
proof -
  obtain evs where "snd (m os h) = evs @ h" using assms(1) by (auto simp: grows_def)
  with assms(2) show ?thesis by (auto simp: wp_def split: prod.splits outcome.splits)
qed

section \<open>What a program may call, and when\<close>

text \<open>\<open>trace_ok P evs h\<close>: every call of \<open>evs\<close>, made after the events before it and after \<open>h\<close>,
  satisfies \<open>P\<close>. \<open>traced os P m\<close>: so does every call of every run of \<open>m\<close>. The rules take a
  program apart, so that only its interesting calls are left to prove.\<close>

fun trace_ok :: "(log \<Rightarrow> call \<Rightarrow> bool) \<Rightarrow> log \<Rightarrow> log \<Rightarrow> bool" where
  "trace_ok P [] h \<longleftrightarrow> True"
| "trace_ok P ((c, a) # evs) h \<longleftrightarrow> P (evs @ h) c \<and> trace_ok P evs h"

lemma trace_ok_append: "trace_ok P (evs @ evs') h \<longleftrightarrow> trace_ok P evs (evs' @ h) \<and> trace_ok P evs' h"
  by (induction evs) auto

lemma trace_ok_split:
  "trace_ok P evs h \<longleftrightarrow> (\<forall>evs1 c a evs2. evs = evs1 @ (c, a) # evs2 \<longrightarrow> P (evs2 @ h) c)"
proof (induction evs)
  case Nil
  then show ?case by simp
next
  case (Cons e evs)
  obtain c a where "e = (c, a)" by (cases e)
  with Cons show ?case by (auto simp: Cons_eq_append_conv)
qed

lemma trace_ok_member: "trace_ok P evs h \<Longrightarrow> (c, a) \<in> set evs \<Longrightarrow> \<exists>h'. P h' c"
  by (induction P evs h rule: trace_ok.induct) auto

definition traced :: "os \<Rightarrow> (log \<Rightarrow> call \<Rightarrow> bool) \<Rightarrow> 'a prog \<Rightarrow> bool" where
  "traced os P m \<longleftrightarrow> (\<forall>h. \<exists>evs. snd (m os h) = evs @ h \<and> trace_ok P evs h)"

lemma traced_ret: "traced os P (ret a)" and traced_halt: "traced os P (halt s)"
  by (simp_all add: traced_def ret_def halt_def)

lemma traced_sys: "(\<And>h. P h c) \<Longrightarrow> traced os P (sys c)"
  by (simp add: traced_def sys_def Let_def)

lemma traced_bindp:
  assumes m: "traced os P m" and f: "\<And>a. traced os P (f a)"
  shows "traced os P (bindp m f)"
  unfolding traced_def
proof
  fix h
  obtain r h1 where r: "m os h = (r, h1)" by fastforce
  from m r obtain e1 where h1: "h1 = e1 @ h" "trace_ok P e1 h" unfolding traced_def by (metis snd_conv)
  show "\<exists>evs. snd (bindp m f os h) = evs @ h \<and> trace_ok P evs h"
  proof (cases r)
    case (Done a)
    from f [of a] obtain e2 where "snd (f a os h1) = e2 @ h1" "trace_ok P e2 h1"
      unfolding traced_def by blast
    with Done r h1 show ?thesis
      by (auto simp: bindp_def trace_ok_append intro!: exI [of _ "e2 @ e1"])
  qed (use r h1 in \<open>auto simp: bindp_def\<close>)
qed

lemma traced_thenp: "traced os P m \<Longrightarrow> traced os P n \<Longrightarrow> traced os P (thenp m n)"
  by (simp add: thenp_def traced_bindp)

lemma traced_if: "(b \<Longrightarrow> traced os P m) \<Longrightarrow> (\<not> b \<Longrightarrow> traced os P n) \<Longrightarrow> traced os P (if b then m else n)"
  by simp

lemma traced_whenp: "(b \<Longrightarrow> traced os P m) \<Longrightarrow> traced os P (whenp b m)"
  by (simp add: whenp_def traced_ret)

lemma traced_case_prod:
  "(\<And>a b. x = (a, b) \<Longrightarrow> traced os P (f a b)) \<Longrightarrow> traced os P (case x of (a, b) \<Rightarrow> f a b)"
  by (simp split: prod.split)

lemma traced_Let: "traced os P (f x) \<Longrightarrow> traced os P (let a = x in f a)"
  by simp

lemma traced_case_option:
  "traced os P m \<Longrightarrow> (\<And>a. traced os P (f a)) \<Longrightarrow> traced os P (case x of None \<Rightarrow> m | Some a \<Rightarrow> f a)"
  by (simp split: option.split)

lemma traced_case_list:
  "traced os P m \<Longrightarrow> (\<And>a as. traced os P (f a as)) \<Longrightarrow> traced os P (case x of [] \<Rightarrow> m | a # as \<Rightarrow> f a as)"
  by (simp split: list.split)

lemma traced_case_iter:
  "(\<And>s. traced os P (f s)) \<Longrightarrow> (\<And>b. traced os P (g b)) \<Longrightarrow>
   traced os P (case x of Again s \<Rightarrow> f s | Leave b \<Rightarrow> g b)"
  by (simp split: iter.split)

lemma traced_checks: "traced os P (assertp b)" "traced os P (guardp e b)" "traced os P (getp e x)"
  by (simp_all add: assertp_def guardp_def getp_def traced_ret traced_halt split: option.split)

lemma traced_loop: "(\<And>s. traced os P (body s)) \<Longrightarrow> traced os P (loop n body s)"
  by (induction n arbitrary: s) (auto intro!: traced_bindp traced_halt traced_case_iter traced_ret)

lemmas traced_intros = traced_ret traced_halt traced_sys traced_bindp traced_thenp traced_if traced_whenp
  traced_Let traced_case_prod traced_case_option traced_case_list traced_case_iter traced_checks traced_loop

lemma traced_run: "traced os P m \<Longrightarrow> trace_ok P (snd (m os [])) []"
  by (metis append_Nil2 traced_def)

text \<open>A program whose weakest precondition carries the trace.\<close>

lemma traced_wp:
  assumes "\<And>h. wp m (\<lambda>_ h'. \<exists>evs. h' = evs @ h \<and> trace_ok P evs h)
      (\<lambda>_ h'. \<exists>evs. h' = evs @ h \<and> trace_ok P evs h) os h"
  shows "traced os P m"
  unfolding traced_def
proof
  fix h
  show "\<exists>evs. snd (m os h) = evs @ h \<and> trace_ok P evs h"
    using assms [of h] by (cases "m os h"; cases "fst (m os h)") (auto simp: wp_def)
qed

section \<open>Loops\<close>

lemma wp_loop_Suc [wp_simps]:
  "wp (loop (Suc n) body s) Q E os h =
     wp (body s) (\<lambda>r h'. case r of Again s' \<Rightarrow> wp (loop n body s') Q E os h' | Leave b \<Rightarrow> Q b h')
       E os h"
  unfolding loop.simps wp_bindp wp_case_iter wp_ret ..

text \<open>Partial correctness: an invariant of the body, kept while the loop goes round, and
  which must also cover the case that the loop is still running.\<close>

lemma wp_loop:
  assumes step: "\<And>s h. I s h \<Longrightarrow>
      wp (body s) (\<lambda>r h'. case r of Again s' \<Rightarrow> I s' h' | Leave b \<Rightarrow> Q b h') E os h"
    and running: "\<And>s h. I s h \<Longrightarrow> E Unfinished h"
    and init: "I s h"
  shows "wp (loop n body s) Q E os h"
  using init
proof (induction n arbitrary: s h)
  case 0
  then show ?case by (simp add: wp_halt running)
next
  case (Suc n)
  show ?case
    unfolding wp_loop_Suc
    by (rule wp_mono [OF step [OF Suc.prems]]) (auto intro: Suc.IH split: iter.splits)
qed

text \<open>An invariant that counts the rounds.\<close>

lemma wp_loop_count:
  assumes step: "\<And>k s h. k < n \<Longrightarrow> I k s h \<Longrightarrow>
      wp (body s) (\<lambda>r h'. case r of Again s' \<Rightarrow> I (Suc k) s' h' | Leave b \<Rightarrow> Q b h') E os h"
    and running: "\<And>k s h. k \<le> n \<Longrightarrow> I k s h \<Longrightarrow> E Unfinished h"
    and init: "I 0 s h"
  shows "wp (loop n body s) Q E os h"
proof -
  have "wp (loop m body s) Q E os h" if "m + k = n" and "I k s h" for m k s h
    using that
  proof (induction m arbitrary: k s h)
    case 0
    then show ?case using running [of k s h] by (simp add: wp_halt)
  next
    case (Suc m)
    then have "k < n" by simp
    show ?case
      unfolding wp_loop_Suc
      by (rule wp_mono [OF step [OF \<open>k < n\<close> Suc.prems(2)]])
        (use Suc.prems in \<open>auto intro: Suc.IH split: iter.splits\<close>)
  qed
  from this [of n 0] init show ?thesis by simp
qed

text \<open>Total correctness: a measure that every round decreases bounds the fuel the loop
  needs, so that it leaves before the fuel is spent.\<close>

lemma wp_loop_total:
  assumes step: "\<And>s h. I s h \<Longrightarrow>
      wp (body s) (\<lambda>r h'. case r of Again s' \<Rightarrow> I s' h' \<and> mu s' < (mu s :: nat) | Leave b \<Rightarrow> Q b h')
        E os h"
    and init: "I s h" and fuel: "mu s < n"
  shows "wp (loop n body s) Q E os h"
  using init fuel
proof (induction n arbitrary: s h)
  case 0
  then show ?case by simp
next
  case (Suc n)
  show ?case
    unfolding wp_loop_Suc
  proof (rule wp_mono [OF step [OF Suc.prems(1)]])
    fix r h'
    assume "case r of Again s' \<Rightarrow> I s' h' \<and> mu s' < mu s | Leave b \<Rightarrow> Q b h'"
    with Suc show "case r of Again s' \<Rightarrow> wp (loop n body s') Q E os h' | Leave b \<Rightarrow> Q b h'"
      by (cases r) auto
  qed
qed

lemmas prog_defs = ret_def halt_def bindp_def thenp_def sys_def whenp_def assertp_def
  guardp_def getp_def

end
