(* ===== verification/C_String.thy ===== *)
theory C_String
  imports C_Runtime
begin

text \<open>
  The C library's operations on character arrays that the programs use. An array is the
  list of its bytes, of the length of its declaration; reading past its end or writing
  outside it is \<open>Fault Out_Of_Bounds\<close>. \<open>cstr\<close> is the string an array holds; the lemmas
  say when the C functions are defined and that they then compute on that string.
\<close>

section \<open>Arrays\<close>

text \<open>\<open>memset(buf, 0, n)\<close> of a whole array of \<open>n\<close> bytes\<close>

definition zeros :: "nat \<Rightarrow> bytes" where
  "zeros n = replicate n NUL"

lemma length_zeros [simp]: "length (zeros n) = n"
  by (simp add: zeros_def)

text \<open>\<open>buf[i] = c\<close>\<close>

definition poke :: "bytes \<Rightarrow> int \<Rightarrow> char \<Rightarrow> bytes prog" where
  "poke buf i c =
     (if 0 \<le> i \<and> i < int (length buf) then ret (buf[nat i := c]) else halt (Fault Out_Of_Bounds))"

lemma wp_poke [wp_simps]:
  "wp (poke buf i c) Q E os h =
     (if 0 \<le> i \<and> i < int (length buf) then Q (buf[nat i := c]) h else E (Fault Out_Of_Bounds) h)"
  by (simp add: poke_def wp_ret wp_halt)

section \<open>Strings in arrays\<close>

definition terminated :: "bytes \<Rightarrow> bool" where
  "terminated buf \<longleftrightarrow> NUL \<in> set buf"

definition cstr :: "bytes \<Rightarrow> bytes" where
  "cstr buf = takeWhile (\<lambda>c. c \<noteq> NUL) buf"

text \<open>Reading an array as a string (\<open>strlen\<close>, \<open>%s\<close>): every byte up to the NUL.\<close>

definition c_string :: "bytes \<Rightarrow> bytes prog" where
  "c_string buf = (if terminated buf then ret (cstr buf) else halt (Fault Out_Of_Bounds))"

lemma wp_c_string [wp_simps]:
  "wp (c_string buf) Q E os h =
     (if terminated buf then Q (cstr buf) h else E (Fault Out_Of_Bounds) h)"
  by (simp add: c_string_def wp_ret wp_halt)

text \<open>\<open>strlen\<close>\<close>

definition c_strlen :: "bytes \<Rightarrow> int prog" where
  "c_strlen buf = bindp (c_string buf) (\<lambda>s. ret (int (length s)))"

lemma wp_c_strlen [wp_simps]:
  "wp (c_strlen buf) Q E os h =
     (if terminated buf then Q (int (length (cstr buf))) h else E (Fault Out_Of_Bounds) h)"
  by (simp add: c_strlen_def wp_simps)

text \<open>\<open>strcmp(buf, lit) == 0\<close>: bytes are compared until they differ or both strings
  end.\<close>

fun streq :: "bytes \<Rightarrow> bytes \<Rightarrow> bool option" where
  "streq [] lit = None"
| "streq (c # cs) [] = Some (c = NUL)"
| "streq (c # cs) (d # ds) = (if c = d then streq cs ds else Some False)"

definition c_streq :: "bytes \<Rightarrow> bytes \<Rightarrow> bool prog" where
  "c_streq buf lit = getp Out_Of_Bounds (streq buf lit)"

text \<open>\<open>strstr(buf, pat)\<close>: the index of the first occurrence, if there is one.\<close>

fun strstr_at :: "bytes \<Rightarrow> bytes \<Rightarrow> nat option" where
  "strstr_at [] pat = (if pat = [] then Some 0 else None)"
| "strstr_at (c # cs) pat =
     (if take (length pat) (c # cs) = pat then Some 0 else map_option Suc (strstr_at cs pat))"

definition c_strstr :: "bytes \<Rightarrow> bytes \<Rightarrow> nat option prog" where
  "c_strstr buf pat = (case strstr_at (cstr buf) pat of
      Some i \<Rightarrow> ret (Some i)
    | None \<Rightarrow> if terminated buf then ret None else halt (Fault Out_Of_Bounds))"

text \<open>\<open>strcspn(buf, reject)\<close>\<close>

definition c_strcspn :: "bytes \<Rightarrow> bytes \<Rightarrow> int prog" where
  "c_strcspn buf reject = (let n = length (takeWhile (\<lambda>c. c \<notin> set reject \<and> c \<noteq> NUL) buf)
     in if n < length buf then ret (int n) else halt (Fault Out_Of_Bounds))"

text \<open>\<open>sprintf\<close> of the text \<open>s\<close> into an array: the text and its NUL must fit.\<close>

definition sprintf_to :: "bytes \<Rightarrow> bytes \<Rightarrow> bytes prog" where
  "sprintf_to buf s =
     (if length s < length buf then ret (overlay buf 0 (s @ [NUL]))
      else halt (Fault Out_Of_Bounds))"

lemma wp_sprintf_to [wp_simps]:
  "wp (sprintf_to buf s) Q E os h =
     (if length s < length buf then Q (overlay buf 0 (s @ [NUL])) h
      else E (Fault Out_Of_Bounds) h)"
  by (simp add: sprintf_to_def wp_ret wp_halt)

section \<open>Facts about strings\<close>

lemma terminated_zeros [simp]: "terminated (zeros n) \<longleftrightarrow> 0 < n"
  by (auto simp: terminated_def zeros_def)

lemma cstr_zeros [simp]: "cstr (zeros n) = []"
  by (cases n) (simp_all add: cstr_def zeros_def)

lemma cstr_no_NUL [simp]: "NUL \<notin> set (cstr buf)"
  by (auto simp: cstr_def dest: set_takeWhileD)

lemma length_cstr: "terminated buf \<Longrightarrow> length (cstr buf) < length buf"
  unfolding terminated_def cstr_def
  by (induction buf) auto

lemma length_cstr_le: "length (cstr buf) \<le> length buf"
  by (simp add: cstr_def length_takeWhile_le)

lemma terminated_append [simp]: "terminated (xs @ ys) \<longleftrightarrow> terminated xs \<or> terminated ys"
  by (auto simp: terminated_def)

lemma terminated_Cons [simp]: "terminated (c # cs) \<longleftrightarrow> c = NUL \<or> terminated cs"
  by (auto simp: terminated_def)

lemma not_terminated_Nil [simp]: "\<not> terminated []"
  by (simp add: terminated_def)

text \<open>A string stored at the start of an array is read back.\<close>

lemma cstr_stored [simp]: "NUL \<notin> set s \<Longrightarrow> cstr (s @ NUL # r) = s"
  by (induction s) (auto simp: cstr_def)

lemma cstr_drop: "n \<le> length (cstr buf) \<Longrightarrow> cstr (drop n buf) = drop n (cstr buf)"
  unfolding cstr_def by (induction buf arbitrary: n) (auto simp: drop_Cons' split: if_splits)

lemma terminated_drop: "terminated buf \<Longrightarrow> n \<le> length (cstr buf) \<Longrightarrow> terminated (drop n buf)"
  unfolding cstr_def by (induction buf arbitrary: n) (auto simp: drop_Cons' split: if_splits)

lemma cstr_overlay:
  "NUL \<notin> set s \<Longrightarrow> length s < length buf \<Longrightarrow> cstr (overlay buf 0 (s @ [NUL])) = s"
  by (simp add: overlay_def)

lemma terminated_overlay:
  "length s < length buf \<Longrightarrow> terminated (overlay buf 0 (s @ [NUL]))"
  by (simp add: overlay_def)

text \<open>A received segment in a zeroed array, with room left, is a terminated string.\<close>

lemma terminated_received [simp]:
  "length s \<le> n \<Longrightarrow> terminated (overlay (zeros n) 0 s) \<longleftrightarrow> length s < n \<or> NUL \<in> set s"
  by (auto simp: zeros_def overlay_replicate terminated_def)

lemma poke_received:
  assumes "length s < n"
  shows "(overlay (zeros n) 0 s)[length s := NUL] = overlay (zeros n) 0 s"
proof -
  from assms have "zeros n = replicate (length s) NUL @ NUL # replicate (n - length s - 1) NUL"
    by (simp add: zeros_def replicate_add [symmetric] replicate_Suc [symmetric] del: replicate_Suc)
  then show ?thesis by (simp add: overlay_def)
qed

lemma cstr_received:
  "length s \<le> n \<Longrightarrow> cstr (overlay (zeros n) 0 s) = cstr s"
  unfolding cstr_def zeros_def
  by (cases "NUL \<in> set s")
    (auto simp: overlay_replicate takeWhile_append takeWhile_eq_all_conv [THEN iffD2])

lemma cstr_whole: "NUL \<notin> set s \<Longrightarrow> cstr s = s"
  by (simp add: cstr_def takeWhile_eq_all_conv) metis

lemma streq_terminated:
  "terminated buf \<Longrightarrow> NUL \<notin> set lit \<Longrightarrow> streq buf lit = Some (cstr buf = lit)"
  by (induction buf lit rule: streq.induct) (auto simp: cstr_def)

lemma streq_None: "streq buf lit = None \<longleftrightarrow> length buf \<le> length lit \<and> take (length buf) lit = buf"
  by (induction buf lit rule: streq.induct) auto

lemma wp_c_streq [wp_simps]:
  "terminated buf \<Longrightarrow> NUL \<notin> set lit \<Longrightarrow>
   wp (c_streq buf lit) Q E os h = Q (cstr buf = lit) h"
  by (simp add: c_streq_def streq_terminated wp_getp)

lemma strstr_at_Some:
  "strstr_at s pat = Some i \<Longrightarrow> i + length pat \<le> length s \<and> take (length pat) (drop i s) = pat"
proof (induction s arbitrary: i)
  case Nil
  then show ?case by (simp split: if_splits)
next
  case (Cons c cs)
  show ?case
  proof (cases "take (length pat) (c # cs) = pat")
    case True
    with Cons.prems have "i = 0" by simp
    moreover from True have "length pat \<le> length (c # cs)"
      by (metis length_take min.absorb_iff1 min.commute)
    ultimately show ?thesis using True by simp
  next
    case False
    with Cons.prems obtain j where "strstr_at cs pat = Some j" and "i = Suc j" by auto
    with Cons.IH [of j] show ?thesis by simp
  qed
qed

lemma strstr_at_None:
  "strstr_at s pat = None \<longleftrightarrow> (\<forall>i. \<not> (i + length pat \<le> length s \<and> take (length pat) (drop i s) = pat))"
proof (induction s)
  case Nil
  then show ?case by auto
next
  case (Cons c cs)
  have zero_or_later: "All R = (R (0 :: nat) \<and> All (\<lambda>k. R (Suc k)))" for R
    by (metis gr0_conv_Suc neq0_conv)
  have "take (length pat) (c # cs) = pat \<Longrightarrow> length pat \<le> length (c # cs)"
    by (metis length_take min.absorb_iff1 min.commute)
  with Cons.IH show ?case
    by (subst zero_or_later) auto
qed

lemma wp_c_strstr [wp_simps]:
  "terminated buf \<Longrightarrow> wp (c_strstr buf pat) Q E os h = Q (strstr_at (cstr buf) pat) h"
  by (simp add: c_strstr_def wp_ret split: option.split)

lemma wp_c_strcspn [wp_simps]:
  "terminated buf \<Longrightarrow>
   wp (c_strcspn buf reject) Q E os h =
     Q (int (length (takeWhile (\<lambda>c. c \<notin> set reject \<and> c \<noteq> NUL) buf))) h"
proof -
  assume t: "terminated buf"
  have "length (takeWhile (\<lambda>c. c \<notin> set reject \<and> c \<noteq> NUL) buf) < length buf"
    using t by (induction buf) auto
  then show ?thesis by (simp add: c_strcspn_def wp_ret Let_def)
qed

section \<open>Decimal numerals\<close>

text \<open>\<open>%d\<close> and \<open>%ld\<close>\<close>

definition digit :: "nat \<Rightarrow> char" where
  "digit d = char_of (48 + d)"

fun dec_nat :: "nat \<Rightarrow> bytes" where
  "dec_nat n = (if n < 10 then [digit n] else dec_nat (n div 10) @ [digit (n mod 10)])"

declare dec_nat.simps [simp del]

definition dec :: "int \<Rightarrow> bytes" where
  "dec i = (if i < 0 then CHR ''-'' # dec_nat (nat (- i)) else dec_nat (nat i))"

lemma digit_neq_NUL [simp]: "d < 10 \<Longrightarrow> digit d \<noteq> NUL"
proof
  assume d: "d < 10" and "digit d = NUL"
  then have "of_char (char_of (48 + d) :: char) = (of_char NUL :: nat)" by (simp add: digit_def)
  with d show False by simp
qed

lemma dec_nat_no_NUL [simp]: "NUL \<notin> set (dec_nat n)"
proof (induction n rule: dec_nat.induct)
  case (1 n)
  have "NUL \<noteq> digit d" if "d < 10" for d
    using digit_neq_NUL [OF that] by metis
  with 1 show ?case by (subst dec_nat.simps) auto
qed

lemma dec_no_NUL [simp]: "NUL \<notin> set (dec i)"
  by (simp add: dec_def)

lemma dec_nat_digits: "c \<in> set (dec_nat n) \<Longrightarrow> \<exists>d < 10. c = digit d"
proof (induction n rule: dec_nat.induct)
  case (1 n)
  show ?case
  proof (cases "n < 10 \<or> c \<notin> set (dec_nat (n div 10))")
    case True
    with "1.prems" show ?thesis by (subst (asm) dec_nat.simps) (auto intro!: exI [of _ "n mod 10"] split: if_splits)
  next
    case False
    then show ?thesis using "1.IH" by simp
  qed
qed

lemma digit_code: "d < 10 \<Longrightarrow> of_char (digit d) = 48 + d"
  by (simp add: digit_def)

lemma dec_no_LF [simp]: "LF \<notin> set (dec i)"
proof
  assume "LF \<in> set (dec i)"
  then obtain d where "d < 10" "LF = digit d"
    by (auto simp: dec_def dest: dec_nat_digits split: if_splits)
  then have "of_char LF = 48 + d" using digit_code [of d] by simp
  then show False by simp
qed

lemma dec_nat_length: "n < 10 ^ k \<Longrightarrow> 0 < k \<Longrightarrow> length (dec_nat n) \<le> k"
proof (induction n arbitrary: k rule: dec_nat.induct)
  case (1 n)
  show ?case
  proof (cases "n < 10")
    case True
    with "1.prems" show ?thesis by (subst dec_nat.simps) simp
  next
    case False
    with "1.prems" have k: "1 < k" by (cases "k = 1") auto
    then have "10 ^ k = 10 * (10 :: nat) ^ (k - 1)" by (simp add: power_eq_if)
    with "1.prems" have "n div 10 < 10 ^ (k - 1)" by (simp add: less_mult_imp_div_less mult.commute)
    with False "1.IH" k have "length (dec_nat (n div 10)) \<le> k - 1" by simp
    with False k show ?thesis by (subst dec_nat.simps) simp
  qed
qed

lemma dec_length: "\<bar>i\<bar> < 10 ^ k \<Longrightarrow> 0 < k \<Longrightarrow> length (dec i) \<le> Suc k"
proof -
  assume i: "\<bar>i\<bar> < 10 ^ k" and k: "0 < k"
  have "nat \<bar>i\<bar> < nat (10 ^ k)" using i by (simp add: nat_less_eq_zless)
  then have "length (dec_nat (nat \<bar>i\<bar>)) \<le> k" using k by (simp add: dec_nat_length nat_power_eq)
  then show ?thesis using k by (cases "i < 0") (auto simp: dec_def)
qed

text \<open>A numeral is read back.\<close>

definition undec_nat :: "bytes \<Rightarrow> nat" where
  "undec_nat s = foldl (\<lambda>n c. 10 * n + (of_char c - 48)) 0 s"

lemma undec_nat_dec_nat: "undec_nat (dec_nat n) = n"
proof (induction n rule: dec_nat.induct)
  case (1 n)
  have d: "of_char (digit k) = 48 + k" if "k < 10" for k
    using that by (simp add: digit_def)
  from 1 show ?case
    by (subst dec_nat.simps) (auto simp: undec_nat_def d)
qed

section \<open>Byte order\<close>

text \<open>\<open>htons\<close> and \<open>ntohs\<close> on the little-endian hosts the programs are built for: the two
  bytes change places.\<close>

unbundle bit_operations_syntax

definition htons :: "16 word \<Rightarrow> 16 word" where
  "htons x = (push_bit 8 x) OR (drop_bit 8 x)"

definition ntohs :: "16 word \<Rightarrow> 16 word" where
  "ntohs x = (push_bit 8 x) OR (drop_bit 8 x)"

lemma ntohs_htons [simp]: "ntohs (htons x) = x"
proof (rule bit_word_eqI)
  fix n assume n: "n < LENGTH(16)"
  show "bit (ntohs (htons x)) n = bit x n"
    using n
    by (auto simp: ntohs_def htons_def bit_or_iff bit_push_bit_iff bit_drop_bit_eq not_le
        dest: bit_imp_le_length)
qed

lemma htons_ntohs [simp]: "htons (ntohs x) = x"
  using ntohs_htons by (simp add: htons_def ntohs_def)

lemma htons_inj: "htons x = htons y \<longleftrightarrow> x = y"
  by (metis ntohs_htons)

end
