(* ===== verification/Posix.thy ===== *)
theory Posix
  imports C_String
begin

text \<open>
  What the calls promise and what they cost: the resources (descriptors, address lists,
  heap blocks, OpenSSL contexts and handles, handles of libcurl) that are live after a history, the discipline
  of using and giving back only what is live, and the documented behaviour of the calls
  that the theorems assume (\<open>lawful\<close>). \<open>sim_os\<close> is a concrete environment that obeys it;
  the witnesses run the programs on it.
\<close>

section \<open>Resources\<close>

datatype res = Fd int | Info int | Block int | Ctx int | Ssl int | Curl int | Multi int

text \<open>A call on a negative descriptor fails with \<open>EBADF\<close> and touches nothing; so does a call of
  libcurl on a NULL handle.\<close>

definition fd_res :: "int \<Rightarrow> res set" where
  "fd_res f = (if f < 0 then {} else {Fd f})"

definition acquires :: "call \<Rightarrow> answer \<Rightarrow> res set" where
  "acquires c a = (case c of
      Socket _ _ _ \<Rightarrow> fd_res (a_ret a)
    | Accept _ \<Rightarrow> fd_res (a_ret a)
    | TimerfdCreate _ _ \<Rightarrow> fd_res (a_ret a)
    | GetAddrInfo _ _ _ \<Rightarrow> if a_ret a = 0 then {Info (a_ptr a)} else {}
    | Malloc _ \<Rightarrow> if a_ptr a = 0 then {} else {Block (a_ptr a)}
    | Realloc _ _ \<Rightarrow> if a_ptr a = 0 then {} else {Block (a_ptr a)}
    | SslCtxNew _ \<Rightarrow> if a_ptr a = 0 then {} else {Ctx (a_ptr a)}
    | SslNew _ \<Rightarrow> if a_ptr a = 0 then {} else {Ssl (a_ptr a)}
    | CurlEasyInit \<Rightarrow> if a_ptr a = 0 then {} else {Curl (a_ptr a)}
    | CurlMultiInit \<Rightarrow> if a_ptr a = 0 then {} else {Multi (a_ptr a)}
    | _ \<Rightarrow> {})"

definition releases :: "call \<Rightarrow> answer \<Rightarrow> res set" where
  "releases c a = (case c of
      Close f \<Rightarrow> fd_res f
    | FreeAddrInfo p \<Rightarrow> {Info p}
    | Free p \<Rightarrow> if p = 0 then {} else {Block p}
    | Realloc p _ \<Rightarrow> if p = 0 \<or> a_ptr a = 0 then {} else {Block p}
    | SslCtxFree p \<Rightarrow> if p = 0 then {} else {Ctx p}
    | SslFree p \<Rightarrow> if p = 0 then {} else {Ssl p}
    | CurlEasyCleanup p \<Rightarrow> if p = 0 then {} else {Curl p}
    | CurlMultiCleanup m \<Rightarrow> if m = 0 then {} else {Multi m}
    | _ \<Rightarrow> {})"

definition needs :: "call \<Rightarrow> res set" where
  "needs c = (case c of
      SetSockOpt f _ _ \<Rightarrow> fd_res f
    | Bind f _ _ \<Rightarrow> fd_res f
    | Listen f _ \<Rightarrow> fd_res f
    | Accept f \<Rightarrow> fd_res f
    | Connect f _ _ \<Rightarrow> fd_res f
    | Recv f _ _ \<Rightarrow> fd_res f
    | Send f _ _ \<Rightarrow> fd_res f
    | RecvFrom f _ _ \<Rightarrow> fd_res f
    | SendTo f _ _ _ _ \<Rightarrow> fd_res f
    | Close f \<Rightarrow> fd_res f
    | Shutdown f _ \<Rightarrow> fd_res f
    | Fcntl f _ _ \<Rightarrow> fd_res f
    | PollCall fs _ \<Rightarrow> (\<Union>(f, e) \<in> set fs. fd_res f)
    | SelectCall _ fs \<Rightarrow> (\<Union>f \<in> set fs. fd_res f)
    | TimerfdSettime f _ \<Rightarrow> fd_res f
    | FreeAddrInfo p \<Rightarrow> {Info p}
    | Free p \<Rightarrow> if p = 0 then {} else {Block p}
    | Realloc p _ \<Rightarrow> if p = 0 then {} else {Block p}
    | SslCtxFree p \<Rightarrow> if p = 0 then {} else {Ctx p}
    | SslUseCert p _ \<Rightarrow> {Ctx p}
    | SslUseKey p _ \<Rightarrow> {Ctx p}
    | SslNew p \<Rightarrow> {Ctx p}
    | SslSetFd p f \<Rightarrow> {Ssl p} \<union> fd_res f
    | SslAccept p \<Rightarrow> {Ssl p}
    | SslConnect p \<Rightarrow> {Ssl p}
    | SslRead p _ \<Rightarrow> {Ssl p}
    | SslWrite p _ \<Rightarrow> {Ssl p}
    | SslGetCipher p \<Rightarrow> {Ssl p}
    | SslShutdown p \<Rightarrow> {Ssl p}
    | SslFree p \<Rightarrow> if p = 0 then {} else {Ssl p}
    | CurlEasyCleanup p \<Rightarrow> if p = 0 then {} else {Curl p}
    | CurlMultiCleanup m \<Rightarrow> if m = 0 then {} else {Multi m}
    | CurlSetOpt p _ _ \<Rightarrow> if p = 0 then {} else {Curl p}
    | CurlPerform p _ \<Rightarrow> if p = 0 then {} else {Curl p}
    | CurlMultiAdd m p \<Rightarrow> (if m = 0 then {} else {Multi m}) \<union> (if p = 0 then {} else {Curl p})
    | CurlMultiPerform m _ \<Rightarrow> if m = 0 then {} else {Multi m}
    | CurlMultiWait m _ \<Rightarrow> if m = 0 then {} else {Multi m}
    | CurlMultiRemove m p \<Rightarrow> (if m = 0 then {} else {Multi m}) \<union> (if p = 0 then {} else {Curl p})
    | _ \<Rightarrow> {})"

text \<open>The resources that are live after a history; a process starts with its three
  standard descriptors.\<close>

fun live :: "log \<Rightarrow> res set" where
  "live [] = {Fd 0, Fd 1, Fd 2}"
| "live ((c, a) # h) = (live h - releases c a) \<union> acquires c a"

text \<open>No call of the history used or released anything that was not live: no use after
  close or free, no double close, no double free.\<close>

fun disciplined :: "log \<Rightarrow> bool" where
  "disciplined [] \<longleftrightarrow> True"
| "disciplined ((c, a) # h) \<longleftrightarrow> needs c \<subseteq> live h \<and> disciplined h"

lemmas call_res_defs [res_simps] = acquires_def releases_def needs_def

lemma fd_res_nonneg [simp]: "0 \<le> f \<Longrightarrow> fd_res f = {Fd f}"
  by (simp add: fd_res_def)

lemma fd_res_neg [simp]: "f < 0 \<Longrightarrow> fd_res f = {}"
  by (simp add: fd_res_def)

lemma fd_res_subset [simp]: "fd_res f \<subseteq> R \<longleftrightarrow> (0 \<le> f \<longrightarrow> Fd f \<in> R)"
  by (simp add: fd_res_def)

lemma mem_fd_res [simp]: "x \<in> fd_res f \<longleftrightarrow> 0 \<le> f \<and> x = Fd f"
  by (auto simp: fd_res_def)

section \<open>Documented behaviour\<close>

definition sane_count :: "int \<Rightarrow> answer \<Rightarrow> bool" where
  "sane_count n a \<longleftrightarrow> - 1 \<le> a_ret a \<and> a_ret a \<le> max 0 n \<and> (a_ret a < 0 \<longrightarrow> 0 < a_errno a)"

definition sane_read :: "int \<Rightarrow> answer \<Rightarrow> bool" where
  "sane_read n a \<longleftrightarrow> sane_count n a \<and> (0 \<le> a_ret a \<longrightarrow> length (a_buf a) = nat (a_ret a))"

definition sane_status :: "answer \<Rightarrow> bool" where
  "sane_status a \<longleftrightarrow> - 1 \<le> a_ret a \<and> (a_ret a < 0 \<longrightarrow> 0 < a_errno a)"

text \<open>
  The manual pages, as far as the programs rely on them: a new descriptor, address list,
  block or handle is not one that is still in use; a read returns at most what it was asked
  for and stores as many bytes as it says; a write reports at most what it was given; a
  failing call returns -1 with \<open>errno\<close> set; \<open>poll\<close> reports one \<open>revents\<close> per entry;
  \<open>select\<close> leaves a subset of the set it was given, the set unmodified when it fails;
  \<open>getaddrinfo\<close> succeeds with at least one address; \<open>fgets\<close> stores less than its size;
  \<open>time\<close> is a 64-bit integer; a file is read as a whole or the read fails.
\<close>

definition answer_ok :: "log \<Rightarrow> call \<Rightarrow> answer \<Rightarrow> bool" where
  "answer_ok h c a \<longleftrightarrow> acquires c a \<inter> (live h - releases c a) = {} \<and> (case c of
      Socket _ _ _ \<Rightarrow> sane_status a
    | Accept _ \<Rightarrow> sane_status a
    | TimerfdCreate _ _ \<Rightarrow> sane_status a
    | TimerfdSettime _ _ \<Rightarrow> sane_status a \<and> a_ret a \<le> 0
    | SetSockOpt _ _ _ \<Rightarrow> sane_status a
    | Bind _ _ _ \<Rightarrow> sane_status a
    | Listen _ _ \<Rightarrow> sane_status a
    | Connect _ _ _ \<Rightarrow> sane_status a
    | Fcntl _ _ _ \<Rightarrow> sane_status a
    | Recv _ n _ \<Rightarrow> sane_read n a
    | RecvFrom _ n _ \<Rightarrow> sane_read n a
    | SslRead _ n \<Rightarrow> sane_read n a
    | Send _ b _ \<Rightarrow> sane_count (int (length b)) a
    | SendTo _ b _ _ _ \<Rightarrow> sane_count (int (length b)) a
    | SslWrite _ b \<Rightarrow> sane_count (int (length b)) a
    | PollCall fs _ \<Rightarrow> sane_status a \<and> (0 \<le> a_ret a \<longrightarrow> length (a_flags a) = length fs)
    | SelectCall _ fs \<Rightarrow> sane_status a \<and> set (a_flags a) \<subseteq> set fs
        \<and> (a_ret a < 0 \<longrightarrow> a_flags a = fs)
    | GetAddrInfo _ _ _ \<Rightarrow> a_ret a = 0 \<longrightarrow> a_infos a \<noteq> []
    | Fgets n \<Rightarrow> length (a_buf a) < nat n
    | TimeCall \<Rightarrow> \<bar>a_ret a\<bar> < 10 ^ 19
    | FileRead _ n \<Rightarrow> a_ret a \<noteq> 0 \<longrightarrow> length (a_buf a) = nat n
    | _ \<Rightarrow> True)"

definition lawful :: "os \<Rightarrow> bool" where
  "lawful os \<longleftrightarrow> (\<forall>h c. (case c of Fgets n \<Rightarrow> 0 < n | _ \<Rightarrow> True) \<longrightarrow> answer_ok h c (os h c))"

text \<open>Memory does not run out.\<close>

definition memory_ok :: "os \<Rightarrow> bool" where
  "memory_ok os \<longleftrightarrow> (\<forall>h n p. a_ptr (os h (Malloc n)) \<noteq> 0 \<and> a_ptr (os h (Realloc p n)) \<noteq> 0)"

lemma lawfulD:
  "lawful os \<Longrightarrow> answers os h c a \<Longrightarrow> (case c of Fgets n \<Rightarrow> 0 < n | _ \<Rightarrow> True) \<Longrightarrow> answer_ok h c a"
  by (auto simp: lawful_def answers_def)

lemma fresh_fd:
  assumes "lawful os" and "answers os h c a" and "0 \<le> a_ret a"
    and "case c of Socket _ _ _ \<Rightarrow> True | Accept _ \<Rightarrow> True | TimerfdCreate _ _ \<Rightarrow> True | _ \<Rightarrow> False"
  shows "Fd (a_ret a) \<notin> live h"
  using assms(3,4) lawfulD [OF assms(1,2)]
  by (auto simp: answer_ok_def acquires_def releases_def split: call.splits)

lemma fresh_socket: "lawful os \<Longrightarrow> answers os h (Socket d t p) a \<Longrightarrow> 0 \<le> a_ret a \<Longrightarrow> Fd (a_ret a) \<notin> live h"
  by (rule fresh_fd) auto

lemma fresh_accept: "lawful os \<Longrightarrow> answers os h (Accept f) a \<Longrightarrow> 0 \<le> a_ret a \<Longrightarrow> Fd (a_ret a) \<notin> live h"
  by (rule fresh_fd) auto

lemma fresh_timer:
  "lawful os \<Longrightarrow> answers os h (TimerfdCreate c fl) a \<Longrightarrow> 0 \<le> a_ret a \<Longrightarrow> Fd (a_ret a) \<notin> live h"
  by (rule fresh_fd) auto

lemma fresh_info:
  assumes "lawful os" and "answers os h (GetAddrInfo n s i) a" and "a_ret a = 0"
  shows "Info (a_ptr a) \<notin> live h \<and> a_infos a \<noteq> []"
  using assms(3) lawfulD [OF assms(1,2)] by (auto simp: answer_ok_def acquires_def releases_def)

lemma fresh_block:
  assumes "lawful os" and "answers os h (Malloc n) a" and "a_ptr a \<noteq> 0"
  shows "Block (a_ptr a) \<notin> live h"
  using assms(3) lawfulD [OF assms(1,2)] by (auto simp: answer_ok_def acquires_def releases_def)

lemma recv_law:
  assumes "lawful os" and "answers os h (Recv f n fl) a" and "0 \<le> n"
  shows "a_ret a \<le> n \<and> (0 \<le> a_ret a \<longrightarrow> length (a_buf a) = nat (a_ret a)) \<and> (a_ret a < 0 \<longrightarrow> 0 < a_errno a)"
  using lawfulD [OF assms(1,2)] assms(3) by (auto simp: answer_ok_def sane_read_def sane_count_def)

lemma send_law:
  assumes "lawful os" and "answers os h (Send f b fl) a"
  shows "a_ret a \<le> int (length b) \<and> (a_ret a < 0 \<longrightarrow> 0 < a_errno a)"
  using lawfulD [OF assms] by (auto simp: answer_ok_def sane_count_def)

lemma poll_law:
  assumes "lawful os" and "answers os h (PollCall fs t) a" and "0 \<le> a_ret a"
  shows "length (a_flags a) = length fs"
  using lawfulD [OF assms(1,2)] assms(3) by (auto simp: answer_ok_def)

lemma select_law:
  assumes "lawful os" and "answers os h (SelectCall n fs) a"
  shows "set (a_flags a) \<subseteq> set fs"
  using lawfulD [OF assms] by (auto simp: answer_ok_def)

lemma time_law:
  assumes "lawful os" and "answers os h TimeCall a"
  shows "\<bar>a_ret a\<bar> < 10 ^ 19"
  using lawfulD [OF assms] by (auto simp: answer_ok_def)

lemma fgets_law:
  assumes "lawful os" and "answers os h (Fgets n) a" and "0 < n"
  shows "length (a_buf a) < nat n"
  using lawfulD [OF assms(1,2)] assms(3) by (auto simp: answer_ok_def)

lemma timer_law:
  assumes "lawful os" and "answers os h (TimerfdSettime f n) a"
  shows "a_ret a \<le> 0 \<and> (a_ret a < 0 \<longrightarrow> 0 < a_errno a)"
  using lawfulD [OF assms] by (auto simp: answer_ok_def sane_status_def)

text \<open>Arming a timer that is open succeeds.\<close>

definition timers_ok :: "os \<Rightarrow> bool" where
  "timers_ok os \<longleftrightarrow> (\<forall>h f n. Fd f \<in> live h \<longrightarrow> a_ret (os h (TimerfdSettime f n)) = 0)"

text \<open>How a run may stop: not by a failed assertion and not by undefined behaviour, and with
  the discipline of resources kept.\<close>

definition clean_stop :: "stop \<Rightarrow> log \<Rightarrow> bool" where
  "clean_stop s h \<longleftrightarrow> (case s of Exit _ \<Rightarrow> True | Unfinished \<Rightarrow> True | _ \<Rightarrow> False) \<and> disciplined h"

lemma clean_stop_simps [simp]:
  "clean_stop (Exit c) h \<longleftrightarrow> disciplined h" "clean_stop Unfinished h \<longleftrightarrow> disciplined h"
  "\<not> clean_stop Abort h" "\<not> clean_stop (Fault e) h"
  by (simp_all add: clean_stop_def)

text \<open>The same, of a whole run that may also return.\<close>

definition safe_run :: "'a outcome \<times> log \<Rightarrow> bool" where
  "safe_run r \<longleftrightarrow> disciplined (snd r) \<and> (case fst r of Done _ \<Rightarrow> True | Stop s \<Rightarrow> clean_stop s (snd r))"

lemma safe_runI:
  "wp m (\<lambda>_. disciplined) clean_stop os h \<Longrightarrow> safe_run (m os h)"
  by (auto simp: wp_def safe_run_def clean_stop_def split: prod.splits outcome.splits)

lemma safe_run_fault: "safe_run r \<Longrightarrow> fst r \<noteq> Stop (Fault e) \<and> fst r \<noteq> Stop Abort"
  by (auto simp: safe_run_def)

section \<open>A concrete environment\<close>

text \<open>
  \<open>sim_os msgs\<close> grants every request: descriptors and pointers are one above any value seen
  before, everything polled is readable, writes are complete, and the \<open>k\<close>-th read of the
  history is the \<open>k\<close>-th message of \<open>msgs\<close> (end of stream when there is none).
\<close>

definition next_val :: "log \<Rightarrow> int" where
  "next_val h = 1 + foldr max (concat (map (\<lambda>(c, a). [a_ret a, a_ptr a]) h)) 2"

definition is_read :: "call \<Rightarrow> bool" where
  "is_read c = (case c of Recv _ _ _ \<Rightarrow> True | RecvFrom _ _ _ \<Rightarrow> True | SslRead _ _ \<Rightarrow> True
     | Fgets _ \<Rightarrow> True | _ \<Rightarrow> False)"

definition sim_read :: "bytes list \<Rightarrow> log \<Rightarrow> nat \<Rightarrow> answer" where
  "sim_read msgs h n = (let k = length (filter (\<lambda>(c, a). is_read c) h);
      m = (if k < length msgs then take n (msgs ! k) else [])
    in (plain (int (length m)))\<lparr>a_buf := m\<rparr>)"

definition sim_os :: "bytes list \<Rightarrow> os" where
  "sim_os msgs h c = (case c of
      Socket _ _ _ \<Rightarrow> plain (next_val h)
    | Accept _ \<Rightarrow> plain (next_val h)
    | TimerfdCreate _ _ \<Rightarrow> plain (next_val h)
    | GetAddrInfo _ _ _ \<Rightarrow> (plain 0)\<lparr>a_ptr := next_val h, a_infos := [zero_addrinfo]\<rparr>
    | GetProtoByName _ \<Rightarrow> (plain 6)\<lparr>a_ptr := 1\<rparr>
    | GetServByName _ _ \<Rightarrow> (plain 20480)\<lparr>a_ptr := 1\<rparr>
    | Malloc _ \<Rightarrow> (plain 0)\<lparr>a_ptr := next_val h\<rparr>
    | Realloc _ _ \<Rightarrow> (plain 0)\<lparr>a_ptr := next_val h\<rparr>
    | SslCtxNew _ \<Rightarrow> (plain 0)\<lparr>a_ptr := next_val h\<rparr>
    | SslNew _ \<Rightarrow> (plain 0)\<lparr>a_ptr := next_val h\<rparr>
    | CurlEasyInit \<Rightarrow> (plain 0)\<lparr>a_ptr := next_val h\<rparr>
    | CurlMultiInit \<Rightarrow> (plain 0)\<lparr>a_ptr := next_val h\<rparr>
    | FileCreate _ \<Rightarrow> plain 1
    | SslAccept _ \<Rightarrow> plain 1
    | SslConnect _ \<Rightarrow> plain 1
    | SslUseCert _ _ \<Rightarrow> plain 1
    | SslUseKey _ _ \<Rightarrow> plain 1
    | Recv _ n _ \<Rightarrow> sim_read msgs h (nat n)
    | RecvFrom _ n _ \<Rightarrow> sim_read msgs h (nat n)
    | SslRead _ n \<Rightarrow> sim_read msgs h (nat n)
    | Fgets n \<Rightarrow> sim_read msgs h (nat n - 1)
    | Send _ b _ \<Rightarrow> plain (int (length b))
    | SendTo _ b _ _ _ \<Rightarrow> plain (int (length b))
    | SslWrite _ b \<Rightarrow> plain (int (length b))
    | PollCall fs _ \<Rightarrow> (plain 1)\<lparr>a_flags := map (\<lambda>_. POLLIN) fs\<rparr>
    | SelectCall _ fs \<Rightarrow> (plain 1)\<lparr>a_flags := fs\<rparr>
    | TimeCall \<Rightarrow> plain 1700000000
    | _ \<Rightarrow> plain 0)"

lemma foldr_max_ge: "x \<in> set xs \<or> x = y \<Longrightarrow> (x :: int) \<le> foldr max xs y"
  by (induction xs) (auto simp: le_max_iff_disj)

lemma next_val_gt: "2 < next_val h"
  using foldr_max_ge [of 2 "concat (map (\<lambda>(c, a). [a_ret a, a_ptr a]) h)" 2]
  unfolding next_val_def by linarith

lemma next_val_seen:
  assumes "(c, a) \<in> set h"
  shows "a_ret a < next_val h" and "a_ptr a < next_val h"
proof -
  let ?vs = "concat (map (\<lambda>(c, a). [a_ret a, a_ptr a]) h)"
  have "a_ret a \<in> set ?vs" and "a_ptr a \<in> set ?vs"
    using assms by force+
  then have "a_ret a \<le> foldr max ?vs 2" and "a_ptr a \<le> foldr max ?vs 2"
    by (blast intro: foldr_max_ge)+
  then show "a_ret a < next_val h" and "a_ptr a < next_val h"
    unfolding next_val_def by linarith+
qed

text \<open>Every live resource carries a number the history has seen.\<close>

lemma live_seen:
  "r \<in> live h \<Longrightarrow> r \<in> {Fd 0, Fd 1, Fd 2} \<or>
     (\<exists>c a. (c, a) \<in> set h \<and> (r = Fd (a_ret a) \<or> (\<exists>K \<in> {Info, Block, Ctx, Ssl, Curl, Multi}. r = K (a_ptr a))))"
proof (induction h)
  case Nil
  then show ?case by simp
next
  case (Cons e h)
  obtain c a where e: "e = (c, a)" by (cases e)
  from Cons.prems consider "r \<in> live h" | "r \<in> acquires c a" by (auto simp: e)
  then show ?case
  proof cases
    case 1
    with Cons.IH show ?thesis by auto
  next
    case 2
    then have "r = Fd (a_ret a) \<or> (\<exists>K \<in> {Info, Block, Ctx, Ssl, Curl, Multi}. r = K (a_ptr a))"
      by (auto simp: acquires_def split: call.splits if_splits)
    then show ?thesis by (auto simp: e)
  qed
qed

lemma next_val_fresh:
  "Fd (next_val h) \<notin> live h" "Info (next_val h) \<notin> live h" "Block (next_val h) \<notin> live h"
  "Ctx (next_val h) \<notin> live h" "Ssl (next_val h) \<notin> live h"
  "Curl (next_val h) \<notin> live h" "Multi (next_val h) \<notin> live h"
  using next_val_gt [of h] by (auto dest!: live_seen dest: next_val_seen [of _ _ h])

lemma lawful_sim_os: "lawful (sim_os msgs)"
proof -
  have "answer_ok h c (sim_os msgs h c)" if "case c of Fgets n \<Rightarrow> 0 < n | _ \<Rightarrow> True" for h c
    using that next_val_fresh [of h] next_val_gt [of h]
    by (cases c) (auto simp: answer_ok_def sim_os_def acquires_def releases_def sane_read_def
        sane_count_def sane_status_def sim_read_def Let_def)
  then show ?thesis by (simp add: lawful_def)
qed

lemma memory_ok_sim_os: "memory_ok (sim_os msgs)"
proof -
  have "next_val h \<noteq> 0" for h
    using next_val_gt [of h] by simp
  then show ?thesis by (simp add: memory_ok_def sim_os_def)
qed

lemma timers_ok_sim_os: "timers_ok (sim_os msgs)"
  by (simp add: timers_ok_def sim_os_def)

section \<open>Small programs\<close>

text \<open>The text a format prints: its pieces, one after the other.\<close>

definition fmt :: "bytes list \<Rightarrow> bytes" where
  "fmt parts = concat parts"

definition put_out :: "bytes \<Rightarrow> unit prog" where
  "put_out s = thenp (sys (Out s)) (ret ())"

definition put_err :: "bytes \<Rightarrow> unit prog" where
  "put_err s = thenp (sys (Err s)) (ret ())"

lemma wp_put_out [wp_simps]: "wp (put_out s) Q E os h = (\<forall>a. answers os h (Out s) a \<longrightarrow> Q () ((Out s, a) # h))"
  by (simp add: put_out_def wp_simps)

lemma wp_put_err [wp_simps]: "wp (put_err s) Q E os h = (\<forall>a. answers os h (Err s) a \<longrightarrow> Q () ((Err s, a) # h))"
  by (simp add: put_err_def wp_simps)

text \<open>\<open>report_error\<close> of the tutorials, and \<open>perror\<close>\<close>

definition report_error :: "bytes \<Rightarrow> unit prog" where
  "report_error message = put_err (fmt [''Error: '', message, [LF]])"

definition perror :: "bytes \<Rightarrow> unit prog" where
  "perror s = put_err s"

lemmas report_defs = report_error_def perror_def

lemma wp_report_error [wp_simps]:
  "wp (report_error m) Q E os h =
     (\<forall>a. answers os h (Err (fmt [''Error: '', m, [LF]])) a \<longrightarrow> Q () ((Err (fmt [''Error: '', m, [LF]]), a) # h))"
  by (simp add: report_error_def wp_simps)

lemma wp_perror [wp_simps]:
  "wp (perror s) Q E os h = (\<forall>a. answers os h (Err s) a \<longrightarrow> Q () ((Err s, a) # h))"
  by (simp add: perror_def wp_simps)

section \<open>What leaves the resources alone\<close>

text \<open>A program that leaves the resources as they are.\<close>

definition quiet :: "'a prog \<Rightarrow> os \<Rightarrow> log \<Rightarrow> bool" where
  "quiet m os h \<longleftrightarrow> (\<forall>Q E. (\<forall>r h'. live h' = live h \<longrightarrow> disciplined h' \<longrightarrow> Q r h') \<longrightarrow> wp m Q E os h)"

lemma quietD: "quiet m os h \<Longrightarrow> (\<And>r h'. live h' = live h \<Longrightarrow> disciplined h' \<Longrightarrow> Q r h') \<Longrightarrow> wp m Q E os h"
  by (simp add: quiet_def)

lemma quiet_bindp:
  assumes "quiet m os h" and "\<And>r h'. live h' = live h \<Longrightarrow> disciplined h' \<Longrightarrow> quiet (f r) os h'"
  shows "quiet (bindp m f) os h"
  unfolding quiet_def wp_bindp
proof (intro allI impI)
  fix Q :: "'b \<Rightarrow> log \<Rightarrow> bool" and E
  assume post: "\<forall>r h'. live h' = live h \<longrightarrow> disciplined h' \<longrightarrow> Q r h'"
  show "wp m (\<lambda>a h'. wp (f a) Q E os h') E os h"
    by (rule quietD [OF assms(1)], rule quietD [OF assms(2)]) (use post in auto)
qed

lemma quiet_thenp:
  "quiet m os h \<Longrightarrow> (\<And>h'. live h' = live h \<Longrightarrow> disciplined h' \<Longrightarrow> quiet n os h') \<Longrightarrow> quiet (thenp m n) os h"
  unfolding thenp_def by (rule quiet_bindp) auto

lemma quiet_ret: "disciplined h \<Longrightarrow> quiet (ret a) os h"
  by (simp add: quiet_def wp_ret)

lemma quiet_sys:
  "needs c \<subseteq> live h \<Longrightarrow> (\<And>a. acquires c a = {} \<and> releases c a = {}) \<Longrightarrow> disciplined h \<Longrightarrow> quiet (sys c) os h"
  by (simp add: quiet_def wp_sys)

lemma quiet_if: "(b \<Longrightarrow> quiet m os h) \<Longrightarrow> (\<not> b \<Longrightarrow> quiet n os h) \<Longrightarrow> quiet (if b then m else n) os h"
  by simp

lemma quiet_case_sum:
  "(\<And>e. quiet (f e) os h) \<Longrightarrow> (\<And>a. quiet (g a) os h) \<Longrightarrow> quiet (case r of Inl e \<Rightarrow> f e | Inr a \<Rightarrow> g a) os h"
  by (simp split: sum.split)

lemma quiet_case_bool: "quiet m os h \<Longrightarrow> quiet n os h \<Longrightarrow> quiet (case b of True \<Rightarrow> m | False \<Rightarrow> n) os h"
  by (simp split: bool.split)

lemma quiet_put_out: "disciplined h \<Longrightarrow> quiet (put_out s) os h"
  by (simp add: quiet_def wp_simps res_simps)

lemma quiet_put_err: "disciplined h \<Longrightarrow> quiet (put_err s) os h"
  by (simp add: quiet_def wp_simps res_simps)

lemmas quiet_rules = quiet_bindp quiet_thenp quiet_if quiet_case_sum quiet_case_bool quiet_ret quiet_put_out
  quiet_put_err

end
