(* ===== verification/Fd_Table.thy ===== *)
theory Fd_Table
  imports Posix "HOL-Library.Multiset"
begin

text \<open>
  The interface between the event loop of the non-blocking server and its table of polled
  descriptors: what the loop relies on when it registers the socket and the timer of a new
  connection and when it drops both. The laws are stated on the entries a table holds; the
  descriptors of the entries are compared as a multiset, because a failed \<open>accept\<close> leaves
  the entry -1 in the table, possibly several times.
\<close>

record pollfd =
  p_fd :: int
  p_events :: int
  p_revents :: int

definition fds_of :: "pollfd list \<Rightarrow> int multiset" where
  "fds_of es = mset (map p_fd es)"

lemma fds_of_simps [simp]:
  "fds_of [] = {#}" "fds_of (e # es) = add_mset (p_fd e) (fds_of es)"
  "fds_of (es @ es') = fds_of es + fds_of es'"
  by (simp_all add: fds_of_def)

lemma fds_of_mem: "f \<in># fds_of es \<longleftrightarrow> (\<exists>e \<in> set es. p_fd e = f)"
  by (auto simp: fds_of_def)

lemma fds_of_delete:
  assumes "i < length es"
  shows "fds_of (delete_at i es) = fds_of es - {#p_fd (es ! i)#}"
proof -
  have "fds_of es = fds_of (take i es @ es ! i # drop (Suc i) es)"
    using id_take_nth_drop [OF assms] by simp
  then show ?thesis by (simp add: delete_at_def)
qed

lemma map_fd_update: "p_fd e = p_fd (es ! i) \<Longrightarrow> map p_fd (es[i := e]) = map p_fd es"
  by (metis list_update_beyond list_update_id map_update not_le)

text \<open>
  \<open>own t\<close> are the resources the table itself holds, \<open>cap t\<close> its capacity. Every operation
  keeps the rest of the live resources as they are, except for the descriptor that
  \<open>del\<close> closes.
\<close>

locale fd_table =
  fixes rep :: "'t \<Rightarrow> pollfd list \<Rightarrow> bool"
    and cap :: "'t \<Rightarrow> int"
    and own :: "'t \<Rightarrow> res set"
    and ins :: "pollfd \<Rightarrow> 't \<Rightarrow> (int \<times> 't) prog"
    and del :: "int \<Rightarrow> 't \<Rightarrow> 't prog"
    and look :: "int \<Rightarrow> 't \<Rightarrow> nat option prog"
  assumes ins_law: "rep t es \<Longrightarrow> cap t \<le> 2 ^ 28 \<Longrightarrow> own t \<subseteq> live h \<Longrightarrow> disciplined h \<Longrightarrow>
      lawful os \<Longrightarrow> memory_ok os \<Longrightarrow>
      wp (ins p t) (\<lambda>(e, t') h'. e = 0 \<and> rep t' (es @ [p]) \<and> own t' \<subseteq> live h' \<and>
        live h' - own t' = live h - own t \<and> disciplined h' \<and>
        cap t' \<le> max (cap t) (2 * int (length es) + 2)) E os h"
    and del_law: "rep t es \<Longrightarrow> cap t \<le> 2 ^ 28 \<Longrightarrow> own t \<subseteq> live h \<Longrightarrow> disciplined h \<Longrightarrow>
      fd_res f \<inter> own t = {} \<Longrightarrow> fd_res f \<subseteq> live h \<Longrightarrow> p_fd (hd es) \<noteq> f \<Longrightarrow> f \<in># fds_of es \<Longrightarrow>
      wp (del f t) (\<lambda>t' h'. (\<exists>i. 0 < i \<and> i < length es \<and> p_fd (es ! i) = f \<and> rep t' (delete_at i es)) \<and>
        own t' = own t \<and> live h' = live h - fd_res f \<and> disciplined h' \<and> cap t' = cap t) E os h"
    and look_law: "rep t es \<Longrightarrow> look f t = ret (first_index (\<lambda>p. p_fd p = f) es)"
begin

text \<open>A descriptor of the table is found, at an entry that holds it.\<close>

lemma look_member:
  assumes "rep t es" and "f \<in># fds_of es"
  shows "\<exists>i. look f t = ret (Some i) \<and> i < length es \<and> p_fd (es ! i) = f"
proof -
  from assms(2) obtain e where "e \<in> set es" "p_fd e = f" by (auto simp: fds_of_mem)
  then obtain i where "first_index (\<lambda>p. p_fd p = f) es = Some i"
    using first_index_exists [of e es "\<lambda>p. p_fd p = f"] by auto
  moreover from first_index_Some [OF this] have "i < length es" "p_fd (es ! i) = f" by simp_all
  ultimately show ?thesis
    by (intro exI [of _ i]) (simp add: look_law [OF assms(1)])
qed

text \<open>Registering two entries one after the other.\<close>

lemma register_pair:
  assumes "rep t es" and "cap t \<le> 2 ^ 27" and "int (length es) \<le> 2 ^ 26" and "own t \<subseteq> live h"
    and "disciplined h" and "lawful os" and "memory_ok os"
  shows "wp (bindp (ins p t) (\<lambda>(e, t1). thenp (assertp (e = 0))
           (bindp (ins q t1) (\<lambda>(e', t2). thenp (assertp (e = 0)) (ret t2)))))
      (\<lambda>t2 h2. rep t2 (es @ [p, q]) \<and> own t2 \<subseteq> live h2 \<and> live h2 - own t2 = live h - own t \<and>
        disciplined h2 \<and> cap t2 \<le> max (cap t) (2 * int (length es) + 4)) E os h"
proof -
  have snd: "wp (ins q t1) (\<lambda>(e', t2) h2. rep t2 (es @ [p, q]) \<and> own t2 \<subseteq> live h2 \<and>
        live h2 - own t2 = live h - own t \<and> disciplined h2 \<and>
        cap t2 \<le> max (cap t) (2 * int (length es) + 4)) E os h1"
    if "rep t1 (es @ [p])" "own t1 \<subseteq> live h1" "live h1 - own t1 = live h - own t" "disciplined h1"
      "cap t1 \<le> max (cap t) (2 * int (length es) + 2)" for t1 h1
  proof (rule wp_mono [OF ins_law [OF that(1) _ that(2,4) assms(6,7)]])
    show "cap t1 \<le> 2 ^ 28" using that(5) assms(2,3) by auto
  qed (use that in \<open>auto simp: max_def split: if_splits\<close>)
  show ?thesis
    unfolding wp_bindp
  proof (rule wp_mono [OF ins_law [OF assms(1) _ assms(4-7)]])
    show "cap t \<le> 2 ^ 28" using assms(2) by simp
  qed (auto simp: wp_simps case_prod_unfold intro: snd [unfolded case_prod_unfold])
qed

text \<open>Dropping two descriptors of a table whose first entry is neither.\<close>

lemma drop_pair:
  assumes "rep t es" and "cap t \<le> 2 ^ 28" and "own t \<subseteq> live h" and "disciplined h"
    and "{#f, g#} \<subseteq># fds_of es" and "p_fd (hd es) \<noteq> f" and "p_fd (hd es) \<noteq> g"
    and "fd_res f \<union> fd_res g \<subseteq> live h" and "(fd_res f \<union> fd_res g) \<inter> own t = {}"
    and "fd_res f \<inter> fd_res g = {}"
  shows "wp (bindp (del f t) (\<lambda>t1. del g t1))
      (\<lambda>t2 h2. (\<exists>es2. rep t2 es2 \<and> fds_of es2 = fds_of es - {#f, g#} \<and> p_fd (hd es2) = p_fd (hd es)
          \<and> length es2 + 2 = length es) \<and>
        own t2 = own t \<and> live h2 = live h - fd_res f - fd_res g \<and> disciplined h2 \<and> cap t2 = cap t)
      E os h"
proof -
  have f: "f \<in># fds_of es" and g: "g \<in># fds_of es - {#f#}"
    using assms(5) by (simp_all add: insert_subset_eq_iff)
  have second: "wp (del g t1)
      (\<lambda>t2 h2. (\<exists>es2. rep t2 es2 \<and> fds_of es2 = fds_of es - {#f, g#} \<and> p_fd (hd es2) = p_fd (hd es)
          \<and> length es2 + 2 = length es) \<and>
        own t2 = own t \<and> live h2 = live h - fd_res f - fd_res g \<and> disciplined h2 \<and> cap t2 = cap t) E os h1"
    if i: "0 < i" "i < length es" "p_fd (es ! i) = f" "rep t1 (delete_at i es)" and o1: "own t1 = own t"
      and l1: "live h1 = live h - fd_res f" and "disciplined h1" "cap t1 = cap t" for t1 h1 i
  proof (rule wp_mono [OF del_law [OF i(4)]])
    have m: "fds_of (delete_at i es) = fds_of es - {#f#}" using i by (simp add: fds_of_delete)
    show "g \<in># fds_of (delete_at i es)" using m g by simp
    show "p_fd (hd (delete_at i es)) \<noteq> g" using i assms(7) by (simp add: hd_delete_at)
    fix t2 h2
    assume "(\<exists>j. 0 < j \<and> j < length (delete_at i es) \<and> p_fd (delete_at i es ! j) = g \<and>
        rep t2 (delete_at j (delete_at i es))) \<and>
      own t2 = own t1 \<and> live h2 = live h1 - fd_res g \<and> disciplined h2 \<and> cap t2 = cap t1"
    then obtain j where j: "0 < j" "j < length (delete_at i es)" "p_fd (delete_at i es ! j) = g"
        "rep t2 (delete_at j (delete_at i es))"
      and rest: "own t2 = own t1" "live h2 = live h1 - fd_res g" "disciplined h2" "cap t2 = cap t1"
      by blast
    from j(1,2) i have "length (delete_at j (delete_at i es)) + 2 = length es"
      by simp
    moreover have "p_fd (hd (delete_at j (delete_at i es))) = p_fd (hd es)"
      using i j by (simp add: hd_delete_at)
    moreover have "fds_of (delete_at j (delete_at i es)) = fds_of es - {#f, g#}"
      using j m by (simp add: fds_of_delete add_mset_commute)
    ultimately show "(\<exists>es2. rep t2 es2 \<and> fds_of es2 = fds_of es - {#f, g#} \<and> p_fd (hd es2) = p_fd (hd es)
          \<and> length es2 + 2 = length es) \<and>
        own t2 = own t \<and> live h2 = live h - fd_res f - fd_res g \<and> disciplined h2 \<and> cap t2 = cap t"
      using j(4) rest o1 l1 that(8) by (intro conjI exI [of _ "delete_at j (delete_at i es)"]) simp_all
  qed (use that assms in auto)
  show ?thesis
    unfolding wp_bindp
  proof (rule wp_mono [OF del_law [OF assms(1-4)]])
    fix t1 h1
    assume "(\<exists>i>0. i < length es \<and> p_fd (es ! i) = f \<and> rep t1 (delete_at i es)) \<and>
      own t1 = own t \<and> live h1 = live h - fd_res f \<and> disciplined h1 \<and> cap t1 = cap t"
    then obtain i where "0 < i" "i < length es" "p_fd (es ! i) = f" "rep t1 (delete_at i es)"
      "own t1 = own t" "live h1 = live h - fd_res f" "disciplined h1" "cap t1 = cap t"
      by blast
    then show "wp (del g t1)
      (\<lambda>t2 h2. (\<exists>es2. rep t2 es2 \<and> fds_of es2 = fds_of es - {#f, g#} \<and> p_fd (hd es2) = p_fd (hd es)
          \<and> length es2 + 2 = length es) \<and>
        own t2 = own t \<and> live h2 = live h - fd_res f - fd_res g \<and> disciplined h2 \<and> cap t2 = cap t)
      E os h1"
      by (rule second)
  qed (use assms f in auto)
qed

text \<open>A descriptor that was not in the table, registered and dropped again, leaves the table
  with the descriptors it had, and is found no more.\<close>

lemma register_drop:
  assumes "rep t es" and "cap t \<le> 2 ^ 27" and "int (length es) \<le> 2 ^ 26" and "own t \<subseteq> live h"
    and "disciplined h" and "lawful os" and "memory_ok os"
    and "es \<noteq> []" and "p_fd p \<notin># fds_of es" and "fd_res (p_fd p) \<subseteq> live h"
    and "\<And>t'. fd_res (p_fd p) \<inter> own t' = {}"
  shows "wp (bindp (ins p t) (\<lambda>(e, t1). bindp (del (p_fd p) t1) (\<lambda>t2.
        bindp (look (p_fd p) t2) (\<lambda>i. ret (e, i, t2)))))
      (\<lambda>(e, i, t2) h2. e = 0 \<and> i = None \<and> rep t2 es \<and>
        live h2 - own t2 = live h - own t - fd_res (p_fd p) \<and> disciplined h2) E os h"
  apply (subst wp_bindp)
proof (rule wp_mono [OF ins_law [OF assms(1) _ assms(4-7)]], goal_cases)
  case (2 r h1)
  then obtain t1 where r: "r = (0, t1)" and t1: "rep t1 (es @ [p])" "own t1 \<subseteq> live h1"
      "live h1 - own t1 = live h - own t" "disciplined h1" "cap t1 \<le> max (cap t) (2 * int (length es) + 2)"
    by (cases r) auto
  have cap: "cap t1 \<le> 2 ^ 28" using t1(5) assms(2,3) by auto
  have live1: "fd_res (p_fd p) \<subseteq> live h1"
    using assms(10) assms(11) [of t] assms(11) [of t1] t1(3) by blast
  have hd: "p_fd (hd (es @ [p])) \<noteq> p_fd p"
    using assms(8,9) by (cases es) auto
  have uniq: "i = length es" if "i < length (es @ [p])" "p_fd ((es @ [p]) ! i) = p_fd p" for i
    using that assms(9) by (auto simp: fds_of_mem nth_append split: if_splits)
  have none: "first_index (\<lambda>q. p_fd q = p_fd p) es = None"
    using assms(9) by (auto simp: first_index_None fds_of_mem)
  show ?case
    unfolding r prod.case
    apply (subst wp_bindp)
  proof (rule wp_mono [OF del_law [OF t1(1) cap t1(2,4) assms(11) live1 hd]], goal_cases)
    case (2 t2 h2)
    then obtain i where "i < length (es @ [p])" "p_fd ((es @ [p]) ! i) = p_fd p" "rep t2 (delete_at i (es @ [p]))"
      by blast
    with uniq [OF this(1,2)] have "rep t2 es" by (simp add: delete_at_def)
    with 2 t1(3) assms(11) [of t1] look_law [OF this] none show ?case
      by (auto simp: wp_simps)
  qed (auto simp: fds_of_mem)
qed (use assms in auto)

end

end
