(* ===== verification/Server_Fd.thy ===== *)
theory Server_Fd
  imports Fd_Table
begin

text \<open>
  The growable array of \<open>struct pollfd\<close> of the non-blocking server
  (\<open>my_code/simple_non_blocking_tcp_server_client/server_fd.h\<close>): its state \<open>fds_buf\<close> and
  the operations \<open>init_fds_queue\<close>, \<open>insert_fd\<close>, \<open>remove_fd\<close>, \<open>mypoll\<close> and \<open>find_fd\<close>.

  Memory that \<open>malloc\<close> or \<open>realloc\<close> hands out holds no value until it is written, so a
  cell of the array is an option, and reading an unwritten cell is undefined behaviour.
  \<open>fd_rep b es\<close> says that the array \<open>b\<close> is well formed and holds the entries \<open>es\<close>; the
  operations are specified on \<open>es\<close>: appending, deleting the last match, finding the first.
\<close>

section \<open>State\<close>

record fd_buffer =
  b_size :: int
  b_len :: int
  b_ptr :: int
  b_cells :: "pollfd option list"

abbreviation (input) sizeof_pollfd :: int where "sizeof_pollfd \<equiv> 8"
abbreviation (input) INT_MAX :: int where "INT_MAX \<equiv> 2147483647"

text \<open>\<open>struct FdBuffer fds_buf = {0}\<close>\<close>

definition fds_buf0 :: fd_buffer where
  "fds_buf0 = \<lparr>b_size = 0, b_len = 0, b_ptr = 0, b_cells = []\<rparr>"

section \<open>Operations\<close>

definition read_cell :: "pollfd option list \<Rightarrow> nat \<Rightarrow> pollfd prog" where
  "read_cell cells i =
     (if i < length cells then getp Uninitialised (cells ! i) else halt (Fault Out_Of_Bounds))"

definition init_fds_queue :: "fd_buffer \<Rightarrow> (int \<times> fd_buffer) prog" where
  "init_fds_queue b =
     (if b_ptr b \<noteq> 0 then ret (0, b)
      else bindp (sys (Malloc (sizeof_pollfd * 16))) (\<lambda>a.
        let b' = \<lparr>b_size = 16, b_len = 0, b_ptr = a_ptr a,
                  b_cells = (if a_ptr a = 0 then [] else replicate 16 None)\<rparr>
        in if a_ptr a = 0 then ret (ENOMEM, b') else ret (0, b')))"

text \<open>\<open>fds_buf.fds[fds_buf.len++] = *fd\<close>\<close>

definition append_fd :: "pollfd \<Rightarrow> fd_buffer \<Rightarrow> (int \<times> fd_buffer) prog" where
  "append_fd fd b =
     thenp (guardp Null_Deref (b_ptr b \<noteq> 0))
     (thenp (guardp Out_Of_Bounds (0 \<le> b_len b \<and> b_len b < int (length (b_cells b))))
     (ret (0, b\<lparr>b_cells := (b_cells b)[nat (b_len b) := Some fd], b_len := b_len b + 1\<rparr>)))"

definition insert_fd :: "pollfd \<Rightarrow> fd_buffer \<Rightarrow> (int \<times> fd_buffer) prog" where
  "insert_fd fd b =
     (if b_len b = b_size b - 1
      then thenp (guardp Int_Overflow (b_size b * 2 \<le> INT_MAX))
           (bindp (sys (Realloc (b_ptr b) (b_size b * 2 * sizeof_pollfd))) (\<lambda>a.
            if a_ptr a = 0 then ret (ENOMEM, b)
            else append_fd fd (b\<lparr>b_size := b_size b * 2, b_ptr := a_ptr a,
              b_cells := b_cells b @ replicate (nat (b_size b * 2) - length (b_cells b)) None\<rparr>)))
      else append_fd fd b)"

text \<open>\<open>while (i-- > 0) if (fd == fds_buf.fds[i].fd) break;\<close> leaves \<open>i\<close> at the last match or
  at -1.\<close>

primrec scan_back :: "int \<Rightarrow> pollfd option list \<Rightarrow> nat \<Rightarrow> int prog" where
  "scan_back fd cells 0 = ret (- 1)"
| "scan_back fd cells (Suc i) = bindp (read_cell cells i) (\<lambda>p.
     if fd = p_fd p then ret (int i) else scan_back fd cells i)"

text \<open>\<open>for (; i < fds_buf.len; i++) fds_buf.fds[i - 1] = fds_buf.fds[i];\<close> for \<open>n\<close> rounds\<close>

primrec shift_down :: "pollfd option list \<Rightarrow> nat \<Rightarrow> nat \<Rightarrow> pollfd option list prog" where
  "shift_down cells i 0 = ret cells"
| "shift_down cells i (Suc n) = bindp (read_cell cells i) (\<lambda>p.
     shift_down (cells[i - 1 := Some p]) (Suc i) n)"

text \<open>The tail of \<open>remove_fd\<close>: \<open>new_size\<close> is a \<open>uint32_t\<close>, and the comparison with the
  \<open>int\<close> length is unsigned.\<close>

definition shrink_fds :: "fd_buffer \<Rightarrow> fd_buffer prog" where
  "shrink_fds b =
     (let new_size = (b_size b * sizeof_pollfd) mod 2 ^ 32
      in if b_len b mod 2 ^ 32 > new_size div 2 \<and> new_size mod 2 = 0
         then bindp (sys (Realloc (b_ptr b) (new_size div 2))) (\<lambda>a.
           if a_ptr a = 0 then ret b
           else ret (b\<lparr>b_size := new_size div 2, b_ptr := a_ptr a,
                  b_cells := (let n = nat (new_size div 2 div sizeof_pollfd)
                    in take n (b_cells b) @ replicate (n - length (b_cells b)) None)\<rparr>))
         else ret b)"

definition remove_fd :: "int \<Rightarrow> fd_buffer \<Rightarrow> fd_buffer prog" where
  "remove_fd fd b = bindp (scan_back fd (b_cells b) (nat (b_len b))) (\<lambda>i.
     if i \<le> 0 then ret b
     else thenp (sys (Close fd))
       (bindp (shift_down (b_cells b) (Suc (nat i)) (nat (b_len b) - Suc (nat i))) (\<lambda>cells.
        shrink_fds (b\<lparr>b_cells := cells, b_len := b_len b - 1\<rparr>))))"

primrec read_entries :: "pollfd option list \<Rightarrow> nat \<Rightarrow> pollfd list prog" where
  "read_entries cells 0 = ret []"
| "read_entries cells (Suc n) = bindp (read_entries cells n) (\<lambda>es.
     bindp (read_cell cells n) (\<lambda>p. ret (es @ [p])))"

text \<open>\<open>poll\<close> reads the first \<open>len\<close> entries and, unless it fails, stores their \<open>revents\<close>.\<close>

definition with_revents :: "pollfd list \<Rightarrow> int list \<Rightarrow> pollfd list" where
  "with_revents es rs = map2 (\<lambda>p r. p\<lparr>p_revents := r\<rparr>) es rs"

definition mypoll :: "fd_buffer \<Rightarrow> (int \<times> fd_buffer) prog" where
  "mypoll b = bindp (read_entries (b_cells b) (nat (b_len b))) (\<lambda>es.
     bindp (sys (PollCall (map (\<lambda>p. (p_fd p, p_events p)) es) (- 1))) (\<lambda>a.
     ret (a_ret a, if a_ret a < 0 then b
       else b\<lparr>b_cells := map Some (with_revents es (a_flags a)) @ drop (length es) (b_cells b)\<rparr>)))"

text \<open>\<open>find_fd\<close> returns a pointer into the array: its index, or None for NULL.\<close>

primrec scan_fwd :: "int \<Rightarrow> pollfd option list \<Rightarrow> nat \<Rightarrow> nat \<Rightarrow> nat option prog" where
  "scan_fwd fd cells i 0 = ret None"
| "scan_fwd fd cells i (Suc n) = bindp (read_cell cells i) (\<lambda>p.
     if p_fd p = fd then ret (Some i) else scan_fwd fd cells (Suc i) n)"

definition find_fd :: "int \<Rightarrow> fd_buffer \<Rightarrow> nat option prog" where
  "find_fd fd b = scan_fwd fd (b_cells b) 0 (nat (b_len b))"

text \<open>
  \<open>delete_connection\<close> of \<open>server.h\<close>, which the server no longer calls: it closes the entry
  its third argument points at (given as the index in \<open>poll_buf\<close>) and moves the last entry
  into its place. The first entry is never deleted.
\<close>

definition delete_connection :: "int \<Rightarrow> pollfd list \<Rightarrow> nat \<Rightarrow> (int \<times> pollfd list) prog" where
  "delete_connection poll_buf_len poll_buf del =
     (if poll_buf_len = 0 then ret (poll_buf_len, poll_buf)
      else thenp (guardp Out_Of_Bounds (del < length poll_buf \<and> poll_buf_len \<le> int (length poll_buf)))
       (thenp (put_out (fmt [''Deleting connection '', dec (p_fd (poll_buf ! del)), '' ...'', [LF]]))
       (let i = (if int del < poll_buf_len then int del else - 1)
        in if i > 0
           then thenp (put_out (fmt [dec (p_fd (poll_buf ! nat i))]))
                (thenp (sys (Close (p_fd (poll_buf ! nat i))))
                (ret (poll_buf_len - 1,
                      poll_buf[nat i := poll_buf ! nat (poll_buf_len - 1)])))
           else ret (poll_buf_len, poll_buf))))"

section \<open>Representation\<close>

definition fd_rep :: "fd_buffer \<Rightarrow> pollfd list \<Rightarrow> bool" where
  "fd_rep b es \<longleftrightarrow> b_ptr b \<noteq> 0 \<and> b_len b = int (length es) \<and> int (length (b_cells b)) = b_size b
     \<and> b_len b < b_size b \<and> 16 \<le> b_size b \<and> take (length es) (b_cells b) = map Some es"

text \<open>While the array is below 256 million entries no size computation wraps.\<close>

definition fd_small :: "fd_buffer \<Rightarrow> bool" where
  "fd_small b \<longleftrightarrow> b_size b \<le> 2 ^ 28"

lemma read_cell_rep:
  assumes "take (length es) cells = map Some es" and "i < length es"
  shows "read_cell cells i = ret (es ! i)"
proof -
  have "length es \<le> length cells"
    using arg_cong [OF assms(1), of length] by simp
  moreover have "cells ! i = Some (es ! i)"
    using arg_cong [OF assms(1), of "\<lambda>xs. xs ! i"] assms(2) by simp
  ultimately show ?thesis using assms(2) by (simp add: read_cell_def getp_def)
qed

text \<open>What the backward scan computes.\<close>

primrec back_index :: "int \<Rightarrow> pollfd list \<Rightarrow> nat \<Rightarrow> int" where
  "back_index fd es 0 = - 1"
| "back_index fd es (Suc i) = (if fd = p_fd (es ! i) then int i else back_index fd es i)"

lemma scan_back_rep:
  "take (length es) cells = map Some es \<Longrightarrow> n \<le> length es \<Longrightarrow>
   scan_back fd cells n = ret (back_index fd es n)"
  by (induction n) (auto simp: read_cell_rep)

lemma back_index_le: "- 1 \<le> back_index fd es n \<and> back_index fd es n < int n"
  by (induction n) auto

lemma back_index_match: "0 \<le> back_index fd es n \<Longrightarrow> p_fd (es ! nat (back_index fd es n)) = fd"
  by (induction n) auto

lemma back_index_last:
  "back_index fd es n < int i \<Longrightarrow> i < n \<Longrightarrow> p_fd (es ! i) \<noteq> fd"
  by (induction n) (auto simp: less_Suc_eq split: if_splits)

lemma back_index_pos:
  "i < n \<Longrightarrow> 0 < i \<Longrightarrow> p_fd (es ! i) = fd \<Longrightarrow> 0 < back_index fd es n"
  using back_index_last [of fd es n i] by (metis linorder_neqE_linordered_idom not_less of_nat_0_less_iff order_less_le_trans)

lemma shift_down_rep:
  assumes "0 < i" and "i + n \<le> length cells" and "\<forall>j. i \<le> j \<and> j < i + n \<longrightarrow> cells ! j \<noteq> None"
  shows "shift_down cells i n = ret (take (i - 1) cells @ take n (drop i cells) @ drop (i - 1 + n) cells)"
  using assms
proof (induction n arbitrary: cells i)
  case 0
  then show ?case by simp
next
  case (Suc n)
  then obtain p where p: "cells ! i = Some p" by fastforce
  let ?cells = "cells[i - 1 := Some p]"
  have "i < length cells" using Suc.prems by simp
  then have "shift_down cells i (Suc n) = shift_down ?cells (Suc i) n"
    using p by (simp add: read_cell_def getp_def)
  also have "\<dots> = ret (take i ?cells @ take n (drop (Suc i) ?cells) @ drop (i + n) ?cells)"
    using Suc.prems by (subst Suc.IH) (auto simp: nth_list_update)
  also have "take i ?cells @ take n (drop (Suc i) ?cells) @ drop (i + n) ?cells =
      take (i - 1) cells @ take (Suc n) (drop i cells) @ drop (i - 1 + Suc n) cells"
  proof -
    have "take i ?cells = take (i - 1) cells @ [Some p]"
      using Suc.prems by (cases i) (auto simp: take_Suc_conv_app_nth)
    moreover have "take (Suc n) (drop i cells) = Some p # take n (drop (Suc i) cells)"
      using Suc.prems p by (simp add: Cons_nth_drop_Suc [symmetric])
    ultimately show ?thesis using Suc.prems by simp
  qed
  finally show ?case .
qed

lemma read_entries_rep:
  "take (length es) cells = map Some es \<Longrightarrow> n \<le> length es \<Longrightarrow>
   read_entries cells n = ret (take n es)"
  by (induction n) (auto simp: read_cell_rep take_Suc_conv_app_nth)

lemma scan_fwd_rep:
  "take (length es) cells = map Some es \<Longrightarrow> i + n = length es \<Longrightarrow>
   scan_fwd fd cells i n =
     ret (map_option ((+) i) (first_index (\<lambda>p. p_fd p = fd) (drop i es)))"
proof (induction n arbitrary: i)
  case 0
  then show ?case by simp
next
  case (Suc n)
  then have "drop i es = es ! i # drop (Suc i) es"
    by (simp add: Cons_nth_drop_Suc)
  with Suc show ?case
    by (auto simp: read_cell_rep option.map_comp intro!: arg_cong [where f = ret] option.map_cong)
qed

section \<open>Specification of the operations\<close>

lemma fd_rep_len: "fd_rep b es \<Longrightarrow> nat (b_len b) = length es"
  by (simp add: fd_rep_def)

lemma wp_init_fds_queue:
  assumes "b_ptr b = 0" and "lawful os" and "memory_ok os"
    and "\<And>a b'. a_ptr a \<noteq> 0 \<Longrightarrow> Block (a_ptr a) \<notin> live h \<Longrightarrow> fd_rep b' [] \<Longrightarrow> b_ptr b' = a_ptr a \<Longrightarrow>
      b_size b' = 16 \<Longrightarrow> Q (0, b') ((Malloc 128, a) # h)"
  shows "wp (init_fds_queue b) Q E os h"
proof -
  have "Q (0, \<lparr>b_size = 16, b_len = 0, b_ptr = a_ptr a, b_cells = replicate 16 None\<rparr>) ((Malloc 128, a) # h)"
    if a: "answers os h (Malloc 128) a" for a
  proof -
    from a assms(3) have "a_ptr a \<noteq> 0" by (auto simp: memory_ok_def answers_def)
    with a assms(2) show ?thesis
      by (intro assms(4)) (auto simp: fd_rep_def fresh_block)
  qed
  moreover have "a_ptr a \<noteq> 0" if "answers os h (Malloc 128) a" for a
    using that assms(3) by (auto simp: memory_ok_def answers_def)
  ultimately show ?thesis
    using assms(1) by (simp add: init_fds_queue_def wp_simps Let_def)
qed

lemma append_fd_rep:
  assumes "b_ptr b \<noteq> 0" and "b_len b = int (length es)" and "length es < length (b_cells b)"
  shows "append_fd p b = ret (0, b\<lparr>b_cells := (b_cells b)[length es := Some p], b_len := b_len b + 1\<rparr>)"
  using assms by (simp add: append_fd_def guardp_def)

lemma take_append_cell:
  assumes "take (length es) cells = map Some es" and "length es < length cells"
  shows "take (Suc (length es)) (cells[length es := Some p]) = map Some (es @ [p])"
  using assms by (simp add: take_Suc_conv_app_nth)

text \<open>Appending an entry; the array grows, and moves, when one free cell is left.\<close>

lemma wp_insert_fd:
  assumes rep: "fd_rep b es" and small: "fd_small b" and mem: "memory_ok os"
    and stay: "\<And>b'. fd_rep b' (es @ [p]) \<Longrightarrow> b_ptr b' = b_ptr b \<Longrightarrow> b_size b' = b_size b \<Longrightarrow> Q (0, b') h"
    and grow: "\<And>a b' n. answers os h (Realloc (b_ptr b) n) a \<Longrightarrow> a_ptr a \<noteq> 0 \<Longrightarrow>
      fd_rep b' (es @ [p]) \<Longrightarrow> b_ptr b' = a_ptr a \<Longrightarrow> b_size b' = 2 * b_size b \<Longrightarrow>
      b_size b = int (length es) + 1 \<Longrightarrow> Q (0, b') ((Realloc (b_ptr b) n, a) # h)"
  shows "wp (insert_fd p b) Q E os h"
proof (cases "b_len b = b_size b - 1")
  case True
  let ?cells = "b_cells b @ replicate (nat (b_size b * 2) - length (b_cells b)) None"
  let ?g = "\<lambda>a. b\<lparr>b_size := b_size b * 2, b_ptr := a_ptr a,
      b_cells := ?cells[length es := Some p], b_len := b_len b + 1\<rparr>"
  have lens: "b_len b = int (length es)" "length es < length ?cells" "b_size b * 2 \<le> INT_MAX"
    using rep small by (auto simp: fd_rep_def fd_small_def)
  have app: "append_fd p (b\<lparr>b_size := b_size b * 2, b_ptr := a_ptr a, b_cells := ?cells\<rparr>) = ret (0, ?g a)"
    if "a_ptr a \<noteq> 0" for a
    using that lens by (subst append_fd_rep [of _ es]) auto
  have "insert_fd p b = bindp (sys (Realloc (b_ptr b) (b_size b * 2 * 8)))
      (\<lambda>a. if a_ptr a = 0 then ret (ENOMEM, b)
        else append_fd p (b\<lparr>b_size := b_size b * 2, b_ptr := a_ptr a, b_cells := ?cells\<rparr>))"
    using True lens(3) by (simp add: insert_fd_def guardp_def)
  also have "\<dots> = bindp (sys (Realloc (b_ptr b) (b_size b * 2 * 8)))
      (\<lambda>a. if a_ptr a = 0 then ret (ENOMEM, b) else ret (0, ?g a))"
    by (rule arg_cong2 [where f = bindp, OF refl], rule ext, rule if_cong [OF refl refl], erule app)
  finally have eq: "insert_fd p b = bindp (sys (Realloc (b_ptr b) (b_size b * 2 * 8)))
      (\<lambda>a. if a_ptr a = 0 then ret (ENOMEM, b) else ret (0, ?g a))" .
  have "a_ptr a \<noteq> 0 \<and> Q (0, ?g a) ((Realloc (b_ptr b) (b_size b * 2 * 8), a) # h)"
    if a: "answers os h (Realloc (b_ptr b) (b_size b * 2 * 8)) a" for a
  proof -
    have p: "a_ptr a \<noteq> 0" using a mem by (auto simp: memory_ok_def answers_def)
    have "take (Suc (length es)) (?cells[length es := Some p]) = map Some (es @ [p])"
      using rep lens by (intro take_append_cell) (auto simp: fd_rep_def)
    with p rep True have "fd_rep (?g a) (es @ [p])" by (auto simp: fd_rep_def)
    from grow [OF a p this] p True lens show ?thesis by simp
  qed
  then show ?thesis unfolding eq by (simp add: wp_simps)
next
  case False
  have "fd_rep (b\<lparr>b_cells := (b_cells b)[length es := Some p], b_len := b_len b + 1\<rparr>) (es @ [p])"
    using rep False take_append_cell [of es "b_cells b" p] by (auto simp: fd_rep_def)
  with stay have "Q (0, b\<lparr>b_cells := (b_cells b)[length es := Some p], b_len := b_len b + 1\<rparr>) h"
    by simp
  with False rep show ?thesis
    by (simp add: insert_fd_def append_fd_rep [of b es p] fd_rep_def wp_simps)
qed

text \<open>The shrinking branch of \<open>remove_fd\<close> is dead: it compares the number of entries with
  half the size in bytes, and there are always fewer entries than cells.\<close>

lemma shrink_fds_dead:
  assumes "0 \<le> b_len b" and "b_len b < b_size b" and "fd_small b"
  shows "shrink_fds b = ret b"
proof -
  have "b_len b mod 2 ^ 32 = b_len b" "(b_size b * 8) mod 2 ^ 32 = b_size b * 8"
    using assms by (auto simp: fd_small_def)
  then show ?thesis using assms by (simp add: shrink_fds_def Let_def)
qed

lemma wp_remove_fd:
  assumes rep: "fd_rep b es" and small: "fd_small b"
    and none: "back_index fd es (length es) \<le> 0 \<Longrightarrow> Q b h"
    and some: "\<And>i a b'. back_index fd es (length es) = int i \<Longrightarrow> 0 < i \<Longrightarrow> i < length es \<Longrightarrow>
      p_fd (es ! i) = fd \<Longrightarrow> answers os h (Close fd) a \<Longrightarrow> fd_rep b' (delete_at i es) \<Longrightarrow>
      b_ptr b' = b_ptr b \<Longrightarrow> b_size b' = b_size b \<Longrightarrow> Q b' ((Close fd, a) # h)"
  shows "wp (remove_fd fd b) Q E os h"
proof -
  from rep have len: "nat (b_len b) = length es" and tk: "take (length es) (b_cells b) = map Some es"
    by (simp_all add: fd_rep_def)
  have scan: "scan_back fd (b_cells b) (nat (b_len b)) = ret (back_index fd es (length es))"
    using scan_back_rep [OF tk] len by simp
  show ?thesis
  proof (cases "back_index fd es (length es) \<le> 0")
    case True
    with none scan show ?thesis by (simp add: remove_fd_def wp_simps)
  next
    case False
    then obtain i where i: "back_index fd es (length es) = int i" "0 < i"
      by (metis nat_eq_iff2 not_le of_nat_0_less_iff zero_less_imp_eq_int)
    with back_index_le [of fd es "length es"] have il: "i < length es" by simp
    have m: "p_fd (es ! i) = fd"
      using back_index_match [of fd es "length es"] i by simp
    have cl: "length es \<le> length (b_cells b)"
      using arg_cong [OF tk, of length] by simp
    have cell: "b_cells b ! j = Some (es ! j)" if "j < length es" for j
      using arg_cong [OF tk, of "\<lambda>xs. xs ! j"] that by simp
    let ?cells = "take i (b_cells b) @ take (length es - Suc i) (drop (Suc i) (b_cells b))
        @ drop (length es - 1) (b_cells b)"
    have shift: "shift_down (b_cells b) (Suc i) (length es - Suc i) = ret ?cells"
      using il cl cell by (subst shift_down_rep) auto
    let ?b = "b\<lparr>b_cells := ?cells, b_len := b_len b - 1\<rparr>"
    have shrink: "shrink_fds ?b = ret ?b"
      using rep small il by (intro shrink_fds_dead) (auto simp: fd_rep_def fd_small_def)
    have rep': "fd_rep ?b (delete_at i es)"
    proof -
      have "take i (b_cells b) = map Some (take i es)"
        using arg_cong [OF tk, of "take i"] il by (simp add: take_map min_def)
      moreover have "take (length es - Suc i) (drop (Suc i) (b_cells b)) = map Some (drop (Suc i) es)"
        using arg_cong [OF tk, of "drop (Suc i)"] by (simp add: drop_map drop_take)
      ultimately show ?thesis
        using rep il by (auto simp: fd_rep_def delete_at_def)
    qed
    show ?thesis
      using False i il m len scan shift shrink some [OF i il m _ rep']
      by (simp add: remove_fd_def wp_simps)
  qed
qed

text \<open>\<open>poll\<close> leaves the entries in place and replaces their \<open>revents\<close>.\<close>

lemma with_revents_fd: "length rs = length es \<Longrightarrow> map p_fd (with_revents es rs) = map p_fd es"
  by (induction es rs rule: list_induct2') (auto simp: with_revents_def)

lemma length_with_revents [simp]: "length rs = length es \<Longrightarrow> length (with_revents es rs) = length es"
  by (simp add: with_revents_def)

lemma wp_mypoll:
  assumes rep: "fd_rep b es" and law: "lawful os"
    and fail: "\<And>a. answers os h (PollCall (map (\<lambda>p. (p_fd p, p_events p)) es) (- 1)) a \<Longrightarrow>
      a_ret a < 0 \<Longrightarrow> Q (a_ret a, b) ((PollCall (map (\<lambda>p. (p_fd p, p_events p)) es) (- 1), a) # h)"
    and ok: "\<And>a b' es'. answers os h (PollCall (map (\<lambda>p. (p_fd p, p_events p)) es) (- 1)) a \<Longrightarrow>
      0 \<le> a_ret a \<Longrightarrow> es' = with_revents es (a_flags a) \<Longrightarrow> map p_fd es' = map p_fd es \<Longrightarrow> fd_rep b' es' \<Longrightarrow>
      b_ptr b' = b_ptr b \<Longrightarrow> b_size b' = b_size b \<Longrightarrow>
      Q (a_ret a, b') ((PollCall (map (\<lambda>p. (p_fd p, p_events p)) es) (- 1), a) # h)"
  shows "wp (mypoll b) Q E os h"
proof -
  from rep have len: "nat (b_len b) = length es" and tk: "take (length es) (b_cells b) = map Some es"
    by (simp_all add: fd_rep_def)
  let ?c = "PollCall (map (\<lambda>p. (p_fd p, p_events p)) es) (- 1)"
  have "Q (a_ret a, b\<lparr>b_cells := map Some (with_revents es (a_flags a)) @ drop (length es) (b_cells b)\<rparr>) ((?c, a) # h)"
    if a: "answers os h ?c a" and r: "0 \<le> a_ret a" for a
  proof -
    from poll_law [OF law a r] have l: "length (a_flags a) = length es" by simp
    show ?thesis
      using rep l by (intro ok [OF a r refl]) (auto simp: with_revents_fd fd_rep_def)
  qed
  with fail show ?thesis
    using read_entries_rep [OF tk, of "length es"] len by (auto simp: mypoll_def wp_simps)
qed

lemma find_fd_rep:
  assumes "fd_rep b es"
  shows "find_fd fd b = ret (first_index (\<lambda>p. p_fd p = fd) es)"
  using assms scan_fwd_rep [of es "b_cells b" 0 "length es" fd]
  by (cases "first_index (\<lambda>p. p_fd p = fd) es") (simp_all add: find_fd_def fd_rep_def)

lemma fd_rep_unique: "fd_rep b es \<Longrightarrow> fd_rep b es' \<Longrightarrow> es' = es"
  using map_injective [of Some es' es] by (simp add: fd_rep_def inj_def)

lemma grows_read_cell: "grows (read_cell cells i)"
  unfolding read_cell_def by (intro grows_intros)

lemma grows_remove_fd: "grows (remove_fd fd b)"
proof -
  have scan: "grows (scan_back fd cells n)" for cells n
    by (induction n) (auto intro!: grows_intros grows_read_cell)
  have shift: "grows (shift_down cells i n)" for cells i n
    by (induction n arbitrary: cells i) (auto intro!: grows_intros grows_read_cell)
  show ?thesis
    unfolding remove_fd_def shrink_fds_def by (intro grows_intros scan shift)
qed

section \<open>The table as a provider of the interface\<close>

definition fd_own :: "fd_buffer \<Rightarrow> res set" where
  "fd_own b = {Block (b_ptr b)}"

lemma fd_ins_law:
  assumes "fd_rep b es" and "b_size b \<le> 2 ^ 28" and "fd_own b \<subseteq> live h" and "disciplined h"
    and "lawful os" and "memory_ok os"
  shows "wp (insert_fd p b) (\<lambda>(e, b') h'. e = 0 \<and> fd_rep b' (es @ [p]) \<and> fd_own b' \<subseteq> live h' \<and>
      live h' - fd_own b' = live h - fd_own b \<and> disciplined h' \<and>
      b_size b' \<le> max (b_size b) (2 * int (length es) + 2)) E os h"
proof -
  have ptr: "b_ptr b \<noteq> 0" using assms(1) by (simp add: fd_rep_def)
  have fresh: "Block (a_ptr a) \<notin> live h - {Block (b_ptr b)}"
    if "answers os h (Realloc (b_ptr b) n) a" "a_ptr a \<noteq> 0" for a n
    using lawfulD [OF assms(5) that(1)] that(2) ptr
    by (auto simp: answer_ok_def acquires_def releases_def)
  show ?thesis
    by (rule wp_insert_fd [OF assms(1) _ assms(6)])
      (use assms ptr fresh in \<open>auto simp: fd_own_def fd_small_def res_simps\<close>)
qed

lemma fd_del_law:
  assumes "fd_rep b es" and "b_size b \<le> 2 ^ 28" and "fd_own b \<subseteq> live h" and "disciplined h"
    and "fd_res f \<inter> fd_own b = {}" and "fd_res f \<subseteq> live h" and "p_fd (hd es) \<noteq> f" and "f \<in># fds_of es"
  shows "wp (remove_fd f b) (\<lambda>b' h'. (\<exists>i. 0 < i \<and> i < length es \<and> p_fd (es ! i) = f \<and> fd_rep b' (delete_at i es)) \<and>
      fd_own b' = fd_own b \<and> live h' = live h - fd_res f \<and> disciplined h' \<and> b_size b' = b_size b) E os h"
proof (rule wp_remove_fd [OF assms(1)])
  show "fd_small b" using assms(2) by (simp add: fd_small_def)
  from assms(8) obtain j where j: "j < length es" "p_fd (es ! j) = f"
    by (auto simp: fds_of_mem in_set_conv_nth)
  with assms(7) have "0 < j" by (cases j; cases es) auto
  from back_index_pos [OF j(1) this j(2)] have "0 < back_index f es (length es)" .
  moreover assume "back_index f es (length es) \<le> 0"
  ultimately show "(\<exists>i. 0 < i \<and> i < length es \<and> p_fd (es ! i) = f \<and> fd_rep b (delete_at i es)) \<and>
      fd_own b = fd_own b \<and> live h = live h - fd_res f \<and> disciplined h \<and> b_size b = b_size b"
    by simp
qed (use assms in \<open>auto simp: fd_own_def res_simps\<close>)

interpretation fdt: fd_table fd_rep b_size fd_own insert_fd remove_fd find_fd
  by unfold_locales (auto intro!: fd_ins_law fd_del_law find_fd_rep)

section \<open>Properties\<close>

text \<open>A table with a listening socket and a client.\<close>

definition demo_fds :: "pollfd list" where
  "demo_fds = [\<lparr>p_fd = 3, p_events = POLLIN, p_revents = 0\<rparr>, \<lparr>p_fd = 6, p_events = POLLIN, p_revents = 1\<rparr>]"

definition demo_buf :: fd_buffer where
  "demo_buf = \<lparr>b_size = 16, b_len = 2, b_ptr = 5, b_cells = map Some demo_fds @ replicate 14 None\<rparr>"

definition demo_log :: log where
  "demo_log = [(Accept 3, plain 6), (Malloc 128, (plain 0)\<lparr>a_ptr := 5\<rparr>), (Socket 2 1 0, plain 3)]"

lemma demo_rep: "fd_rep demo_buf demo_fds"
  by (simp add: fd_rep_def demo_buf_def demo_fds_def)

text \<open>
  C20: \<open>remove_fd\<close> implements deletion from the list of entries: it closes the descriptor once
  and deletes its last occurrence, keeping the order of the others, unless that is entry 0 (the
  listening socket) or there is none, when it does nothing. The size of the array never
  changes.
\<close>

theorem remove_fd_spec:
  assumes "fd_rep b es" and "b_size b \<le> 2 ^ 28"
  shows "if back_index fd es (length es) \<le> 0 then remove_fd fd b os h = (Done b, h)
    else \<exists>b'. remove_fd fd b os h = (Done b', (Close fd, os h (Close fd)) # h) \<and>
      fd_rep b' (delete_at (nat (back_index fd es (length es))) es) \<and>
      b_size b' = b_size b \<and> b_ptr b' = b_ptr b"
proof -
  have "wp (remove_fd fd b) (\<lambda>b' h'. if back_index fd es (length es) \<le> 0 then b' = b \<and> h' = h
      else h' = (Close fd, os h (Close fd)) # h \<and>
        fd_rep b' (delete_at (nat (back_index fd es (length es))) es) \<and>
        b_size b' = b_size b \<and> b_ptr b' = b_ptr b) (\<lambda>_ _. False) os h"
    by (rule wp_remove_fd [OF assms(1)]) (use assms(2) in \<open>auto simp: fd_small_def answers_def\<close>)
  then show ?thesis
    by (cases "remove_fd fd b os h"; cases "fst (remove_fd fd b os h)") (auto simp: wp_def)
qed

theorem remove_fd_spec_witness:
  "\<exists>b'. remove_fd 6 demo_buf (sim_os []) demo_log = (Done b', (Close 6, plain 0) # demo_log) \<and>
    fd_rep b' [\<lparr>p_fd = 3, p_events = POLLIN, p_revents = 0\<rparr>]"
  using remove_fd_spec [OF demo_rep, of 6 "sim_os []" demo_log]
  by (auto simp: demo_fds_def demo_buf_def delete_at_def sim_os_def)

text \<open>
  Registering a descriptor that is not in the table and dropping it again is the identity
  on the table, even if the array had to grow: the same entries in the same order, nothing
  live has changed but the descriptor, which is closed and found no more.
\<close>

theorem insert_remove_roundtrip:
  assumes "fd_rep b es" and "b_size b \<le> 2 ^ 27" and "int (length es) \<le> 2 ^ 26" and "Block (b_ptr b) \<in> live h"
    and "disciplined h" and "lawful os" and "memory_ok os"
    and "es \<noteq> []" and "p_fd p \<notin># fds_of es" and "0 \<le> p_fd p" and "Fd (p_fd p) \<in> live h"
  shows "wp (bindp (insert_fd p b) (\<lambda>(e, b1). bindp (remove_fd (p_fd p) b1) (\<lambda>b2.
        bindp (find_fd (p_fd p) b2) (\<lambda>i. ret (e, i, b2)))))
      (\<lambda>(e, i, b2) h2. e = 0 \<and> i = None \<and> fd_rep b2 es \<and>
        live h2 - {Block (b_ptr b2)} = live h - {Block (b_ptr b)} - {Fd (p_fd p)} \<and> disciplined h2) E os h"
proof -
  note r = fdt.register_drop [OF assms(1-3) _ assms(5-9), unfolded fd_own_def]
  show ?thesis by (rule wp_mono [OF r]) (use assms(4,10,11) in auto)
qed

theorem insert_remove_roundtrip_witness:
  "wp (bindp (insert_fd \<lparr>p_fd = 7, p_events = 1, p_revents = 0\<rparr> demo_buf) (\<lambda>(e, b1). bindp (remove_fd 7 b1) (\<lambda>b2.
        bindp (find_fd 7 b2) (\<lambda>i. ret (e, i, b2)))))
      (\<lambda>(e, i, b2) h2. e = 0 \<and> i = None \<and> fd_rep b2 demo_fds \<and>
        live h2 - {Block (b_ptr b2)} = live ((TimerfdCreate 0 2048, plain 7) # demo_log) - {Block 5} - {Fd 7} \<and>
        disciplined h2) (\<lambda>_ _. False)
      (sim_os []) ((TimerfdCreate 0 2048, plain 7) # demo_log)"
  using insert_remove_roundtrip [OF demo_rep, of "(TimerfdCreate 0 2048, plain 7) # demo_log" "sim_os []"
      "\<lparr>p_fd = 7, p_events = 1, p_revents = 0\<rparr>" "\<lambda>_ _. False"]
  by (simp add: lawful_sim_os memory_ok_sim_os demo_fds_def demo_buf_def demo_log_def res_simps)

text \<open>
  The branch of \<open>remove_fd\<close> that is meant to shrink the array never runs: it compares the
  number of entries with half the size of the array in bytes.
\<close>

theorem shrink_never_happens:
  assumes "fd_rep b es" and "b_size b \<le> 2 ^ 28"
  shows "shrink_fds b = ret b"
  using assms by (intro shrink_fds_dead) (auto simp: fd_rep_def fd_small_def)

theorem shrink_never_happens_witness:
  "shrink_fds demo_buf = ret demo_buf"
  by (rule shrink_never_happens [OF demo_rep]) (simp add: demo_buf_def)

end
