(* ===== verification/Server_Conn.thy ===== *)
theory Server_Conn
  imports Posix
begin

text \<open>
  The connection list of the non-blocking server
  (\<open>my_code/simple_non_blocking_tcp_server_client/server_conn.h\<close>) and the socket and timer
  helpers of \<open>server.h\<close> in the same directory.

  A \<open>STAILQ\<close> of \<open>sys/queue.h\<close> is the list of its elements in order, each with the address
  \<open>malloc\<close> gave it; \<open>STAILQ_REMOVE\<close> looks an element up by address, and dereferences NULL
  when the list does not hold it.
\<close>

section \<open>The connection list\<close>

record connection =
  conn_fd :: int
  timer_fd :: int

type_synonym conns = "(int \<times> connection) list"

abbreviation (input) sizeof_Connection :: int where "sizeof_Connection \<equiv> 16"

definition init_cons_queue :: conns where
  "init_cons_queue = []"

definition insert_connection :: "connection \<Rightarrow> conns \<Rightarrow> (int \<times> conns) prog" where
  "insert_connection conn q = bindp (sys (Malloc sizeof_Connection)) (\<lambda>a.
     if a_ptr a = 0 then ret (ENOMEM, q)
     else ret (0, q @ [(a_ptr a, conn)]))"

definition stailq_remove :: "int \<Rightarrow> conns \<Rightarrow> conns prog" where
  "stailq_remove p q =
     (if p \<in> fst ` set q then ret (filter (\<lambda>e. fst e \<noteq> p) q) else halt (Fault Null_Deref))"

definition remove_connection :: "int \<Rightarrow> conns \<Rightarrow> conns prog" where
  "remove_connection p q = bindp (stailq_remove p q) (\<lambda>q'.
     thenp (sys (Free p)) (ret q'))"

lemma wp_stailq_remove [wp_simps]:
  "wp (stailq_remove p q) Q E os h =
     (if p \<in> fst ` set q then Q (filter (\<lambda>e. fst e \<noteq> p) q) h else E (Fault Null_Deref) h)"
  by (simp add: stailq_remove_def wp_ret wp_halt)

lemma grows_remove_connection: "grows (remove_connection p q)"
  unfolding remove_connection_def stailq_remove_def by (intro grows_intros)

lemma wp_insert_connection:
  assumes "lawful os" and "memory_ok os"
    and "\<And>a. a_ptr a \<noteq> 0 \<Longrightarrow> Block (a_ptr a) \<notin> live h \<Longrightarrow>
      Q (0, q @ [(a_ptr a, conn)]) ((Malloc 16, a) # h)"
  shows "wp (insert_connection conn q) Q E os h"
proof -
  have "a_ptr a \<noteq> 0 \<and> Block (a_ptr a) \<notin> live h" if "answers os h (Malloc 16) a" for a
    using that assms(1,2) fresh_block [OF assms(1) that] by (auto simp: memory_ok_def answers_def)
  with assms(3) show ?thesis by (auto simp: insert_connection_def wp_simps)
qed

section \<open>Sockets and timers\<close>

abbreviation (input) LISTEN_BACKLOG :: int where "LISTEN_BACKLOG \<equiv> 50"
abbreviation (input) TIMEOUT :: int where "TIMEOUT \<equiv> 3"

unbundle bit_operations_syntax

definition set_non_blocking :: "int \<Rightarrow> int prog" where
  "set_non_blocking socket = bindp (sys (Fcntl socket F_GETFL 0)) (\<lambda>flags.
     if a_ret flags = - 1 then ret (a_errno flags)
     else bindp (sys (Fcntl socket F_SETFL (a_ret flags OR O_NONBLOCK))) (\<lambda>a.
     if a_ret a = - 1 then ret (a_errno a) else ret 0))"

text \<open>The address bytes of \<open>inet_pton(AF_INET, addr, ...)\<close> are left as the text: the port is
  what the code computes.\<close>

definition ipv4_addr :: "bytes \<Rightarrow> int \<Rightarrow> sockaddr" where
  "ipv4_addr addr port =
     \<lparr>sa_family = AF_INET, sin_port = htons (word_of_int port), sin_addr = addr\<rparr>"

abbreviation (input) sizeof_sockaddr_in :: int where "sizeof_sockaddr_in \<equiv> 16"

text \<open>On success the second component is what the function stores through \<open>socket_fd\<close>.\<close>

definition listen_on_ipv4_tcp_socket :: "bytes \<Rightarrow> int \<Rightarrow> (int \<times> int option) prog" where
  "listen_on_ipv4_tcp_socket addr port = bindp (sys (Socket AF_INET SOCK_STREAM 0)) (\<lambda>s.
     if a_ret s = - 1 then ret (a_errno s, None)
     else bindp (sys (SetSockOpt (a_ret s) SOL_SOCKET SO_REUSEADDR)) (\<lambda>o1.
     if a_ret o1 = - 1 then ret (a_errno o1, None)
     else bindp (sys (Bind (a_ret s) (ipv4_addr addr port) sizeof_sockaddr_in)) (\<lambda>b.
     if a_ret b = - 1 then ret (a_errno b, None)
     else bindp (sys (Listen (a_ret s) LISTEN_BACKLOG)) (\<lambda>l.
     if a_ret l = - 1 then ret (a_errno l, None)
     else ret (0, Some (a_ret s))))))"

text \<open>\<open>recv_non_block\<close> returns the count, or \<open>-errno\<close>, and the buffer it filled.\<close>

definition recv_non_block :: "nat \<Rightarrow> int \<Rightarrow> (int \<times> bytes) prog" where
  "recv_non_block buf_len socket_fd = bindp (sys (Recv socket_fd (int buf_len - 1) 0)) (\<lambda>a.
     let buf = overlay (zeros buf_len) 0 (a_buf a) in
     if a_ret a < 0 then ret (- a_errno a, zeros buf_len)
     else if a_ret a > 0 then bindp (c_string buf) (\<lambda>s.
       thenp (put_out (fmt [''Read '', dec (a_ret a), '' bytes from '', dec socket_fd, '': '', s, [LF]]))
       (ret (a_ret a, buf)))
     else ret (a_ret a, buf))"

definition send_non_block :: "int \<Rightarrow> int prog" where
  "send_non_block socket_fd = bindp (sys (Send socket_fd ''pong'' 0)) (\<lambda>a.
     if a_ret a < 0 then ret (- a_errno a)
     else if a_ret a > 0 then
       thenp (put_out (fmt [''Write '', dec 4, '' bytes from '', dec socket_fd, '': pong'', [LF]]))
       (ret (a_ret a))
     else ret (a_ret a))"

definition create_non_blocking_timer :: "int prog" where
  "create_non_blocking_timer = bindp (sys (TimerfdCreate CLOCK_REALTIME TFD_NONBLOCK)) (\<lambda>t.
     bindp (sys (TimerfdSettime (a_ret t) TIMEOUT)) (\<lambda>a.
     if a_ret a \<noteq> 0 then ret (- a_errno a) else ret (a_ret t)))"

definition refresh_timer :: "int \<Rightarrow> int prog" where
  "refresh_timer sockfd = bindp (sys (TimerfdSettime sockfd TIMEOUT)) (\<lambda>a.
     if a_ret a \<noteq> 0 then ret (- a_errno a) else ret 0)"

section \<open>Facts about the helpers\<close>

text \<open>A read keeps room for the terminating NUL, so the buffer is always a string.\<close>

lemma wp_recv_non_block:
  assumes law: "lawful os" and len: "0 < n"
    and fail: "\<And>a. answers os h (Recv f (int n - 1) 0) a \<Longrightarrow> a_ret a < 0 \<Longrightarrow> 0 < a_errno a \<Longrightarrow>
      Q (- a_errno a, zeros n) ((Recv f (int n - 1) 0, a) # h)"
    and eof: "\<And>a. answers os h (Recv f (int n - 1) 0) a \<Longrightarrow> a_ret a = 0 \<Longrightarrow>
      Q (0, zeros n) ((Recv f (int n - 1) 0, a) # h)"
    and data: "\<And>a b w. answers os h (Recv f (int n - 1) 0) a \<Longrightarrow> 0 < a_ret a \<Longrightarrow>
      b = overlay (zeros n) 0 (a_buf a) \<Longrightarrow> terminated b \<Longrightarrow> cstr b = cstr (a_buf a) \<Longrightarrow>
      Q (a_ret a, b) ((Out (fmt [''Read '', dec (a_ret a), '' bytes from '', dec f, '': '', cstr (a_buf a), [LF]]), w)
        # (Recv f (int n - 1) 0, a) # h)"
  shows "wp (recv_non_block n f) Q E os h"
proof -
  have law': "a_ret a \<le> int n - 1 \<and> (0 \<le> a_ret a \<longrightarrow> length (a_buf a) = nat (a_ret a)) \<and> (a_ret a < 0 \<longrightarrow> 0 < a_errno a)"
    if "answers os h (Recv f (int n - 1) 0) a" for a
    using recv_law [OF law that] len by simp
  have "terminated (overlay (zeros n) 0 (a_buf a)) \<and> cstr (overlay (zeros n) 0 (a_buf a)) = cstr (a_buf a)"
    if "answers os h (Recv f (int n - 1) 0) a" "0 < a_ret a" for a
  proof -
    from law' [OF that(1)] that(2) have "length (a_buf a) < n" by auto
    then show ?thesis by (simp add: cstr_received)
  qed
  moreover have "overlay (zeros n) 0 (a_buf a) = zeros n"
    if "answers os h (Recv f (int n - 1) 0) a" "a_ret a = 0" for a
    using law' [OF that(1)] that(2) by (simp add: overlay_def)
  ultimately show ?thesis
    using fail eof data law' by (auto simp: recv_non_block_def Let_def wp_simps not_less)
qed

lemma wp_send_non_block:
  assumes law: "lawful os"
    and "\<And>a. answers os h (Send f ''pong'' 0) a \<Longrightarrow> a_ret a < 0 \<Longrightarrow> 0 < a_errno a \<Longrightarrow>
      Q (- a_errno a) ((Send f ''pong'' 0, a) # h)"
    and "\<And>a. answers os h (Send f ''pong'' 0) a \<Longrightarrow> a_ret a = 0 \<Longrightarrow> Q 0 ((Send f ''pong'' 0, a) # h)"
    and "\<And>a w. answers os h (Send f ''pong'' 0) a \<Longrightarrow> 0 < a_ret a \<Longrightarrow> a_ret a \<le> 4 \<Longrightarrow>
      Q (a_ret a) ((Out (fmt [''Write '', dec 4, '' bytes from '', dec f, '': pong'', [LF]]), w) # (Send f ''pong'' 0, a) # h)"
  shows "wp (send_non_block f) Q E os h"
proof -
  have "a_ret a \<le> 4 \<and> (a_ret a < 0 \<longrightarrow> 0 < a_errno a)" if "answers os h (Send f ''pong'' 0) a" for a
    using send_law [OF law that] by simp
  with assms show ?thesis by (auto simp: send_non_block_def wp_simps not_less)
qed

end
