(* ===== verification/Timeout_Server.thy ===== *)
theory Timeout_Server
  imports Server_Fd Server_Conn
begin

text \<open>
  The event loop of the non-blocking server with inactivity timers
  (\<open>my_code/simple_non_blocking_tcp_server_client/server.c\<close>, \<open>main\<close>): one process, the
  listening socket in entry 0 of the polled descriptors, and per connection a socket and a
  timer, both registered in the descriptor table and both recorded in the connection list.

  \<open>srv_inv\<close> relates the two structures to each other and to the resources that are live.
  The descriptor table is used only through its interface (\<open>fdt\<close>).
\<close>

section \<open>The event loop\<close>

unbundle bit_operations_syntax

text \<open>\<open>revents & (POLLHUP | POLLIN | POLLERR)\<close>\<close>

definition woken :: "int \<Rightarrow> bool" where
  "woken revents \<longleftrightarrow> revents AND (POLLHUP OR POLLIN OR POLLERR) \<noteq> 0"

text \<open>Both entries of a new connection; the second result is not looked at, the assertion
  repeats the check of the first.\<close>

definition register_fds :: "int \<Rightarrow> int \<Rightarrow> fd_buffer \<Rightarrow> fd_buffer prog" where
  "register_fds sock_client fd_timer b =
     bindp (insert_fd \<lparr>p_fd = sock_client, p_events = POLLIN, p_revents = 0\<rparr> b) (\<lambda>(err, b1).
     thenp (assertp (err = 0))
     (bindp (insert_fd \<lparr>p_fd = fd_timer, p_events = POLLIN, p_revents = 0\<rparr> b1) (\<lambda>(err', b2).
     thenp (assertp (err = 0)) (ret b2))))"

definition accept_connection :: "fd_buffer \<Rightarrow> conns \<Rightarrow> (fd_buffer \<times> conns) prog" where
  "accept_connection b q =
     thenp (put_out (fmt [''Creating new connection...'', [LF]]))
     (bindp (read_cell (b_cells b) 0) (\<lambda>p0.
      bindp (sys (Accept (p_fd p0))) (\<lambda>sock_client.
      bindp create_non_blocking_timer (\<lambda>fd_timer.
      bindp (register_fds (a_ret sock_client) fd_timer b) (\<lambda>b'.
      bindp (insert_connection \<lparr>conn_fd = a_ret sock_client, timer_fd = fd_timer\<rparr> q) (\<lambda>(err, q').
      thenp (assertp (err = 0)) (ret (b', q'))))))))"

text \<open>What the server does with a readable client: the result is \<open>do_delete\<close>. A failing
  \<open>recv\<close> or \<open>send\<close> ends the process with the error number.\<close>

definition service_client :: "int \<Rightarrow> bool prog" where
  "service_client fd = bindp (recv_non_block 1024 fd) (\<lambda>(received_bytes, buf).
     if received_bytes < 0
     then thenp (perror ''recv_non_block'') (halt (Exit (- received_bytes)))
     else if received_bytes = 0 then ret True
     else bindp (c_strstr buf ''ping'') (\<lambda>at.
       if at = None then ret False
       else bindp (send_non_block fd) (\<lambda>sent_bytes.
         if sent_bytes < 0
         then thenp (perror ''send_non_block'') (halt (Exit (- sent_bytes)))
         else ret (sent_bytes = 0))))"

text \<open>\<open>timerfd->revents = 0\<close>\<close>

definition clear_revents :: "nat \<Rightarrow> fd_buffer \<Rightarrow> fd_buffer" where
  "clear_revents i b = b\<lparr>b_cells := (b_cells b)[i := map_option (p_revents_update (\<lambda>_. 0)) (b_cells b ! i)]\<rparr>"

definition drop_connection :: "int \<times> connection \<Rightarrow> fd_buffer \<Rightarrow> conns \<Rightarrow> (fd_buffer \<times> conns) prog" where
  "drop_connection e b q =
     bindp (bindp (remove_fd (conn_fd (snd e)) b) (\<lambda>b1. remove_fd (timer_fd (snd e)) b1)) (\<lambda>b2.
     bindp (remove_connection (fst e) q) (\<lambda>q'. ret (b2, q')))"

definition process_connection :: "int \<times> connection \<Rightarrow> fd_buffer \<Rightarrow> conns \<Rightarrow> (fd_buffer \<times> conns) prog" where
  "process_connection e b q =
     bindp (find_fd (conn_fd (snd e)) b) (\<lambda>connfd.
     bindp (find_fd (timer_fd (snd e)) b) (\<lambda>timerfd.
     thenp (assertp (connfd \<noteq> None))
     (thenp (assertp (timerfd \<noteq> None))
     (bindp (read_cell (b_cells b) (the connfd)) (\<lambda>c.
      bindp (if woken (p_revents c)
             then bindp (service_client (conn_fd (snd e))) (\<lambda>do_delete.
                  thenp (bindp (refresh_timer (timer_fd (snd e))) (\<lambda>_. ret ()))
                  (ret (do_delete, clear_revents (the timerfd) b)))
             else ret (False, b)) (\<lambda>(do_delete, b').
      bindp (read_cell (b_cells b') (the timerfd)) (\<lambda>t.
      bindp (if woken (p_revents t)
             then thenp (put_out (fmt [''Timer fired!!!!'', [LF]])) (ret True)
             else ret do_delete) (\<lambda>do_delete'.
      if do_delete' then drop_connection e b' q else ret (b', q)))))))))"

text \<open>The walk over the list: \<open>next\<close> is read before the element can be freed, and only the
  element itself is removed, so it visits the elements the list had when it began.\<close>

fun process_all :: "conns \<Rightarrow> fd_buffer \<Rightarrow> conns \<Rightarrow> (fd_buffer \<times> conns) prog" where
  "process_all [] b q = ret (b, q)"
| "process_all (e # es) b q = bindp (process_connection e b q) (\<lambda>(b', q'). process_all es b' q')"

definition event_round :: "fd_buffer \<times> conns \<Rightarrow> (fd_buffer \<times> conns, unit) iter prog" where
  "event_round s = (case s of (b, q) \<Rightarrow>
     thenp (put_out (fmt [''Processing event loop...'', [LF]]))
     (bindp (mypoll b) (\<lambda>(activity, b1).
      if activity < 0 then thenp (perror ''mypoll'') (ret (Leave ()))
      else bindp (read_cell (b_cells b1) 0) (\<lambda>p0.
      bindp (if p_revents p0 AND POLLIN \<noteq> 0 then accept_connection b1 q else ret (b1, q)) (\<lambda>(b2, q2).
      bindp (process_all q2 b2 q2) (\<lambda>s'. ret (Again s')))))))"

text \<open>\<open>main\<close>, its loop cut off after \<open>n\<close> rounds. The text of \<open>strerror\<close> is left out of the
  message.\<close>

definition server_main :: "nat \<Rightarrow> int prog" where
  "server_main n =
     thenp (put_out (fmt [''Creating socket...'', [LF]]))
     (bindp (listen_on_ipv4_tcp_socket ''127.0.0.1'' 8888) (\<lambda>(err, socket_fd).
      if err \<noteq> 0 then thenp (put_out (fmt [''Listen error: '', [LF]])) (halt (Exit err))
      else bindp (getp Uninitialised socket_fd) (\<lambda>lfd.
      bindp (set_non_blocking lfd) (\<lambda>_.
      bindp (init_fds_queue fds_buf0) (\<lambda>(_, b).
      bindp (insert_fd \<lparr>p_fd = lfd, p_events = POLLIN, p_revents = 0\<rparr> b) (\<lambda>(_, b1).
      bindp (loop n event_round (b1, init_cons_queue)) (\<lambda>_.
      thenp (sys (Close lfd)) (ret 0))))))))"

section \<open>The invariant of the event loop\<close>

text \<open>The descriptors a connection list mentions, and the resources that belong to it.\<close>

definition conn_fds :: "conns \<Rightarrow> int multiset" where
  "conn_fds q = mset (concat (map (\<lambda>e. [conn_fd (snd e), timer_fd (snd e)]) q))"

definition fd_list :: "int \<Rightarrow> res list" where
  "fd_list f = (if f < 0 then [] else [Fd f])"

definition conn_res :: "conns \<Rightarrow> res list" where
  "conn_res q = concat (map (\<lambda>e. fd_list (conn_fd (snd e)) @ fd_list (timer_fd (snd e)) @ [Block (fst e)]) q)"

abbreviation (input) std_fds :: "res set" where "std_fds \<equiv> {Fd 0, Fd 1, Fd 2}"

lemma set_fd_list [simp]: "set (fd_list f) = fd_res f"
  by (simp add: fd_list_def fd_res_def)

lemma distinct_fd_list [simp]: "distinct (fd_list f)"
  by (simp add: fd_list_def)

lemma conn_fds_simps [simp]:
  "conn_fds [] = {#}"
  "conn_fds (e # q) = {#conn_fd (snd e), timer_fd (snd e)#} + conn_fds q"
  "conn_fds (q @ q') = conn_fds q + conn_fds q'"
  by (simp_all add: conn_fds_def)

lemma conn_res_simps [simp]:
  "conn_res [] = []"
  "conn_res (e # q) = fd_list (conn_fd (snd e)) @ fd_list (timer_fd (snd e)) @ Block (fst e) # conn_res q"
  "conn_res (q @ q') = conn_res q @ conn_res q'"
  by (simp_all add: conn_res_def)

lemma size_conn_fds [simp]: "size (conn_fds q) = 2 * length q"
  by (induction q) simp_all

lemma fd_in_conn_res: "f \<in># conn_fds q \<Longrightarrow> fd_res f \<subseteq> set (conn_res q)"
  by (induction q) auto

text \<open>
  The table and the list agree: the table holds the listening socket in entry 0 and the two
  descriptors of every connection. The resources of the server, the listening socket, the
  array, and the descriptors and the list element of every connection, are all different
  and all live. With \<open>exact\<close>, nothing else is live: no descriptor and no block has leaked.
\<close>

definition tables_agree :: "int \<Rightarrow> fd_buffer \<Rightarrow> conns \<Rightarrow> bool" where
  "tables_agree lfd b q \<longleftrightarrow>
     (\<exists>es. fd_rep b es \<and> es \<noteq> [] \<and> p_fd (hd es) = lfd \<and> fds_of es = add_mset lfd (conn_fds q))"

definition owned :: "int \<Rightarrow> fd_buffer \<Rightarrow> conns \<Rightarrow> res list" where
  "owned lfd b q = Fd lfd # Block (b_ptr b) # conn_res q"

definition srv_inv :: "bool \<Rightarrow> int \<Rightarrow> fd_buffer \<Rightarrow> conns \<Rightarrow> log \<Rightarrow> bool" where
  "srv_inv exact lfd b q h \<longleftrightarrow> tables_agree lfd b q \<and> 0 \<le> lfd \<and> 0 \<notin> fst ` set q
     \<and> distinct (owned lfd b q) \<and> std_fds \<inter> set (owned lfd b q) = {}
     \<and> std_fds \<union> set (owned lfd b q) \<subseteq> live h
     \<and> (exact \<longrightarrow> live h \<subseteq> std_fds \<union> set (owned lfd b q))
     \<and> disciplined h"

section \<open>The steps keep the invariant\<close>

text \<open>The invariant only looks at the resources of the history, not at what is printed,
  received, sent or armed.\<close>

lemma srv_inv_quiet:
  assumes "srv_inv x lfd b q h" and "needs c \<subseteq> live h" and "acquires c a = {}" and "releases c a = {}"
  shows "srv_inv x lfd b q ((c, a) # h)"
  using assms by (simp add: srv_inv_def)

lemma srv_inv_print [simp]:
  "srv_inv x lfd b q h \<Longrightarrow> srv_inv x lfd b q ((Out s, a) # h)"
  "srv_inv x lfd b q h \<Longrightarrow> srv_inv x lfd b q ((Err s, a) # h)"
  by (simp_all add: srv_inv_quiet res_simps)

lemma srv_inv_disciplined: "srv_inv x lfd b q h \<Longrightarrow> disciplined h"
  by (simp add: srv_inv_def)

lemma srv_inv_fd_live:
  "srv_inv x lfd b q h \<Longrightarrow> f \<in># add_mset lfd (conn_fds q) \<Longrightarrow> fd_res f \<subseteq> live h"
  using fd_in_conn_res [of f q] by (auto simp: srv_inv_def owned_def)

lemma srv_inv_use:
  assumes "srv_inv x lfd b q h" and "f \<in># add_mset lfd (conn_fds q)"
  shows "srv_inv x lfd b q ((Recv f n fl, a) # h)" "srv_inv x lfd b q ((Send f s fl, a) # h)"
    "srv_inv x lfd b q ((TimerfdSettime f n, a) # h)"
  using assms srv_inv_fd_live [OF assms] by (auto intro!: srv_inv_quiet simp: res_simps simp del: fd_res_subset)

lemma srv_inv_poll:
  assumes inv: "srv_inv x lfd b q h" and rep: "fd_rep b es"
  shows "srv_inv x lfd b q ((PollCall (map (\<lambda>p. (p_fd p, p_events p)) es) tmo, a) # h)"
proof (rule srv_inv_quiet [OF inv])
  have "fds_of es = add_mset lfd (conn_fds q)"
    using inv fd_rep_unique [OF rep] by (auto simp: srv_inv_def tables_agree_def)
  then have "fd_res (p_fd e) \<subseteq> live h" if "e \<in> set es" for e
  proof -
    from that have "p_fd e \<in># fds_of es" by (auto simp: fds_of_mem)
    with \<open>fds_of es = _\<close> srv_inv_fd_live [OF inv] show ?thesis by simp
  qed
  then show "needs (PollCall (map (\<lambda>p. (p_fd p, p_events p)) es) tmo) \<subseteq> live h"
    by (auto simp: needs_def)
qed (simp_all add: res_simps)

lemma srv_inv_other_table:
  assumes "srv_inv x lfd b q h" and "tables_agree lfd b' q" and "b_ptr b' = b_ptr b"
  shows "srv_inv x lfd b' q h"
  using assms by (simp add: srv_inv_def owned_def)

lemma clear_revents_rep:
  assumes "fd_rep b es" and "i < length es"
  shows "fd_rep (clear_revents i b) (es[i := (es ! i)\<lparr>p_revents := 0\<rparr>])"
proof -
  from assms have "b_cells b ! i = Some (es ! i)"
    by (metis fd_rep_def length_map nth_map nth_take)
  moreover from assms have "take (length es) (b_cells b) = map Some es" by (simp add: fd_rep_def)
  ultimately show ?thesis
    using assms by (simp add: fd_rep_def clear_revents_def take_update_swap map_update)
qed

lemma clear_revents_sel [simp]:
  "b_ptr (clear_revents i b) = b_ptr b" "b_size (clear_revents i b) = b_size b"
  by (simp_all add: clear_revents_def)

lemma fds_of_map: "map p_fd es' = map p_fd es \<Longrightarrow> fds_of es' = fds_of es"
  by (simp add: fds_of_def)

lemma woken_0 [simp]: "\<not> woken 0"
  by (simp add: woken_def)

text \<open>Registering a new connection.\<close>

lemma wp_register_fds:
  assumes inv: "srv_inv x lfd b q h" and small: "b_size b \<le> 2 ^ 27" and len: "int (length q) \<le> 2 ^ 24"
    and os: "lawful os" "memory_ok os"
    and post: "\<And>b' h'. (\<And>p. tables_agree lfd b' (q @ [(p, \<lparr>conn_fd = c, timer_fd = t\<rparr>)])) \<Longrightarrow>
      Block (b_ptr b') \<in> live h' \<Longrightarrow>
      live h' - {Block (b_ptr b')} = live h - {Block (b_ptr b)} \<Longrightarrow> disciplined h' \<Longrightarrow>
      b_size b' \<le> max (b_size b) (4 * int (length q) + 6) \<Longrightarrow> Q b' h'"
  shows "wp (register_fds c t b) Q E os h"
proof -
  from inv obtain es where es: "fd_rep b es" "es \<noteq> []" "p_fd (hd es) = lfd" "fds_of es = add_mset lfd (conn_fds q)"
    by (auto simp: srv_inv_def tables_agree_def)
  have "length es = 1 + 2 * length q"
    using arg_cong [OF es(4), of size] by (simp add: fds_of_def)
  then have n: "int (length es) = 1 + 2 * int (length q)" by simp
  show ?thesis
    unfolding register_fds_def
  proof (rule wp_mono [OF fdt.register_pair [OF es(1) _ _ _ _ os]])
    show "fd_own b \<subseteq> live h" and "disciplined h" using inv by (simp_all add: srv_inv_def owned_def fd_own_def)
    fix b' h'
    assume "fd_rep b' (es @ [\<lparr>p_fd = c, p_events = POLLIN, p_revents = 0\<rparr>, \<lparr>p_fd = t, p_events = POLLIN, p_revents = 0\<rparr>]) \<and>
      fd_own b' \<subseteq> live h' \<and> live h' - fd_own b' = live h - fd_own b \<and> disciplined h' \<and>
      b_size b' \<le> max (b_size b) (2 * int (length es) + 4)"
    moreover from this es have "tables_agree lfd b' (q @ [(p, \<lparr>conn_fd = c, timer_fd = t\<rparr>)])" for p
      by (auto simp: tables_agree_def)
    ultimately show "Q b' h'"
      using n by (intro post) (simp_all add: fd_own_def add.commute)
  qed (use small n len in simp_all)
qed

lemma wp_create_timer:
  assumes os: "lawful os" and tim: "x \<Longrightarrow> timers_ok os"
    and post: "\<And>t T h'. fd_res t \<inter> live h = {} \<Longrightarrow> fd_res t \<subseteq> T \<Longrightarrow> T \<inter> live h = {} \<Longrightarrow>
      (x \<Longrightarrow> T = fd_res t) \<Longrightarrow> T \<subseteq> range Fd \<Longrightarrow> live h' = live h \<union> T \<Longrightarrow> disciplined h' \<Longrightarrow> Q t h'"
    and disc: "disciplined h"
  shows "wp create_non_blocking_timer Q E os h"
proof -
  let ?c = "TimerfdCreate CLOCK_REALTIME TFD_NONBLOCK"
  have "if a_ret a2 \<noteq> 0 then Q (- a_errno a2) ((TimerfdSettime (a_ret a1) 3, a2) # (?c, a1) # h)
      else Q (a_ret a1) ((TimerfdSettime (a_ret a1) 3, a2) # (?c, a1) # h)"
    if a1: "answers os h ?c a1" and a2: "answers os ((?c, a1) # h) (TimerfdSettime (a_ret a1) 3) a2" for a1 a2
  proof -
    have fresh: "fd_res (a_ret a1) \<inter> live h = {}"
      using fresh_timer [OF os a1] by auto
    have neg: "a_ret a2 \<noteq> 0 \<Longrightarrow> - a_errno a2 < 0"
      using timer_law [OF os a2] by auto
    have ok: "0 \<le> a_ret a1 \<Longrightarrow> x \<Longrightarrow> a_ret a2 = 0"
      using tim a2 by (auto simp: timers_ok_def answers_def acquires_def releases_def)
    show ?thesis
    proof (cases "a_ret a2 = 0")
      case True
      have "Q (a_ret a1) ((TimerfdSettime (a_ret a1) 3, a2) # (?c, a1) # h)"
        by (rule post [of _ "fd_res (a_ret a1)"]) (use fresh disc in \<open>auto simp: res_simps\<close>)
      with True show ?thesis by simp
    next
      case False
      have "Q (- a_errno a2) ((TimerfdSettime (a_ret a1) 3, a2) # (?c, a1) # h)"
        by (rule post [of _ "fd_res (a_ret a1)"])
          (use fresh disc neg [OF False] False ok in \<open>auto simp: res_simps\<close>)
      with False show ?thesis by simp
    qed
  qed
  then show ?thesis by (auto simp: create_non_blocking_timer_def wp_simps)
qed

lemma srv_inv_more:
  "srv_inv x lfd b q h \<Longrightarrow> live h \<subseteq> live h' \<Longrightarrow> disciplined h' \<Longrightarrow> srv_inv False lfd b q h'"
  by (auto simp: srv_inv_def)

lemma srv_inv_accepted:
  assumes inv: "srv_inv x lfd b q h"
    and c: "fd_res c \<inter> live h = {}" and t: "fd_res t \<inter> live h = {}" "fd_res t \<inter> fd_res c = {}"
    and T: "fd_res t \<subseteq> T" "T \<inter> live h = {}" "x \<Longrightarrow> T = fd_res t" "T \<subseteq> range Fd"
    and ag: "tables_agree lfd b' (q @ [(p, \<lparr>conn_fd = c, timer_fd = t\<rparr>)])"
    and h3: "Block (b_ptr b') \<in> live h3"
      "live h3 - {Block (b_ptr b')} = (live h \<union> fd_res c \<union> T) - {Block (b_ptr b)}" "disciplined h3"
    and p: "a_ptr a = p" "p \<noteq> 0" "Block p \<notin> live h3"
  shows "srv_inv x lfd b' (q @ [(p, \<lparr>conn_fd = c, timer_fd = t\<rparr>)]) ((Malloc 16, a) # h3)"
proof -
  let ?q = "q @ [(p, \<lparr>conn_fd = c, timer_fd = t\<rparr>)]"
  have old: "distinct (Fd lfd # Block (b_ptr b) # conn_res q)"
      "std_fds \<inter> set (Fd lfd # Block (b_ptr b) # conn_res q) = {}"
      "std_fds \<union> set (Fd lfd # Block (b_ptr b) # conn_res q) \<subseteq> live h"
    using inv by (simp_all add: srv_inv_def owned_def)
  have b': "Block (b_ptr b') \<notin> live h - {Block (b_ptr b)}"
    using h3(2) by blast
  have l3: "live h3 = insert (Block (b_ptr b')) ((live h - {Block (b_ptr b)}) \<union> fd_res c \<union> T)"
    using h3(1,2) T(4) by auto
  have p': "Block p \<notin> live h - {Block (b_ptr b)}" "p \<noteq> b_ptr b'"
    using p(3) by (auto simp: l3)
  have "distinct (owned lfd b' ?q)"
    using old c t b' p' by (auto simp: owned_def)
  moreover have "std_fds \<inter> set (owned lfd b' ?q) = {}"
    using old c t by (auto simp: owned_def)
  moreover have "std_fds \<union> set (owned lfd b' ?q) \<subseteq> live ((Malloc 16, a) # h3)"
    using old T(1) p by (auto simp: owned_def l3 res_simps)
  moreover have "live ((Malloc 16, a) # h3) \<subseteq> std_fds \<union> set (owned lfd b' ?q)" if x
    using inv T(3) p that by (auto simp: srv_inv_def owned_def l3 res_simps)
  ultimately show ?thesis
    using inv ag h3(3) p(2) by (auto simp: srv_inv_def res_simps)
qed

lemma wp_accept_connection:
  assumes inv: "srv_inv x lfd b q h" and small: "b_size b \<le> 2 ^ 27" and len: "int (length q) \<le> 2 ^ 24"
    and os: "lawful os" "memory_ok os" and tim: "x \<Longrightarrow> timers_ok os"
  shows "wp (accept_connection b q) (\<lambda>(b', q') h'. srv_inv x lfd b' q' h' \<and>
      (\<exists>p c. q' = q @ [(p, c)]) \<and> b_size b' \<le> max (b_size b) (4 * int (length q) + 6)) E os h"
proof -
  from inv obtain es where es: "fd_rep b es" "es \<noteq> []" "p_fd (hd es) = lfd"
    by (auto simp: srv_inv_def tables_agree_def)
  have cell: "read_cell (b_cells b) 0 = ret (hd es)"
    using es read_cell_rep [of es "b_cells b" 0] by (simp add: fd_rep_def hd_conv_nth)
  have fresh: "fd_res (a_ret a) \<inter> live h' = {}" if "answers os h' (Accept f) a" for a f h'
    using fresh_accept [OF os(1) that] by auto
  have alloc: "a_ptr a \<noteq> 0 \<and> Block (a_ptr a) \<notin> live h'" if "answers os h' (Malloc n) a" for a n h'
    using that os fresh_block [OF os(1) that] by (auto simp: memory_ok_def answers_def)
  show ?thesis
    unfolding accept_connection_def cell
    apply (simp add: wp_simps)
  proof (intro allI impI, goal_cases)
    case (1 a0 c)
    let ?h1 = "(Accept (p_fd (hd es)), c) # (Out (fmt [''Creating new connection...'', [LF]]), a0) # h"
    have l1: "live ?h1 = live h \<union> fd_res (a_ret c)" and d1: "disciplined ?h1"
      using inv es by (auto simp: srv_inv_def owned_def res_simps)
    have fc: "fd_res (a_ret c) \<inter> live h = {}" using fresh [OF 1(2)] by (simp add: res_simps)
    show ?case
    proof (rule wp_create_timer [OF os(1) tim _ d1], assumption, goal_cases)
      case (1 t T h2)
      then have l2: "live h \<subseteq> live h2" "live h2 = live h \<union> fd_res (a_ret c) \<union> T" using l1 by auto
      show ?case
      proof (rule wp_register_fds [OF srv_inv_more [OF inv l2(1) 1(7)] small len os], goal_cases)
        case (1 b' h3)
        have inv': "srv_inv x lfd b' (q @ [(a_ptr a, \<lparr>conn_fd = a_ret c, timer_fd = t\<rparr>)]) ((Malloc 16, a) # h3)"
          if "a_ptr a \<noteq> 0" "Block (a_ptr a) \<notin> live h3" for a
          by (rule srv_inv_accepted [OF inv fc _ _ _ _ _ _ 1(1,2) _ 1(4) refl that, where T = T])
            (use \<open>T \<inter> live ?h1 = {}\<close> \<open>fd_res t \<inter> live ?h1 = {}\<close> \<open>fd_res t \<subseteq> T\<close> \<open>x \<Longrightarrow> T = fd_res t\<close>
              \<open>T \<subseteq> range Fd\<close> 1(3) l1 l2 in auto)
        show ?case
          by (rule wp_insert_connection [OF os]) (use inv' 1(5) in auto)
      qed
    qed
  qed
qed

lemma conn_res_block: "p \<in> fst ` set q \<longleftrightarrow> Block p \<in> set (conn_res q)"
  by (induction q) auto

lemma filter_other: "Block p \<notin> set (conn_res q) \<Longrightarrow> filter (\<lambda>e. fst e \<noteq> p) q = q"
  by (induction q) auto

lemma distinct_middle: "distinct (xs @ ys @ zs) \<Longrightarrow> set ys \<inter> (set xs \<union> set zs) = {}"
  by auto

lemma srv_inv_dropped:
  assumes inv: "srv_inv x lfd b (q1 @ e # q2) h" and ag: "tables_agree lfd b' (q1 @ q2)"
    and b': "b_ptr b' = b_ptr b" and d: "disciplined h1"
    and l: "live h1 = live h - fd_res (conn_fd (snd e)) - fd_res (timer_fd (snd e))"
  shows "srv_inv x lfd b' (q1 @ q2) ((Free (fst e), a) # h1)"
    and "Block (fst e) \<notin> live ((Free (fst e), a) # h1)"
proof -
  have old: "distinct (owned lfd b (q1 @ e # q2))" "std_fds \<inter> set (owned lfd b (q1 @ e # q2)) = {}"
      "std_fds \<union> set (owned lfd b (q1 @ e # q2)) \<subseteq> live h" "fst e \<noteq> 0"
      "x \<Longrightarrow> live h \<subseteq> std_fds \<union> set (owned lfd b (q1 @ e # q2))"
    using inv by (auto simp: srv_inv_def)
  have l': "live ((Free (fst e), a) # h1) =
      live h - fd_res (conn_fd (snd e)) - fd_res (timer_fd (snd e)) - {Block (fst e)}"
    using old(4) l by (simp add: res_simps)
  have apart: "(fd_res (conn_fd (snd e)) \<union> fd_res (timer_fd (snd e)) \<union> {Block (fst e)}) \<inter>
      (std_fds \<union> {Fd lfd, Block (b_ptr b)} \<union> set (conn_res q1) \<union> set (conn_res q2)) = {}"
    using old(2) distinct_middle [of "[Fd lfd, Block (b_ptr b)] @ conn_res q1"
        "fd_list (conn_fd (snd e)) @ fd_list (timer_fd (snd e)) @ [Block (fst e)]" "conn_res q2"] old(1)
    by (simp add: owned_def Int_Un_distrib Int_Un_distrib2 Int_ac Un_ac)
  have parts: "set (owned lfd b (q1 @ e # q2)) = {Fd lfd, Block (b_ptr b)} \<union> set (conn_res q1) \<union>
      (fd_res (conn_fd (snd e)) \<union> fd_res (timer_fd (snd e)) \<union> {Block (fst e)}) \<union> set (conn_res q2)"
    "set (owned lfd b' (q1 @ q2)) = {Fd lfd, Block (b_ptr b)} \<union> set (conn_res q1) \<union> set (conn_res q2)"
    using b' by (auto simp: owned_def)
  have keep: "std_fds \<union> set (owned lfd b' (q1 @ q2)) \<subseteq> live ((Free (fst e), a) # h1)"
    using old(3) apart unfolding l' parts by blast
  have ex: "live ((Free (fst e), a) # h1) \<subseteq> std_fds \<union> set (owned lfd b' (q1 @ q2))" if x
    using old(5) [OF that] unfolding l' parts by blast
  have "needs (Free (fst e)) \<subseteq> live h1"
    using old(3,4) l unfolding parts by (simp add: res_simps)
  moreover have "distinct (owned lfd b' (q1 @ q2))" "std_fds \<inter> set (owned lfd b' (q1 @ q2)) = {}"
    using old(1,2) b' by (auto simp: owned_def)
  ultimately show "srv_inv x lfd b' (q1 @ q2) ((Free (fst e), a) # h1)"
    using inv ag keep ex d unfolding srv_inv_def by (auto simp del: live.simps)
  show "Block (fst e) \<notin> live ((Free (fst e), a) # h1)"
    unfolding l' by simp
qed

lemma wp_drop_connection:
  assumes inv: "srv_inv x lfd b (q1 @ e # q2) h" and small: "b_size b \<le> 2 ^ 28"
  shows "wp (drop_connection e b (q1 @ e # q2)) (\<lambda>(b', q') h'. srv_inv x lfd b' q' h' \<and>
      q' = q1 @ q2 \<and> b_size b' = b_size b \<and>
      live h' = live h - fd_res (conn_fd (snd e)) - fd_res (timer_fd (snd e)) - {Block (fst e)}) E os h"
proof -
  let ?c = "conn_fd (snd e)" and ?t = "timer_fd (snd e)"
  from inv obtain es where es: "fd_rep b es" "es \<noteq> []" "p_fd (hd es) = lfd"
      "fds_of es = add_mset lfd (conn_fds (q1 @ e # q2))"
    by (auto simp: srv_inv_def tables_agree_def)
  have own: "distinct (owned lfd b (q1 @ e # q2))" "set (owned lfd b (q1 @ e # q2)) \<subseteq> live h"
      "0 \<le> lfd" "disciplined h" "fst e \<noteq> 0"
    using inv by (auto simp: srv_inv_def)
  have fresh: "Block (fst e) \<notin> set (conn_res q1) \<union> set (conn_res q2)"
    using own(1) by (auto simp: owned_def)
  show ?thesis
    unfolding drop_connection_def
    apply (subst wp_bindp)
  proof (rule wp_mono [OF fdt.drop_pair [OF es(1) small _ own(4), where E = E]], goal_cases)
    case (8 b2 h2)
    then obtain es2 where es2: "fd_rep b2 es2" "fds_of es2 = fds_of es - {#?c, ?t#}"
        "p_fd (hd es2) = p_fd (hd es)" "length es2 + 2 = length es"
      and l2: "live h2 = live h - fd_res ?c - fd_res ?t" and d2: "disciplined h2"
      and b2: "b_size b2 = b_size b" "b_ptr b2 = b_ptr b"
      by (auto simp: fd_own_def)
    have "length es = 3 + 2 * (length q1 + length q2)"
      using arg_cong [OF es(4), of size] by (simp add: fds_of_def)
    then have "tables_agree lfd b2 (q1 @ q2)"
      using es es2 by (auto simp: tables_agree_def)
    note d = srv_inv_dropped [OF inv this b2(2) d2 l2]
    show ?case
      using d fresh own(5) l2 b2(1) conn_res_block [of "fst e" "q1 @ e # q2"]
      by (auto simp: remove_connection_def wp_simps filter_other res_simps)
  qed (use es own in \<open>auto simp: owned_def fd_own_def\<close>)
qed

section \<open>What becomes of a connection\<close>

text \<open>The contract of one visit to a connection: from the \<open>revents\<close> of its two entries and
  from what the client's socket answered, the connection is kept, dropped, or the process
  ends. The newest event of the list is its head.\<close>

datatype fate = Keep | Drop | Die

definition served :: "log \<Rightarrow> int \<Rightarrow> fate" where
  "served evs fd = (case map_of evs (Recv fd 1023 0) of
      None \<Rightarrow> Die
    | Some r \<Rightarrow> if a_ret r < 0 then Die else if a_ret r = 0 then Drop
        else if strstr_at (cstr (a_buf r)) ''ping'' = None then Keep
        else (case map_of evs (Send fd ''pong'' 0) of
            None \<Rightarrow> Die
          | Some s \<Rightarrow> if a_ret s < 0 then Die else if a_ret s = 0 then Drop else Keep))"

definition fate_of :: "log \<Rightarrow> int \<Rightarrow> int \<Rightarrow> int \<Rightarrow> fate" where
  "fate_of evs fd conn_revents timer_revents =
     (if woken conn_revents then served evs fd else if woken timer_revents then Drop else Keep)"

definition revents_of :: "int \<Rightarrow> pollfd list \<Rightarrow> int" where
  "revents_of fd es = p_revents (es ! the (first_index (\<lambda>p. p_fd p = fd) es))"

lemma map_of_hit [simp]: "map_of ((c, a) # evs) c = Some a"
  by simp

lemma wp_service_client:
  assumes inv: "srv_inv x lfd b q h" and f: "f \<in># conn_fds q" and os: "lawful os"
  shows "wp (service_client f)
      (\<lambda>d h'. \<exists>evs. h' = evs @ h \<and> served evs f = (if d then Drop else Keep) \<and>
         srv_inv x lfd b q h' \<and> live h' = live h)
      (\<lambda>s h'. \<exists>evs n. h' = evs @ h \<and> served evs f = Die \<and> s = Exit n \<and> 0 < n \<and> disciplined h') os h"
proof -
  let ?r = "Recv f 1023 0" and ?s = "Send f ''pong'' 0"
  have fin: "f \<in># add_mset lfd (conn_fds q)" using f by simp
  note use1 = srv_inv_use [OF inv fin]
  have d0: "disciplined h" "fd_res f \<subseteq> live h"
    using inv srv_inv_fd_live [OF inv fin] by (auto simp: srv_inv_def)
  show ?thesis
    unfolding service_client_def
    apply (subst wp_bindp)
  proof (rule wp_recv_non_block [OF os], goal_cases)
    case 1
    then show ?case by simp
  next
    case (2 a)
    then show ?case
      using d0 by (auto simp: wp_simps served_def res_simps intro!: exI [of _ "[_, _]"])
  next
    case (3 a)
    then show ?case
      using d0 use1 by (auto simp: wp_simps served_def res_simps intro!: exI [of _ "[_]"])
  next
    case (4 a buf w)
    let ?w = "Out (fmt [''Read '', dec (a_ret a), '' bytes from '', dec f, '': '', cstr (a_buf a), [LF]])"
    have inv2: "srv_inv x lfd b q ((?w, w) # (?r, a) # h)"
      using use1 by (simp add: srv_inv_print)
    note use2 = srv_inv_use [OF inv2 fin]
    show ?case
    proof (cases "strstr_at (cstr (a_buf a)) ''ping'' = None")
      case True
      then show ?thesis
        using 4(2,4,5) inv2 by (auto simp: wp_simps served_def res_simps intro!: exI [of _ "[_, _]"])
    next
      case False
      then obtain i where at: "strstr_at (cstr (a_buf a)) ''ping'' = Some i" by blast
      show ?thesis
        using 4(2,4,5) at
        apply (simp add: wp_simps)
        apply (rule wp_send_non_block [OF os])
          apply (use d0 4(2) at in \<open>auto simp: wp_simps served_def res_simps intro!: exI [of _ "[_, _, _, _]"]\<close>)[1]
         apply (use use2 4(2) at in \<open>auto simp: wp_simps served_def res_simps intro!: exI [of _ "[_, _, _]"]\<close>)[1]
        apply (use use2 4(2) at in \<open>auto simp: wp_simps served_def res_simps intro!: exI [of _ "[_, _, _, _]"]\<close>)[1]
        done
    qed
  qed
qed

lemma first_index_entry:
  assumes "f \<in># fds_of es"
  shows "\<exists>i. first_index (\<lambda>p. p_fd p = f) es = Some i \<and> i < length es \<and> p_fd (es ! i) = f \<and>
    revents_of f es = p_revents (es ! i)"
proof -
  from assms obtain e where "e \<in> set es" "p_fd e = f" by (auto simp: fds_of_mem)
  then obtain i where i: "first_index (\<lambda>p. p_fd p = f) es = Some i"
    using first_index_exists [of e es "\<lambda>p. p_fd p = f"] by auto
  with first_index_Some [OF this] show ?thesis by (simp add: revents_of_def)
qed

lemma tables_agree_clear:
  assumes "tables_agree lfd b q" and "fd_rep b es" and "i < length es"
  shows "tables_agree lfd (clear_revents i b) q"
proof -
  note u = fd_rep_unique [OF assms(2)]
  have m: "map p_fd (es[i := (es ! i)\<lparr>p_revents := 0\<rparr>]) = map p_fd es"
    by (simp add: map_fd_update)
  from assms(1) u have "es \<noteq> []" "p_fd (hd es) = lfd" "fds_of es = add_mset lfd (conn_fds q)"
    by (auto simp: tables_agree_def)
  moreover have "p_fd (hd (es[i := (es ! i)\<lparr>p_revents := 0\<rparr>])) = p_fd (hd es)"
    using m \<open>es \<noteq> []\<close> by (metis hd_map list.map_disc_iff)
  ultimately show ?thesis
    using clear_revents_rep [OF assms(2,3)] fds_of_map [OF m]
    by (auto simp: tables_agree_def intro!: exI [of _ "es[i := (es ! i)\<lparr>p_revents := 0\<rparr>]"])
qed

definition visited :: "bool \<Rightarrow> int \<Rightarrow> conns \<Rightarrow> int \<times> connection \<Rightarrow> conns \<Rightarrow> pollfd list \<Rightarrow> int \<Rightarrow> log
    \<Rightarrow> fd_buffer \<times> conns \<Rightarrow> log \<Rightarrow> bool" where
  "visited x lfd q1 e q2 es n h s h' \<longleftrightarrow> srv_inv x lfd (fst s) (snd s) h' \<and> b_size (fst s) = n \<and>
     (\<exists>evs evs'. h' = evs' @ evs @ h \<and>
       (woken (revents_of (conn_fd (snd e)) es) \<longrightarrow> TimerfdSettime (timer_fd (snd e)) TIMEOUT \<in> fst ` set evs') \<and>
       (case fate_of evs (conn_fd (snd e)) (revents_of (conn_fd (snd e)) es) (revents_of (timer_fd (snd e)) es) of
          Keep \<Rightarrow> snd s = q1 @ e # q2 \<and> live h' = live h
        | Drop \<Rightarrow> snd s = q1 @ q2 \<and>
            live h' = live h - fd_res (conn_fd (snd e)) - fd_res (timer_fd (snd e)) - {Block (fst e)}
        | Die \<Rightarrow> False))"

lemmas visitedI = visited_def [THEN iffD2, OF conjI, OF _ conjI, OF _ _ exI, OF _ _ exI, OF _ _ conjI, OF _ _ _ conjI]

lemma grows_drop: "grows (drop_connection e b q)"
  unfolding drop_connection_def by (intro grows_intros grows_remove_fd grows_remove_connection)

lemma read_cleared:
  assumes "fd_rep b es" and "j < length es"
  shows "read_cell (b_cells (clear_revents j b)) j = ret ((es ! j)\<lparr>p_revents := 0\<rparr>)"
  using clear_revents_rep [OF assms] assms(2)
  by (subst read_cell_rep [of "es[j := (es ! j)\<lparr>p_revents := 0\<rparr>]"]) (auto simp: fd_rep_def)

text \<open>A served connection has its timer armed again, and what \<open>poll\<close> said of it is forgotten.\<close>

lemma srv_inv_refreshed:
  assumes inv: "srv_inv x lfd b q h" and rep: "fd_rep b es" "j < length es"
    and now: "srv_inv x lfd b q h1" and t: "t \<in># add_mset lfd (conn_fds q)"
  shows "srv_inv x lfd (clear_revents j b) q ((TimerfdSettime t 3, a) # h1)"
proof (rule srv_inv_other_table [OF srv_inv_use(3) [OF now t]])
  show "tables_agree lfd (clear_revents j b) q"
    using tables_agree_clear [OF _ rep] inv by (simp add: srv_inv_def)
qed simp

lemma wp_drop_visited:
  assumes inv: "srv_inv x lfd b1 (q1 @ e # q2) h1" and size: "b_size b1 = n" "n \<le> 2 ^ 28"
    and log: "live h1 = live h" "h1 = evs' @ evs @ h"
    and fate: "fate_of evs (conn_fd (snd e)) (revents_of (conn_fd (snd e)) es) (revents_of (timer_fd (snd e)) es) = Drop"
    and armed: "woken (revents_of (conn_fd (snd e)) es) \<Longrightarrow> TimerfdSettime (timer_fd (snd e)) TIMEOUT \<in> fst ` set evs'"
  shows "wp (drop_connection e b1 (q1 @ e # q2)) (visited x lfd q1 e q2 es n h) E os h1"
proof (rule wp_mono [OF wp_grows [OF grows_drop wp_drop_connection [OF inv]]], goal_cases)
  case (2 s h')
  then obtain evs2 where h': "h' = (evs2 @ evs') @ evs @ h" using log(2) by (cases s) auto
  show ?case
    by (rule visitedI [OF _ _ h']) (use 2 assms in \<open>auto split: prod.splits\<close>)
qed (use size in auto)

lemma wp_process_connection:
  assumes inv: "srv_inv x lfd b (q1 @ e # q2) h" and rep: "fd_rep b es" and small: "b_size b \<le> 2 ^ 28"
    and os: "lawful os"
  shows "wp (process_connection e b (q1 @ e # q2)) (visited x lfd q1 e q2 es (b_size b) h)
      (\<lambda>s h'. \<exists>evs n. h' = evs @ h \<and> s = Exit n \<and> 0 < n \<and> disciplined h' \<and>
        fate_of evs (conn_fd (snd e)) (revents_of (conn_fd (snd e)) es) (revents_of (timer_fd (snd e)) es) = Die)
      os h"
proof -
  let ?c = "conn_fd (snd e)" and ?t = "timer_fd (snd e)" and ?q = "q1 @ e # q2"
  note u = fd_rep_unique [OF rep]
  have fds: "fds_of es = add_mset lfd (conn_fds ?q)"
    using inv u by (auto simp: srv_inv_def tables_agree_def)
  obtain i where i: "find_fd ?c b = ret (Some i)" "i < length es" "revents_of ?c es = p_revents (es ! i)"
    using first_index_entry [of ?c es] find_fd_rep [OF rep, of ?c] fds by auto
  obtain j where j: "find_fd ?t b = ret (Some j)" "j < length es" "revents_of ?t es = p_revents (es ! j)"
    using first_index_entry [of ?t es] find_fd_rep [OF rep, of ?t] fds by auto
  have cell: "read_cell (b_cells b) k = ret (es ! k)" if "k < length es" for k
    using rep that by (simp add: fd_rep_def read_cell_rep)
  note cell' = read_cleared [OF rep j(2)]
  note drop = wp_drop_visited [where es = es, OF _ _ small]
  note eq = process_connection_def i(1) j(1) cell [OF i(2)] cell [OF j(2)] cell'
  show ?thesis
  proof (cases "woken (revents_of ?c es)")
    case False
    show ?thesis
    proof (cases "woken (revents_of ?t es)")
      case True
      with False i(3) j(3) show ?thesis
        by (simp add: eq wp_simps)
          (auto simp: fate_of_def inv res_simps intro!: drop [where evs = "[]" and evs' = "[_]"])
    next
      case False': False
      with False i(3) j(3) inv show ?thesis
        by (simp add: eq wp_simps visited_def fate_of_def)
    qed
  next
    case True
    have c: "?c \<in># conn_fds ?q" and t: "?t \<in># add_mset lfd (conn_fds ?q)" by simp_all
    have served: "process_connection e b ?q = bindp (service_client ?c) (\<lambda>d.
        bindp (refresh_timer ?t) (\<lambda>_. if d then drop_connection e (clear_revents j b) ?q
          else ret (clear_revents j b, ?q)))"
      using True i(3) by (simp add: eq bindp_assoc thenp_def if_distrib [of "\<lambda>x. bindp x _"] assertp_def)
    have fate: "fate_of evs ?c (revents_of ?c es) (revents_of ?t es) = served evs ?c" for evs
      using True by (simp add: fate_of_def)
    show ?thesis
      unfolding served
      apply (subst wp_bindp)
    proof (rule wp_mono [OF wp_service_client [OF inv c os]], goal_cases)
      case (1 d h1)
      then obtain evs where h1: "h1 = evs @ h" "served evs ?c = (if d then Drop else Keep)"
          "srv_inv x lfd b ?q h1" "live h1 = live h"
        by blast
      note inv2 = srv_inv_refreshed [OF inv rep j(2) h1(3) t]
      have keep: "visited x lfd q1 e q2 es (b_size b) h (clear_revents j b, ?q) ((TimerfdSettime ?t 3, a) # h1)"
        if "\<not> d" for a
        by (rule visitedI [of _ _ _ _ _ "[(TimerfdSettime ?t 3, a)]" evs])
          (use that inv2 h1 fate in \<open>auto simp: res_simps\<close>)
      show ?case
        using inv2 h1 fate keep
        by (auto simp: refresh_timer_def wp_simps res_simps intro!: drop [where evs = evs and evs' = "[_]"])
    next
      case (2 s h')
      with fate show ?case by auto
    qed
  qed
qed

section \<open>The whole server\<close>

lemma visited_list:
  assumes "visited x lfd q1 e q2 es n h s h'"
  shows "srv_inv x lfd (fst s) (snd s) h' \<and> b_size (fst s) = n \<and> (snd s = q1 @ e # q2 \<or> snd s = q1 @ q2)"
proof -
  from assms obtain evs where
    "case fate_of evs (conn_fd (snd e)) (revents_of (conn_fd (snd e)) es) (revents_of (timer_fd (snd e)) es) of
        Keep \<Rightarrow> snd s = q1 @ e # q2 \<and> live h' = live h
      | Drop \<Rightarrow> snd s = q1 @ q2 \<and>
          live h' = live h - fd_res (conn_fd (snd e)) - fd_res (timer_fd (snd e)) - {Block (fst e)}
      | Die \<Rightarrow> False"
    unfolding visited_def by blast
  then have "snd s = q1 @ e # q2 \<or> snd s = q1 @ q2" by (simp split: fate.splits)
  with assms show ?thesis by (simp add: visited_def)
qed

lemma wp_process_connection_inv:
  assumes inv: "srv_inv x lfd b (q1 @ e # q2) h" and small: "b_size b \<le> 2 ^ 28" and os: "lawful os"
  shows "wp (process_connection e b (q1 @ e # q2))
      (\<lambda>s h'. srv_inv x lfd (fst s) (snd s) h' \<and> b_size (fst s) = b_size b \<and>
        (snd s = q1 @ e # q2 \<or> snd s = q1 @ q2)) clean_stop os h"
proof -
  from inv obtain es where "fd_rep b es" by (auto simp: srv_inv_def tables_agree_def)
  from wp_process_connection [OF inv this small os] show ?thesis
    by (rule wp_mono) (auto dest: visited_list)
qed

lemma wp_process_all:
  assumes "srv_inv x lfd b (q1 @ q2) h" and "b_size b \<le> 2 ^ 28" and os: "lawful os"
  shows "wp (process_all q2 b (q1 @ q2))
      (\<lambda>s h'. srv_inv x lfd (fst s) (snd s) h' \<and> b_size (fst s) = b_size b \<and>
        length (snd s) \<le> length (q1 @ q2)) clean_stop os h"
  using assms(1,2)
proof (induction q2 arbitrary: b q1 h)
  case Nil
  then show ?case by (simp add: wp_simps)
next
  case (Cons e q2)
  show ?case
    unfolding process_all.simps
    apply (subst wp_bindp)
  proof (rule wp_mono [OF wp_process_connection_inv [OF Cons.prems os]], goal_cases)
    case (1 s h')
    obtain b' q' where s: "s = (b', q')" by (cases s)
    from 1 consider "q' = (q1 @ [e]) @ q2" | "q' = q1 @ q2" by (auto simp: s)
    then show ?case
    proof cases
      case keep: 1
      with 1 Cons.prems Cons.IH [of b' "q1 @ [e]" h'] show ?thesis by (simp add: s)
    next
      case drop: 2
      have "wp (process_all q2 b' (q1 @ q2)) (\<lambda>s h'. srv_inv x lfd (fst s) (snd s) h' \<and>
          b_size (fst s) = b_size b' \<and> length (snd s) \<le> length (q1 @ q2)) clean_stop os h'"
        using 1 Cons.prems drop by (intro Cons.IH) (simp_all add: s)
      with 1 drop show ?thesis
        by (auto simp: s intro: wp_mono)
    qed
  qed
qed

lemma tables_agree_polled:
  assumes "tables_agree lfd b q" and "fd_rep b es" and "fd_rep b' es'" and "map p_fd es' = map p_fd es"
  shows "tables_agree lfd b' q"
proof -
  from assms(1) fd_rep_unique [OF assms(2)]
  have "es \<noteq> []" "p_fd (hd es) = lfd" "fds_of es = add_mset lfd (conn_fds q)"
    by (auto simp: tables_agree_def)
  moreover from this(1) assms(4) have "es' \<noteq> []" "p_fd (hd es') = p_fd (hd es)"
    by (metis list.map_disc_iff, metis hd_map list.map_disc_iff)
  ultimately show ?thesis
    using assms(3) fds_of_map [OF assms(4)] by (auto simp: tables_agree_def)
qed

definition round_bound :: "nat \<Rightarrow> int" where
  "round_bound k = 16 + 4 * int k"

definition round_inv :: "bool \<Rightarrow> int \<Rightarrow> nat \<Rightarrow> fd_buffer \<times> conns \<Rightarrow> log \<Rightarrow> bool" where
  "round_inv x lfd k s h \<longleftrightarrow> srv_inv x lfd (fst s) (snd s) h \<and> b_size (fst s) \<le> round_bound k
     \<and> length (snd s) \<le> k"

definition sized_inv :: "bool \<Rightarrow> int \<Rightarrow> int \<Rightarrow> nat \<Rightarrow> fd_buffer \<times> conns \<Rightarrow> log \<Rightarrow> bool" where
  "sized_inv x lfd z k s h \<longleftrightarrow> srv_inv x lfd (fst s) (snd s) h \<and> b_size (fst s) \<le> z \<and> length (snd s) \<le> k"

lemma wp_event_round_sized:
  assumes inv: "sized_inv x lfd z k s h"
    and bounds: "z \<le> 2 ^ 27" "z \<le> z'" "4 * int k + 6 \<le> z'" "z' \<le> 2 ^ 28" "int k \<le> 2 ^ 24"
    and os: "lawful os" "memory_ok os" and tim: "x \<Longrightarrow> timers_ok os"
  shows "wp (event_round s) (\<lambda>r h'. case r of Again s' \<Rightarrow> sized_inv x lfd z' (Suc k) s' h'
      | Leave _ \<Rightarrow> sized_inv x lfd z k s h') clean_stop os h"
proof -
  obtain b q where s: "s = (b, q)" by (cases s)
  have inv0: "srv_inv x lfd b q h" and size: "b_size b \<le> z" "length q \<le> k"
    using inv by (simp_all add: s sized_inv_def)
  from inv0 obtain es where es: "fd_rep b es" "es \<noteq> []" by (auto simp: srv_inv_def tables_agree_def)
  have all: "wp (process_all q2 b2 q2) (\<lambda>s' h'. sized_inv x lfd z' (Suc k) s' h') clean_stop os h2"
    if "srv_inv x lfd b2 q2 h2" "b_size b2 \<le> z'" "length q2 \<le> Suc k" for b2 q2 h2
    by (rule wp_mono [OF wp_process_all [where ?q1.0 = "[]", OF _ _ os(1), unfolded append_Nil]])
      (use that bounds in \<open>auto simp: sized_inv_def\<close>)
  show ?thesis
    unfolding event_round_def s prod.case wp_thenp wp_put_out
    apply (intro allI impI)
    apply (subst wp_bindp)
  proof (rule wp_mypoll [OF es(1) os(1)], goal_cases)
    case (1 a0 a)
    then show ?case
      using inv0 size srv_inv_poll [OF srv_inv_print(1) [OF inv0] es(1)]
      by (auto simp: wp_simps sized_inv_def s)
  next
    case (2 a0 a b1 es')
    then have ag: "tables_agree lfd b1 q"
      using tables_agree_polled [OF _ es(1)] inv0 by (auto simp: srv_inv_def)
    let ?h1 = "(PollCall (map (\<lambda>p. (p_fd p, p_events p)) es) (- 1), a) #
        (Out (fmt [''Processing event loop...'', [LF]]), a0) # h"
    have inv1: "srv_inv x lfd b1 q ?h1"
      by (rule srv_inv_other_table [OF srv_inv_poll [OF srv_inv_print(1) [OF inv0] es(1)] ag 2(7)])
    have "es' \<noteq> []" using 2(5) es(2) by auto
    then have cell: "read_cell (b_cells b1) 0 = ret (es' ! 0)"
      using 2(6) by (intro read_cell_rep) (auto simp: fd_rep_def)
    have size1: "b_size b1 \<le> z" using 2(8) size by simp
    have acc: "wp (if p_revents (es' ! 0) AND POLLIN \<noteq> 0 then accept_connection b1 q else ret (b1, q))
        (\<lambda>(b2, q2) h'. srv_inv x lfd b2 q2 h' \<and> b_size b2 \<le> z' \<and> length q2 \<le> Suc k)
        clean_stop os ?h1"
    proof (cases "p_revents (es' ! 0) AND POLLIN \<noteq> 0")
      case True
      have "int (length q) \<le> 2 ^ 24" using size bounds(5) by linarith
      then show ?thesis
        using True size1 size bounds
        by (auto intro!: wp_mono [OF wp_accept_connection [OF inv1 _ _ os tim]])
    next
      case False
      then show ?thesis
        using inv1 size1 size bounds by (simp add: wp_ret)
    qed
    show ?case
      using 2(3) cell acc
      by (auto simp: wp_simps not_less intro!: wp_mono [OF all] elim!: wp_mono)
  qed
qed

lemma round_sized: "round_inv x lfd k s h \<longleftrightarrow> sized_inv x lfd (round_bound k) k s h"
  by (simp add: round_inv_def sized_inv_def)

lemma wp_event_round:
  assumes "round_inv x lfd k s h" and "k < 2 ^ 24"
    and "lawful os" "memory_ok os" and "x \<Longrightarrow> timers_ok os"
  shows "wp (event_round s) (\<lambda>r h'. case r of Again s' \<Rightarrow> round_inv x lfd (Suc k) s' h'
      | Leave _ \<Rightarrow> round_inv x lfd k s h') clean_stop os h"
  unfolding round_sized
  by (rule wp_event_round_sized) (use assms in \<open>auto simp: round_sized round_bound_def\<close>)

text \<open>Without a bound on the rounds: the array keeps its size as long as no more than \<open>B\<close>
  connections are open at once. \<open>crowded\<close> says that there once were more blocks than that.\<close>

definition crowded :: "nat \<Rightarrow> log \<Rightarrow> bool" where
  "crowded B h \<longleftrightarrow> (\<exists>new old ps. h = new @ old \<and> distinct ps \<and> B < length ps \<and> Block ` set ps \<subseteq> live old)"

lemma crowded_grows: "crowded B h \<Longrightarrow> crowded B (evs @ h)"
  unfolding crowded_def by (metis append.assoc)

lemma crowded_Cons: "crowded B h \<Longrightarrow> crowded B (e # h)"
  using crowded_grows [of B h "[e]"] by simp

lemma wp_crowded:
  assumes "grows m" and "crowded B h"
  shows "wp m (\<lambda>r h'. crowded B h') (\<lambda>s h'. crowded B h') os h"
proof -
  obtain evs where "snd (m os h) = evs @ h" using assms(1) by (auto simp: grows_def)
  with crowded_grows [OF assms(2), of evs] show ?thesis by (auto simp: wp_def split: prod.splits outcome.splits)
qed

lemma conn_blocks:
  assumes "distinct (conn_res q)" and "set (conn_res q) \<subseteq> L"
  shows "distinct (map fst q) \<and> Block ` set (map fst q) \<subseteq> L"
  using assms
proof (induction q)
  case (Cons e q)
  then show ?case using conn_res_block [of "fst e" q] by (cases e) auto
qed simp

lemma srv_inv_crowded:
  assumes "srv_inv x lfd b q h" and "B < length q"
  shows "crowded B h"
proof -
  have "distinct (map fst q) \<and> Block ` set (map fst q) \<subseteq> live h"
    by (rule conn_blocks) (use assms(1) in \<open>auto simp: srv_inv_def owned_def\<close>)
  with assms(2) show ?thesis unfolding crowded_def by (metis append_Nil length_map)
qed

definition MAX_CROWD :: nat where
  "MAX_CROWD = 2 ^ 24"

lemma MAX_CROWD_int: "int MAX_CROWD = 2 ^ 24"
  by (simp add: MAX_CROWD_def)

definition main_inv :: "int \<Rightarrow> fd_buffer \<times> conns \<Rightarrow> log \<Rightarrow> bool" where
  "main_inv lfd s h \<longleftrightarrow> crowded MAX_CROWD h \<or> sized_inv False lfd (4 * 2 ^ 24 + 6) MAX_CROWD s h"

lemma grows_table: "grows (insert_fd p b)" "grows (mypoll b)" "grows (find_fd fd b)"
proof -
  have fwd: "grows (scan_fwd fd cells i n)" for cells i n
    by (induction n arbitrary: i) (auto intro!: grows_intros grows_read_cell)
  have entries: "grows (read_entries cells n)" for cells n
    by (induction n) (auto intro!: grows_intros grows_read_cell)
  show "grows (insert_fd p b)" unfolding insert_fd_def append_fd_def by (intro grows_intros)
  show "grows (mypoll b)" unfolding mypoll_def by (intro grows_intros entries)
  show "grows (find_fd fd b)" unfolding find_fd_def by (rule fwd)
qed

lemma grows_event_round: "grows (event_round s)"
proof -
  have serve: "grows (process_connection e b q)" for e b q
    unfolding process_connection_def service_client_def refresh_timer_def c_strstr_def c_string_def recv_non_block_def send_non_block_def
      perror_def put_err_def put_out_def
    by (intro grows_intros grows_drop grows_read_cell grows_table)
  have all: "grows (process_all es b q)" for es b q
    by (induction es arbitrary: b q) (auto intro!: grows_intros serve)
  show ?thesis
    unfolding event_round_def accept_connection_def create_non_blocking_timer_def register_fds_def insert_connection_def perror_def put_err_def put_out_def
    by (intro grows_intros all grows_table grows_read_cell)
qed

lemma wp_event_round_any:
  assumes "main_inv lfd s h" and os: "lawful os" "memory_ok os"
  shows "wp (event_round s) (\<lambda>r h'. case r of Again s' \<Rightarrow> main_inv lfd s' h' | Leave _ \<Rightarrow> crowded MAX_CROWD h' \<or> disciplined h' \<and> Fd lfd \<in> live h')
    (\<lambda>e h'. crowded MAX_CROWD h' \<or> clean_stop e h') os h"
proof (cases "crowded MAX_CROWD h")
  case True
  show ?thesis
    by (rule wp_mono [OF wp_crowded [OF grows_event_round True]]) (auto simp: main_inv_def split: iter.splits)
next
  case False
  let ?z = "4 * 2 ^ 24 + 6 :: int"
  from False assms(1) have inv: "sized_inv False lfd ?z MAX_CROWD s h" by (simp add: main_inv_def)
  have again: "main_inv lfd s' h'" if "sized_inv False lfd ?z (Suc MAX_CROWD) s' h'" for s' h'
    using that srv_inv_crowded [of False lfd "fst s'" "snd s'" h' MAX_CROWD]
    by (cases "length (snd s') \<le> MAX_CROWD") (auto simp: main_inv_def sized_inv_def)
  have "wp (event_round s) (\<lambda>r h'. case r of Again s' \<Rightarrow> sized_inv False lfd ?z (Suc MAX_CROWD) s' h'
      | Leave _ \<Rightarrow> sized_inv False lfd ?z MAX_CROWD s h') clean_stop os h"
    by (rule wp_event_round_sized [OF inv _ _ _ _ _ os]) (simp_all add: MAX_CROWD_int)
  then show ?thesis
    by (rule wp_mono) (use again in \<open>auto simp: sized_inv_def srv_inv_def owned_def split: iter.splits\<close>)
qed

lemma socket_law:
  assumes "lawful os" and "answers os h (Socket d t p) a"
  shows "- 1 \<le> a_ret a \<and> (a_ret a < 0 \<longrightarrow> 0 < a_errno a) \<and> (0 \<le> a_ret a \<longrightarrow> Fd (a_ret a) \<notin> live h)"
  using lawfulD [OF assms] fresh_socket [OF assms] by (auto simp: answer_ok_def sane_status_def)

lemma status_law:
  assumes "lawful os" and "answers os h c a"
    and "case c of SetSockOpt _ _ _ \<Rightarrow> True | Bind _ _ _ \<Rightarrow> True | Listen _ _ \<Rightarrow> True
      | Connect _ _ _ \<Rightarrow> True | Fcntl _ _ _ \<Rightarrow> True | _ \<Rightarrow> False"
  shows "- 1 \<le> a_ret a \<and> (a_ret a < 0 \<longrightarrow> 0 < a_errno a)"
  using assms(3) lawfulD [OF assms(1,2)]
  by (cases c) (auto simp: answer_ok_def sane_status_def)

text \<open>What \<open>listen_on_ipv4_tcp_socket\<close> promises.\<close>

lemma wp_listen:
  assumes os: "lawful os" and d: "disciplined h"
    and ok: "\<And>s h'. 0 \<le> s \<Longrightarrow> Fd s \<notin> live h \<Longrightarrow> live h' = insert (Fd s) (live h) \<Longrightarrow> disciplined h' \<Longrightarrow>
      Q (0, Some s) h'"
    and fail: "\<And>n h'. 0 < n \<Longrightarrow> disciplined h' \<Longrightarrow> Q (n, None) h'"
  shows "wp (listen_on_ipv4_tcp_socket addr port) Q E os h"
  unfolding listen_on_ipv4_tcp_socket_def wp_bindp wp_sys
proof (intro allI impI, goal_cases)
  case (1 s)
  note s = socket_law [OF os 1]
  show ?case
  proof (cases "a_ret s = - 1")
    case True
    with s d show ?thesis by (auto simp: wp_simps res_simps intro!: fail)
  next
    case False
    with s have s0: "0 \<le> a_ret s" "Fd (a_ret s) \<notin> live h" by auto
    let ?h1 = "(Socket AF_INET SOCK_STREAM 0, s) # h"
    have "0 < a_errno a" if "answers os h' c a" "a_ret a = - 1"
      "c = SetSockOpt f l n \<or> c = Bind f ad ln \<or> c = Listen f bl" for h' c a f l n ad ln bl
      using status_law [OF os that(1)] that(2,3) by (auto split: call.splits)
    with False s0 d show ?thesis
      by (auto simp: wp_simps res_simps intro!: fail ok)
  qed
qed

lemma wp_set_non_blocking:
  assumes "\<And>r h'. live h' = live h \<Longrightarrow> disciplined h' \<Longrightarrow> Q r h'" and "disciplined h" and "fd_res f \<subseteq> live h"
  shows "wp (set_non_blocking f) Q E os h"
  using assms(2,3) by (auto simp: set_non_blocking_def wp_simps res_simps intro!: assms(1))

lemma fd_rep_functional: "fd_rep b es \<Longrightarrow> es \<noteq> [] \<Longrightarrow> p_fd (hd es) = lfd \<Longrightarrow> length es = 1 \<Longrightarrow> tables_agree lfd b []"
  by (cases es) (auto simp: tables_agree_def)

lemma wp_server_main:
  assumes os: "lawful os" "memory_ok os"
  shows "wp (server_main n) (\<lambda>r h. crowded MAX_CROWD h \<or> r = 0 \<and> disciplined h)
    (\<lambda>e h. crowded MAX_CROWD h \<or> clean_stop e h) os []"
  unfolding server_main_def wp_thenp wp_put_out
  apply (intro allI impI)
  apply (subst wp_bindp)
proof (rule wp_listen [OF os(1)], goal_cases)
  case (1 a0)
  then show ?case by (simp add: res_simps)
next
  case (2 a0 lfd h1)
  then have lfd: "0 \<le> lfd" "2 < lfd" "live h1 = insert (Fd lfd) std_fds"
    by (auto simp: res_simps)
  show ?case
    apply (simp add: getp_def)
    apply (subst wp_bindp)
  proof (rule wp_set_non_blocking, goal_cases)
    case (1 r h2)
    then have h2: "live h2 = insert (Fd lfd) std_fds" "disciplined h2" using lfd by auto
    have start: "round_inv False lfd 0 (b1, []) ((Malloc 128, a) # h2)"
      if "fd_rep b1 [\<lparr>p_fd = lfd, p_events = POLLIN, p_revents = 0\<rparr>]" "b_ptr b1 = a_ptr a" "b_size b1 = 16"
        "a_ptr a \<noteq> 0" for b1 a
      using that h2 lfd
      by (auto simp: round_inv_def round_bound_def srv_inv_def tables_agree_def owned_def res_simps)
    have run: "wp (loop n event_round (b1, [])) (\<lambda>_ h. crowded MAX_CROWD h \<or> disciplined h \<and> Fd lfd \<in> live h)
        (\<lambda>e h. crowded MAX_CROWD h \<or> clean_stop e h) os h3"
      if "round_inv False lfd 0 (b1, []) h3" for b1 h3
    proof (rule wp_loop [where I = "main_inv lfd"], goal_cases)
      case (1 s h)
      show ?case by (rule wp_mono [OF wp_event_round_any [OF 1 os]]) (auto split: iter.splits)
    next
      case (2 s h)
      then show ?case by (auto simp: main_inv_def sized_inv_def srv_inv_def)
    next
      case 3
      show ?case using that by (simp add: main_inv_def round_inv_def sized_inv_def round_bound_def)
    qed
    show ?case
      apply (subst wp_bindp)
      apply (rule wp_init_fds_queue [OF _ os])
       apply (simp add: fds_buf0_def)
      apply (simp add: init_cons_queue_def)
      apply (subst wp_bindp)
      apply (rule wp_insert_fd [OF _ _ os(2)], assumption)
        apply (simp add: fd_small_def)
       apply simp
       apply (subst wp_bindp)
       apply (rule wp_mono [OF run [OF start]])
            apply (auto simp: wp_simps round_inv_def srv_inv_def owned_def res_simps dest: crowded_Cons)
      done
  qed (use 2 in auto)
next
  case (3 a0 e h1)
  then show ?case by (simp add: wp_simps res_simps)
qed

section \<open>When the server speaks\<close>

text \<open>The rule for \<open>send\<close>: only \<open>pong\<close>, and only in answer to what was just received on the
  same socket, which holds \<open>ping\<close>. Between the two there is one line of output.\<close>

definition asked :: "int \<Rightarrow> log \<Rightarrow> bool" where
  "asked f h = (case h of
      (Out _, _) # (Recv g n fl, r) # _ \<Rightarrow>
        g = f \<and> 0 < a_ret r \<and> strstr_at (cstr (a_buf r)) ''ping'' \<noteq> None
    | _ \<Rightarrow> False)"

definition pong_rule :: "log \<Rightarrow> call \<Rightarrow> bool" where
  "pong_rule h c = (case c of Send f b fl \<Rightarrow> b = ''pong'' \<and> asked f h | _ \<Rightarrow> True)"

lemma traced_service_client:
  assumes os: "lawful os"
  shows "traced os pong_rule (service_client fd)"
proof (rule traced_wp)
  fix h
  show "wp (service_client fd) (\<lambda>_ h'. \<exists>evs. h' = evs @ h \<and> trace_ok pong_rule evs h)
      (\<lambda>_ h'. \<exists>evs. h' = evs @ h \<and> trace_ok pong_rule evs h) os h"
    unfolding service_client_def
    apply (subst wp_bindp)
  proof (rule wp_recv_non_block [OF os], goal_cases)
    case (4 a buf w)
    let ?w = "Out (fmt [''Read '', dec (a_ret a), '' bytes from '', dec fd, '': '', cstr (a_buf a), [LF]])"
    show ?case
    proof (cases "strstr_at (cstr (a_buf a)) ''ping''")
      case None
      with 4(2,4,5) show ?thesis
        by (auto simp: wp_simps pong_rule_def intro!: exI [of _ "[_, _]"])
    next
      case (Some i)
      show ?thesis
        using 4(2,4,5) Some
        apply (simp add: wp_simps)
        apply (rule wp_send_non_block [OF os])
          apply (use 4(2) Some in \<open>auto simp: wp_simps pong_rule_def asked_def intro!: exI [of _ "[_, _, _, _]"]\<close>)[1]
         apply (use 4(2) Some in \<open>auto simp: wp_simps pong_rule_def asked_def intro!: exI [of _ "[_, _, _]"]\<close>)[1]
        apply (use 4(2) Some in \<open>auto simp: wp_simps pong_rule_def asked_def intro!: exI [of _ "[_, _, _, _]"]\<close>)[1]
        done
    qed
  qed (auto simp: wp_simps pong_rule_def intro!: exI [of _ "[_, _]"] exI [of _ "[_]"])
qed

lemma traced_table:
  "traced os pong_rule (read_cell cells i)" "traced os pong_rule (remove_fd fd b)"
  "traced os pong_rule (insert_fd e b)" "traced os pong_rule (find_fd fd b)" "traced os pong_rule (mypoll b)"
proof -
  show cell: "traced os pong_rule (read_cell cells i)" for cells i
    unfolding read_cell_def by (intro traced_intros)
  have "traced os pong_rule (scan_back fd cells n)" for cells n
    by (induction n) (auto intro!: traced_intros cell)
  moreover have "traced os pong_rule (shift_down cells i n)" for cells i n
    by (induction n arbitrary: cells i) (auto intro!: traced_intros cell)
  ultimately show "traced os pong_rule (remove_fd fd b)"
    unfolding remove_fd_def shrink_fds_def by (intro traced_intros) (auto simp: pong_rule_def)
  show "traced os pong_rule (insert_fd e b)"
    unfolding insert_fd_def append_fd_def by (intro traced_intros) (auto simp: pong_rule_def)
  have "traced os pong_rule (scan_fwd fd cells i n)" for cells i n
    by (induction n arbitrary: i) (auto intro!: traced_intros cell)
  then show "traced os pong_rule (find_fd fd b)" by (simp add: find_fd_def)
  have "traced os pong_rule (read_entries cells n)" for cells n
    by (induction n) (auto intro!: traced_intros cell)
  then show "traced os pong_rule (mypoll b)"
    unfolding mypoll_def by (intro traced_intros) (auto simp: pong_rule_def)
qed

lemma traced_process_connection:
  "lawful os \<Longrightarrow> traced os pong_rule (process_connection e b q)"
  unfolding process_connection_def drop_connection_def remove_connection_def stailq_remove_def
    refresh_timer_def put_out_def
  by (intro traced_intros traced_table traced_service_client) (auto simp: pong_rule_def)

lemma traced_server_main:
  assumes "lawful os"
  shows "traced os pong_rule (server_main n)"
proof -
  have all: "traced os pong_rule (process_all es b q)" for es b q
    by (induction es arbitrary: b q) (auto intro!: traced_intros traced_process_connection assms)
  show ?thesis
    unfolding server_main_def listen_on_ipv4_tcp_socket_def set_non_blocking_def init_fds_queue_def
      event_round_def accept_connection_def create_non_blocking_timer_def register_fds_def
      insert_connection_def perror_def put_err_def put_out_def
    by (intro traced_intros traced_table all) (auto simp: pong_rule_def)
qed

section \<open>Properties\<close>

text \<open>
  C1: The server of \<open>server.c\<close> never fails an assertion and never runs into undefined
  behaviour, and it never uses or closes a descriptor, and never frees a block, that is not
  live, whatever its clients, the kernel and the network do, for every number of rounds, until
  more than \<open>MAX_CROWD\<close> connections, 2 to the 24th, have been open at one time (beyond which a size
  computation of the descriptor array could wrap). The environment is assumed to be lawful and
  not to run out of memory.
\<close>

theorem timeout_server_safe:
  assumes "lawful os" and "memory_ok os"
  shows "safe_run (server_main n os []) \<or> crowded MAX_CROWD (snd (server_main n os []))"
  using wp_server_main [OF assms, of n]
  by (auto simp: wp_def safe_run_def clean_stop_def split: prod.splits outcome.splits)

theorem timeout_server_safe_witness:
  "safe_run (server_main 1000 (sim_os [''ping'', ''quit'']) [])
    \<or> crowded MAX_CROWD (snd (server_main 1000 (sim_os [''ping'', ''quit'']) []))"
  by (rule timeout_server_safe) (simp_all add: lawful_sim_os memory_ok_sim_os)

text \<open>
  C2: No leak. If the connection list and the descriptor table agree and everything that is
  live is accounted for (the standard descriptors, the listening socket, the array, and two
  descriptors and one list element per connection), then the same holds after a round of the
  event loop, in which one client can come and any number can go.
\<close>

theorem event_round_no_leak:
  assumes "round_inv True lfd k s h" and "k < 2 ^ 24" and "lawful os" and "memory_ok os" and "timers_ok os"
  shows "wp (event_round s) (\<lambda>r h'. case r of Again s' \<Rightarrow> round_inv True lfd (Suc k) s' h'
      | Leave _ \<Rightarrow> round_inv True lfd k s h') clean_stop os h"
  by (rule wp_event_round [OF assms(1-4)]) (rule assms(5))

text \<open>A server with one client: the listening socket is 3, the client's socket 6 and its timer
  7, and poll has reported \<open>cr\<close> and \<open>tr\<close> for the two.\<close>

definition one_client_fds :: "int \<Rightarrow> int \<Rightarrow> pollfd list" where
  "one_client_fds cr tr = [\<lparr>p_fd = 3, p_events = POLLIN, p_revents = 0\<rparr>,
     \<lparr>p_fd = 6, p_events = POLLIN, p_revents = cr\<rparr>, \<lparr>p_fd = 7, p_events = POLLIN, p_revents = tr\<rparr>]"

definition one_client_buf :: "int \<Rightarrow> int \<Rightarrow> fd_buffer" where
  "one_client_buf cr tr = \<lparr>b_size = 16, b_len = 3, b_ptr = 5,
     b_cells = map Some (one_client_fds cr tr) @ replicate 13 None\<rparr>"

definition one_client :: "int \<times> connection" where
  "one_client = (8, \<lparr>conn_fd = 6, timer_fd = 7\<rparr>)"

definition one_client_log :: log where
  "one_client_log = [(Malloc 16, (plain 0)\<lparr>a_ptr := 8\<rparr>), (TimerfdCreate 0 2048, plain 7), (Accept 3, plain 6),
     (Malloc 128, (plain 0)\<lparr>a_ptr := 5\<rparr>), (Socket 2 1 0, plain 3)]"

lemma one_client_rep: "fd_rep (one_client_buf cr tr) (one_client_fds cr tr)"
  by (simp add: fd_rep_def one_client_buf_def one_client_fds_def)

lemma one_client_inv: "srv_inv True 3 (one_client_buf cr tr) [one_client] one_client_log"
proof -
  have "tables_agree 3 (one_client_buf cr tr) [one_client]"
    unfolding tables_agree_def
    by (intro exI [of _ "one_client_fds cr tr"] conjI one_client_rep)
      (simp_all add: one_client_fds_def one_client_def)
  then show ?thesis
    by (simp add: srv_inv_def owned_def one_client_def one_client_buf_def one_client_log_def
        fd_list_def res_simps)
qed

theorem event_round_no_leak_witness:
  "wp (event_round (one_client_buf 0 1, [one_client]))
     (\<lambda>r h'. case r of Again s' \<Rightarrow> round_inv True 3 (Suc 1) s' h'
        | Leave _ \<Rightarrow> round_inv True 3 1 (one_client_buf 0 1, [one_client]) h')
     clean_stop (sim_os [''ping'']) one_client_log"
  by (rule event_round_no_leak)
    (simp_all add: lawful_sim_os memory_ok_sim_os timers_ok_sim_os round_inv_def one_client_inv
      round_bound_def, simp add: one_client_buf_def)

text \<open>
  C4: The server sends nothing but \<open>pong\<close>, and sends it only directly after it has received a
  message that contains \<open>ping\<close> on the same socket: every call of every run obeys the rule.
\<close>

theorem pong_only_when_asked:
  assumes "lawful os"
  shows "trace_ok pong_rule (snd (server_main n os [])) []"
  by (rule traced_run) (rule traced_server_main [OF assms])

theorem pong_only_when_asked_witness:
  "trace_ok pong_rule (snd (server_main 7 (sim_os [''ping'']) [])) []"
  by (rule pong_only_when_asked) (rule lawful_sim_os)

text \<open>
  C3: One visit to a connection implements the contract \<open>fate_of\<close>. With activity on the
  socket, the client is served and its timer is armed again, and a timer that has fired in
  the same poll is ignored: the connection is kept, or dropped when the client has closed or
  nothing could be sent. Without activity it is dropped exactly if its timer has fired.
  Dropping closes its two descriptors, frees its element and touches nothing else. The
  process ends, with the error number, exactly if a \<open>recv\<close> or \<open>send\<close> failed.
\<close>

theorem connection_fate:
  assumes "srv_inv x lfd b (q1 @ e # q2) h" and "fd_rep b es" and "b_size b \<le> 2 ^ 28" and "lawful os"
  shows "wp (process_connection e b (q1 @ e # q2)) (visited x lfd q1 e q2 es (b_size b) h)
      (\<lambda>s h'. \<exists>evs n. h' = evs @ h \<and> s = Exit n \<and> 0 < n \<and> disciplined h' \<and>
        fate_of evs (conn_fd (snd e)) (revents_of (conn_fd (snd e)) es) (revents_of (timer_fd (snd e)) es) = Die)
      os h"
  by (rule wp_process_connection [OF assms])

theorem connection_fate_witness:
  "\<exists>b h'. process_connection one_client (one_client_buf 0 1) [one_client] (sim_os []) one_client_log = (Done (b, []), h')
     \<and> live h' = {Fd 0, Fd 1, Fd 2, Fd 3, Block 5}"
proof -
  let ?r = "process_connection one_client (one_client_buf 0 1) [one_client] (sim_os []) one_client_log"
  have rev: "revents_of 6 (one_client_fds 0 1) = 0" "revents_of 7 (one_client_fds 0 1) = 1"
    by (simp_all add: revents_of_def one_client_fds_def)
  have fate: "fate_of evs 6 0 1 = Drop" for evs
    by (simp add: fate_of_def woken_def)
  have b: "b_size (one_client_buf 0 1) \<le> 2 ^ 28" by (simp add: one_client_buf_def)
  have l: "live one_client_log = {Fd 0, Fd 1, Fd 2, Fd 3, Block 5, Fd 6, Fd 7, Block 8}"
    by (auto simp: one_client_log_def res_simps)
  from connection_fate [where ?q1.0 = "[]" and ?q2.0 = "[]", unfolded append_Nil, OF one_client_inv one_client_rep b lawful_sim_os [of "[]"]]
  have "wp (process_connection one_client (one_client_buf 0 1) [one_client])
      (\<lambda>s h'. snd s = [] \<and> live h' = {Fd 0, Fd 1, Fd 2, Fd 3, Block 5}) (\<lambda>_ _. False) (sim_os []) one_client_log"
  proof (rule wp_mono, goal_cases)
    case (1 s h')
    have "{Fd 0, Fd 1, Fd 2, Fd 3, Block 5, Fd 6, Fd 7, Block 8} - {Fd 6} - {Fd 7} - {Block 8}
        = {Fd 0, Fd 1, Fd 2, Fd 3, Block 5}" by auto
    with 1 show ?case by (simp add: visited_def one_client_def rev fate l [unfolded one_client_def])
  next
    case (2 s h')
    then show ?case by (simp add: one_client_def rev fate)
  qed
  then show ?thesis
    by (cases ?r; cases "fst ?r") (auto simp: wp_def prod_eq_iff)
qed

text \<open>
  A client can end the server for everyone: when \<open>recv\<close> on a readable client socket fails
  (a connection reset, say), \<open>main\<close> returns the error number instead of dropping the client.
\<close>

theorem failing_recv_ends_server:
  assumes "fd_rep b es" and "conn_fd (snd e) \<in># fds_of es" and "timer_fd (snd e) \<in># fds_of es"
    and "woken (revents_of (conn_fd (snd e)) es)"
    and "a_ret (os h (Recv (conn_fd (snd e)) 1023 0)) < 0" and "0 < a_errno (os h (Recv (conn_fd (snd e)) 1023 0))"
  shows "fst (process_connection e b q os h) = Stop (Exit (a_errno (os h (Recv (conn_fd (snd e)) 1023 0))))"
proof -
  let ?c = "conn_fd (snd e)" and ?t = "timer_fd (snd e)"
  obtain i where i: "find_fd ?c b = ret (Some i)" "i < length es" "revents_of ?c es = p_revents (es ! i)"
    using first_index_entry [OF assms(2)] find_fd_rep [OF assms(1), of ?c] by auto
  obtain j where j: "find_fd ?t b = ret (Some j)"
    using first_index_entry [OF assms(3)] find_fd_rep [OF assms(1), of ?t] by auto
  have "read_cell (b_cells b) i = ret (es ! i)"
    using assms(1) i by (simp add: fd_rep_def read_cell_rep)
  then show ?thesis
    using assms(4-6) i j
    by (simp add: process_connection_def service_client_def recv_non_block_def perror_def put_err_def
        bindp_def thenp_def ret_def halt_def sys_def assertp_def Let_def)
qed

definition reset_os :: os where
  "reset_os h c = (case c of Recv _ _ _ \<Rightarrow> (plain (- 1))\<lparr>a_errno := 104\<rparr> | _ \<Rightarrow> sim_os [] h c)"

theorem failing_recv_ends_server_witness:
  "fst (process_connection one_client (one_client_buf 1 0) [one_client] reset_os one_client_log) = Stop (Exit 104)"
  using failing_recv_ends_server [OF one_client_rep [of 1 0], of one_client reset_os one_client_log "[one_client]"]
  by (simp add: one_client_def one_client_fds_def revents_of_def woken_def reset_os_def)

end
