(* ===== verification/Tcp_Setup.thy ===== *)
theory Tcp_Setup
  imports Posix
begin

text \<open>
  What the programs of \<open>00_tutorials\<close> have in common: a server resolves its address, opens a
  socket, binds and listens; a client resolves, opens and connects. The files repeat this
  code with other messages, another option call and another order of clean-up; a
  configuration record holds the differences, and every file has its own configuration in
  its own theory.

  \<open>wp_open_listener\<close> and \<open>wp_open_connection\<close> say that on every path the code either hands
  over a socket and an address list that were not in use before, or has given back whatever
  it had acquired.
\<close>

section \<open>Pieces\<close>

abbreviation (input) TCP_PORT :: "16 word" where "TCP_PORT \<equiv> 45123"
abbreviation (input) MESSAGE_SIZE :: nat where "MESSAGE_SIZE \<equiv> 1024"

text \<open>What differs between the protocols: how errors are reported, the name of the protocol,
  the type of the socket and the number that is printed as the port.\<close>

record resolver =
  r_report :: "bytes \<Rightarrow> unit prog"
  r_proto :: bytes
  r_type :: int
  r_port :: int

definition tcp_resolver :: resolver where
  "tcp_resolver = \<lparr>r_report = report_error, r_proto = ''tcp'', r_type = SOCK_STREAM,
     r_port = uint (htons TCP_PORT)\<rparr>"

text \<open>\<open>char server_port[6]; memset(...); sprintf(server_port, "%d", ...);\<close>\<close>

definition port_text :: "int \<Rightarrow> bytes prog" where
  "port_text port = sprintf_to (zeros 6) (dec port)"

definition inet_hints :: "int \<Rightarrow> int \<Rightarrow> int \<Rightarrow> addrinfo" where
  "inet_hints flags type proto = zero_addrinfo\<lparr>ai_family := AF_INET, ai_socktype := type,
     ai_protocol := proto, ai_flags := flags\<rparr>"

abbreviation (input) tcp_hints :: "int \<Rightarrow> int \<Rightarrow> addrinfo" where
  "tcp_hints flags proto \<equiv> inet_hints flags SOCK_STREAM proto"

text \<open>The walk over the addresses with \<open>bind\<close> or \<open>connect\<close>; the result is the last \<open>rc\<close>.\<close>

fun bind_all :: "int \<Rightarrow> addrinfo list \<Rightarrow> int \<Rightarrow> int prog" where
  "bind_all s [] rc = ret rc"
| "bind_all s (p # ps) rc = bindp (sys (Bind s (ai_addr p) (ai_addrlen p))) (\<lambda>a.
     if a_ret a = 0 then ret 0 else bind_all s ps (a_ret a))"

fun connect_all :: "int \<Rightarrow> addrinfo list \<Rightarrow> int \<Rightarrow> int prog" where
  "connect_all s [] rc = ret rc"
| "connect_all s (p # ps) rc = bindp (sys (Connect s (ai_addr p) (ai_addrlen p))) (\<lambda>a.
     if a_ret a = 0 then ret 0 else connect_all s ps (a_ret a))"

unbundle bit_operations_syntax

definition tut_set_non_blocking :: "int \<Rightarrow> unit prog" where
  "tut_set_non_blocking socket = bindp (sys (Fcntl socket F_GETFL 0)) (\<lambda>flags.
     if a_ret flags = - 1 then report_error ''fcntl(F_GETFL) failed''
     else bindp (sys (Fcntl socket F_SETFL (a_ret flags OR O_NONBLOCK))) (\<lambda>a.
     if a_ret a = - 1 then report_error ''fcntl(F_SETFL) failed'' else ret ()))"

definition tut_set_options :: "int \<Rightarrow> unit prog" where
  "tut_set_options sock_server = bindp (sys (SetSockOpt sock_server SOL_SOCKET (SO_REUSEADDR OR SO_KEEPALIVE))) (\<lambda>a.
     whenp (a_ret a < 0) (report_error ''Server setsockopt() failed''))"

section \<open>Resolving and opening\<close>

text \<open>The part a server and a client share. \<open>Some (addr_server, its list, the socket)\<close>, or
  \<open>None\<close> where the function returns early.\<close>

definition resolve_and_open :: "resolver \<Rightarrow> bytes \<Rightarrow> bytes option \<Rightarrow> int \<Rightarrow> bytes \<Rightarrow> bytes \<Rightarrow>
    (int \<times> addrinfo list \<times> int) option prog" where
  "resolve_and_open rv proto_msg host flags resolve_msg socket_msg =
     bindp (sys (GetProtoByName (r_proto rv))) (\<lambda>proto.
     if a_ptr proto = 0 then thenp (r_report rv proto_msg) (ret None)
     else bindp (port_text (r_port rv)) (\<lambda>port.
     bindp (c_string port) (\<lambda>port_s.
     bindp (sys (GetAddrInfo host port_s (inet_hints flags (r_type rv) (a_ret proto)))) (\<lambda>r.
     if a_ret r \<noteq> 0 then thenp (r_report rv resolve_msg) (ret None)
     else bindp (getp Null_Deref (case a_infos r of [] \<Rightarrow> None | p # _ \<Rightarrow> Some p)) (\<lambda>p.
     bindp (sys (Socket (ai_family p) (ai_socktype p) (ai_protocol p))) (\<lambda>s.
     if a_ret s < 0
     then thenp (r_report rv socket_msg) (thenp (sys (FreeAddrInfo (a_ptr r))) (ret None))
     else ret (Some (a_ptr r, a_infos r, a_ret s))))))))"

text \<open>The clean-up of an error path, in the order of the file.\<close>

definition give_up :: "bool \<Rightarrow> int \<Rightarrow> int \<Rightarrow> unit prog" where
  "give_up close_first sock info =
     (if close_first then thenp (sys (Close sock)) (thenp (sys (FreeAddrInfo info)) (ret ()))
      else thenp (sys (FreeAddrInfo info)) (thenp (sys (Close sock)) (ret ())))"

section \<open>Opening a listener\<close>

record listener_cfg =
  l_proto_msg :: bytes
  l_host :: "bytes option"
  l_flags :: int
  l_resolve_msg :: bytes
  l_prepare :: "int \<Rightarrow> unit prog"
  l_backlog :: int
  l_listen_bad :: "int \<Rightarrow> bool"
  l_close_first :: bool

text \<open>\<open>Some (addr_server, sock_server)\<close>, or \<open>None\<close> where \<open>run_server\<close> returns early.\<close>

definition open_listener :: "listener_cfg \<Rightarrow> (int \<times> int) option prog" where
  "open_listener cfg =
     bindp (resolve_and_open tcp_resolver (l_proto_msg cfg) (l_host cfg) (l_flags cfg) (l_resolve_msg cfg)
       ''Server socket() failed'') (\<lambda>r. case r of None \<Rightarrow> ret None | Some (info, infos, s) \<Rightarrow>
     thenp (l_prepare cfg s)
     (bindp (bind_all s infos 0) (\<lambda>rc.
     if rc \<noteq> 0
     then thenp (report_error ''Server bind() failed'') (thenp (give_up (l_close_first cfg) s info) (ret None))
     else bindp (sys (Listen s (l_backlog cfg))) (\<lambda>l.
     if l_listen_bad cfg (a_ret l)
     then thenp (report_error ''Server listen() failed'') (thenp (give_up (l_close_first cfg) s info) (ret None))
     else ret (Some (info, s))))))"

section \<open>Opening a connection\<close>

record connector_cfg =
  k_proto_msg :: bytes
  k_resolve_msg :: bytes
  k_socket_msg :: bytes
  k_connect_msg :: bytes
  k_close_first :: bool

definition open_connection :: "connector_cfg \<Rightarrow> (int \<times> int) option prog" where
  "open_connection cfg =
     bindp (resolve_and_open tcp_resolver (k_proto_msg cfg) (Some ''localhost'') 0 (k_resolve_msg cfg)
       (k_socket_msg cfg)) (\<lambda>r. case r of None \<Rightarrow> ret None | Some (info, infos, s) \<Rightarrow>
     bindp (connect_all s infos 0) (\<lambda>rc.
     if rc \<noteq> 0
     then thenp (report_error (k_connect_msg cfg)) (thenp (give_up (k_close_first cfg) s info) (ret None))
     else ret (Some (info, s))))"

section \<open>The port\<close>

lemma htons_TCP_PORT: "htons TCP_PORT = 17328"
  by (simp add: htons_def)

lemma dec_port: "dec (uint (htons TCP_PORT)) = ''17328''"
  by (simp add: htons_TCP_PORT dec_def dec_nat.simps digit_def) code_simp

lemma wp_port_text:
  assumes "0 \<le> port" and "port < 10 ^ 5"
  shows "wp (port_text port) Q E os h = Q (overlay (zeros 6) 0 (dec port @ [NUL])) h"
    and "terminated (overlay (zeros 6) 0 (dec port @ [NUL]))"
    and "cstr (overlay (zeros 6) 0 (dec port @ [NUL])) = dec port"
proof -
  have "dec port = dec_nat (nat port)" "nat port < 10 ^ 5" using assms by (simp_all add: dec_def)
  then have "length (dec port) < 6" using dec_nat_length [of "nat port" 5] by simp
  then show "wp (port_text port) Q E os h = Q (overlay (zeros 6) 0 (dec port @ [NUL])) h"
    "terminated (overlay (zeros 6) 0 (dec port @ [NUL]))"
    "cstr (overlay (zeros 6) 0 (dec port @ [NUL])) = dec port"
    by (simp_all add: port_text_def wp_simps terminated_overlay cstr_overlay)
qed

section \<open>What the pieces do to the resources\<close>

lemma quiet_set_non_blocking: "Fd s \<in> live h \<Longrightarrow> 0 \<le> s \<Longrightarrow> disciplined h \<Longrightarrow> quiet (tut_set_non_blocking s) os h"
  by (auto simp: quiet_def tut_set_non_blocking_def wp_simps res_simps)

lemma quiet_set_options: "Fd s \<in> live h \<Longrightarrow> 0 \<le> s \<Longrightarrow> disciplined h \<Longrightarrow> quiet (tut_set_options s) os h"
  by (auto simp: quiet_def tut_set_options_def wp_simps res_simps)

lemma quiet_bind_all: "Fd s \<in> live h \<Longrightarrow> 0 \<le> s \<Longrightarrow> disciplined h \<Longrightarrow> quiet (bind_all s ps rc) os h"
proof (induction ps arbitrary: rc h)
  case Nil
  then show ?case by (simp add: quiet_def wp_simps)
next
  case (Cons p ps)
  have "quiet (bind_all s ps rc') os ((Bind s (ai_addr p) (ai_addrlen p), a) # h)" for a rc'
    using Cons.prems by (intro Cons.IH) (auto simp: res_simps)
  with Cons.prems show ?case by (auto simp: quiet_def wp_simps res_simps)
qed

lemma quiet_connect_all: "Fd s \<in> live h \<Longrightarrow> 0 \<le> s \<Longrightarrow> disciplined h \<Longrightarrow> quiet (connect_all s ps rc) os h"
proof (induction ps arbitrary: rc h)
  case Nil
  then show ?case by (simp add: quiet_def wp_simps)
next
  case (Cons p ps)
  have "quiet (connect_all s ps rc') os ((Connect s (ai_addr p) (ai_addrlen p), a) # h)" for a rc'
    using Cons.prems by (intro Cons.IH) (auto simp: res_simps)
  with Cons.prems show ?case by (auto simp: quiet_def wp_simps res_simps)
qed

lemma wp_give_up:
  assumes "Info p \<in> live h" and "Fd s \<in> live h" and "0 \<le> s" and "disciplined h"
    and "\<And>h'. live h' = live h - {Info p, Fd s} \<Longrightarrow> disciplined h' \<Longrightarrow> Q () h'"
  shows "wp (give_up b s p) Q E os h"
  using assms(1-4) by (auto simp: give_up_def wp_simps res_simps intro!: assms(5))

lemma wp_abandon:
  assumes "Info p \<in> live h" and "Fd s \<in> live h" and "0 \<le> s" and "disciplined h"
    and "\<And>h'. live h' = live h - {Info p, Fd s} \<Longrightarrow> disciplined h' \<Longrightarrow> Q None h'"
  shows "wp (thenp (report_error m) (thenp (give_up b s p) (ret None))) Q E os h"
  unfolding wp_thenp wp_report_error wp_ret
  by (intro allI impI wp_give_up) (use assms in \<open>auto simp: res_simps\<close>)

text \<open>A number that some call of \<open>socket\<close> returns.\<close>

definition opened :: "os \<Rightarrow> int \<Rightarrow> bool" where
  "opened os s \<longleftrightarrow> (\<exists>h d t p. s = a_ret (os h (Socket d t p)))"

lemma openedI: "answers os h (Socket d t p) a \<Longrightarrow> opened os (a_ret a)"
  by (auto simp: opened_def answers_def)

text \<open>A report leaves the resources alone, and the port fits its buffer.\<close>

definition sane_resolver :: "resolver \<Rightarrow> os \<Rightarrow> bool" where
  "sane_resolver rv os \<longleftrightarrow> (\<forall>m h. disciplined h \<longrightarrow> quiet (r_report rv m) os h) \<and>
     0 \<le> r_port rv \<and> r_port rv < 10 ^ 5"

lemma quiet_report_error: "disciplined h \<Longrightarrow> quiet (report_error m) os h"
  by (auto simp: quiet_def wp_simps res_simps)

lemma sane_tcp_resolver: "sane_resolver tcp_resolver os"
  by (simp add: sane_resolver_def tcp_resolver_def quiet_report_error htons_TCP_PORT)

lemma wp_resolve_and_open:
  assumes os: "lawful os" and d: "disciplined h" and rv: "sane_resolver rv os"
    and none: "\<And>h'. live h' = live h \<Longrightarrow> disciplined h' \<Longrightarrow> Q None h'"
    and some: "\<And>p ps s h'. 0 \<le> s \<Longrightarrow> Fd s \<notin> live h \<Longrightarrow> Info p \<notin> live h \<Longrightarrow>
      live h' = insert (Fd s) (insert (Info p) (live h)) \<Longrightarrow> disciplined h' \<Longrightarrow> ps \<noteq> [] \<Longrightarrow> opened os s \<Longrightarrow>
      Q (Some (p, ps, s)) h'"
  shows "wp (resolve_and_open rv m1 host flags m2 m3) Q E os h"
proof -
  have port: "0 \<le> r_port rv" "r_port rv < 10 ^ 5"
    and rep: "\<And>m h. disciplined h \<Longrightarrow> quiet (r_report rv m) os h" using rv by (auto simp: sane_resolver_def)
  have leave: "wp (thenp (r_report rv m) (ret None)) Q E os h1" if "live h1 = live h" "disciplined h1" for m h1
    unfolding wp_thenp by (rule quietD [OF rep]) (use that none in \<open>auto simp: wp_ret\<close>)
  have free: "wp (thenp (r_report rv m) (thenp (sys (FreeAddrInfo p)) (ret None))) Q E os h1"
    if "live h1 = insert (Info p) (live h)" "Info p \<notin> live h" "disciplined h1" for m p h1
    unfolding wp_thenp
    by (rule quietD [OF rep]) (use that none in \<open>auto simp: wp_simps res_simps\<close>)
  show ?thesis
    unfolding resolve_and_open_def wp_bindp [of "sys c" for c] wp_sys
  proof (intro allI impI, goal_cases)
    case (1 pr)
    let ?g = "GetAddrInfo host (dec (r_port rv)) (inet_hints flags (r_type rv) (a_ret pr))"
    have l1: "live ((GetProtoByName (r_proto rv), pr) # h) = live h"
      "disciplined ((GetProtoByName (r_proto rv), pr) # h)" using d by (simp_all add: res_simps)
    have open_it: "wp (if a_ret gi \<noteq> 0 then thenp (r_report rv m2) (ret None)
          else bindp (getp Null_Deref (case a_infos gi of [] \<Rightarrow> None | p # _ \<Rightarrow> Some p)) (\<lambda>p.
            bindp (sys (Socket (ai_family p) (ai_socktype p) (ai_protocol p))) (\<lambda>s.
            if a_ret s < 0
            then thenp (r_report rv m3) (thenp (sys (FreeAddrInfo (a_ptr gi))) (ret None))
            else ret (Some (a_ptr gi, a_infos gi, a_ret s))))) Q E os ((?g, gi) # (GetProtoByName (r_proto rv), pr) # h)"
      if gi: "answers os ((GetProtoByName (r_proto rv), pr) # h) ?g gi" for gi
    proof (cases "a_ret gi = 0")
      case False
      then show ?thesis using leave l1 by (simp add: res_simps)
    next
      case True
      let ?h = "(?g, gi) # (GetProtoByName (r_proto rv), pr) # h"
      from fresh_info [OF os gi True] obtain p ps where p: "a_infos gi = p # ps" and i: "Info (a_ptr gi) \<notin> live h"
        by (cases "a_infos gi") (auto simp: res_simps)
      have l: "live ?h = insert (Info (a_ptr gi)) (live h)" "disciplined ?h"
        using True l1 d by (auto simp: res_simps)
      show ?thesis
        unfolding p using True
      proof (simp add: wp_bindp wp_sys wp_getp wp_if, intro conjI allI impI, goal_cases)
        case (1 s)
        then show ?case using i l by (intro free) (auto simp: res_simps)
      next
        case (2 s)
        from fresh_socket [OF os 2(4)] 2(3) l have "Fd (a_ret s) \<notin> live h" by auto
        with 2 i l openedI [OF 2(4)] show ?case
          unfolding wp_ret by (intro some) (auto simp: acquires_def releases_def needs_def)
      qed
    qed
    show ?case
      using leave l1 open_it port
      by (auto simp: wp_if wp_bindp [of "port_text c" for c] wp_bindp [of "c_string c" for c] wp_c_string wp_port_text
          wp_bindp [of "sys c" for c] wp_sys)
  qed
qed

text \<open>A listener: either both resources are new, or nothing has changed.\<close>

lemma wp_open_listener:
  assumes os: "lawful os" and d: "disciplined h"
    and prep: "\<And>s h'. Fd s \<in> live h' \<Longrightarrow> 0 \<le> s \<Longrightarrow> disciplined h' \<Longrightarrow> quiet (l_prepare cfg s) os h'"
    and none: "\<And>h'. live h' = live h \<Longrightarrow> disciplined h' \<Longrightarrow> Q None h'"
    and some: "\<And>p s h'. 0 \<le> s \<Longrightarrow> Fd s \<notin> live h \<Longrightarrow> Info p \<notin> live h \<Longrightarrow>
      live h' = insert (Fd s) (insert (Info p) (live h)) \<Longrightarrow> disciplined h' \<Longrightarrow> opened os s \<Longrightarrow> Q (Some (p, s)) h'"
  shows "wp (open_listener cfg) Q E os h"
  unfolding open_listener_def
  apply (subst wp_bindp)
proof (rule wp_resolve_and_open [OF os d sane_tcp_resolver], goal_cases)
  case 1
  then show ?case by (simp add: wp_ret none)
next
  case (2 p ps s h1)
  have drop: "wp (thenp (report_error m) (thenp (give_up (l_close_first cfg) s p) (ret None))) Q E os h'"
    if "live h' = live h1" "disciplined h'" for h' m
    by (rule wp_abandon [OF _ _ _ that(2)]) (use 2 that in \<open>auto intro: none\<close>)
  show ?case
    unfolding option.case prod.case
    apply (subst wp_thenp)
    apply (rule quietD [OF prep])
       apply (use 2 in simp_all)[3]
    apply (subst wp_bindp)
    apply (rule quietD [OF quiet_bind_all])
       apply (use 2 in simp_all)[3]
  proof goal_cases
    case (1 _ h2 rc h3)
    then have h3: "live h3 = live h1" "disciplined h3" by simp_all
    show ?case
    proof (cases "rc = 0")
      case True
      have "wp (thenp (report_error m) (thenp (give_up (l_close_first cfg) s p) (ret None))) Q E os
          ((Listen s (l_backlog cfg), a) # h3)" for m a
        using h3 2 by (intro drop) (auto simp: res_simps)
      moreover have "Q (Some (p, s)) ((Listen s (l_backlog cfg), a) # h3)" for a
        using h3 2 by (intro some) (auto simp: res_simps)
      ultimately show ?thesis by (simp add: True wp_bindp wp_sys wp_if wp_ret)
    next
      case False
      with drop [OF h3] show ?thesis by (simp add: wp_if)
    qed
  qed
qed

lemma wp_open_connection:
  assumes os: "lawful os" and d: "disciplined h"
    and none: "\<And>h'. live h' = live h \<Longrightarrow> disciplined h' \<Longrightarrow> Q None h'"
    and some: "\<And>p s h'. 0 \<le> s \<Longrightarrow> Fd s \<notin> live h \<Longrightarrow> Info p \<notin> live h \<Longrightarrow>
      live h' = insert (Fd s) (insert (Info p) (live h)) \<Longrightarrow> disciplined h' \<Longrightarrow> opened os s \<Longrightarrow> Q (Some (p, s)) h'"
  shows "wp (open_connection cfg) Q E os h"
  unfolding open_connection_def
  apply (subst wp_bindp)
proof (rule wp_resolve_and_open [OF os d sane_tcp_resolver], goal_cases)
  case 1
  then show ?case by (simp add: wp_ret none)
next
  case (2 p ps s h1)
  have drop: "wp (thenp (report_error m) (thenp (give_up (k_close_first cfg) s p) (ret None))) Q E os h'"
    if "live h' = live h1" "disciplined h'" for h' m
    by (rule wp_abandon [OF _ _ _ that(2)]) (use 2 that in \<open>auto intro: none\<close>)
  show ?case
    unfolding option.case prod.case
    apply (subst wp_bindp)
    apply (rule quietD [OF quiet_connect_all])
       apply (use 2 in simp_all)[3]
  proof goal_cases
    case (1 rc h2)
    then have h2: "live h2 = live h1" "disciplined h2" by simp_all
    show ?case
    proof (cases "rc = 0")
      case True
      then show ?thesis using h2 2 by (simp add: wp_ret some)
    next
      case False
      with drop [OF h2] show ?thesis by (simp add: wp_if)
    qed
  qed
qed

end
