(* ===== verification/Time_Service.thy ===== *)
theory Time_Service
  imports Tcp_Setup
begin

text \<open>
  What the select server (\<open>12_multiplexing_select_client_server.c\<close>) and the poll server
  (\<open>13_multiplexing_poll_client_server.c\<close>) do alike: greet an accepted client, and answer
  one request of a client with the time.

  The servers receive up to \<open>MESSAGE_SIZE\<close> bytes into an array of \<open>MESSAGE_SIZE\<close> bytes and then
  write a NUL at the index of the count, which is outside the array when the array is full.
  \<open>overrun\<close> is that situation; the theorems about the servers say that it is the only way
  in which they can fail.
\<close>

section \<open>The one way to fail\<close>

text \<open>A read that asks for a whole buffer.\<close>

definition reads_full :: "call \<Rightarrow> bool" where
  "reads_full c \<longleftrightarrow> (case c of Recv _ n _ \<Rightarrow> n = int MESSAGE_SIZE | RecvFrom _ n _ \<Rightarrow> n = int MESSAGE_SIZE
     | SslRead _ n \<Rightarrow> n = int MESSAGE_SIZE | _ \<Rightarrow> False)"

definition overrun :: "stop \<Rightarrow> log \<Rightarrow> bool" where
  "overrun s h \<longleftrightarrow> s = Fault Out_Of_Bounds \<and>
     (\<exists>c a h'. h = (c, a) # h' \<and> reads_full c \<and> a_ret a = int MESSAGE_SIZE)"

definition stop_ok :: "stop \<Rightarrow> log \<Rightarrow> bool" where
  "stop_ok s h \<longleftrightarrow> disciplined h \<and> (clean_stop s h \<or> overrun s h)"

lemma stop_ok_simps [simp]:
  "stop_ok (Exit c) h \<longleftrightarrow> disciplined h" "stop_ok Unfinished h \<longleftrightarrow> disciplined h"
  "\<not> stop_ok Abort h" "\<not> stop_ok (Fault Null_Deref) h" "\<not> stop_ok (Fault Uninitialised) h"
  "\<not> stop_ok (Fault Int_Overflow) h"
  by (auto simp: stop_ok_def overrun_def)

lemma overrunI: "reads_full c \<Longrightarrow> a_ret a = 1024 \<Longrightarrow> overrun (Fault Out_Of_Bounds) ((c, a) # h)"
  by (simp add: overrun_def)

text \<open>A run that ends well, or by an overrun, with the resources kept in order.\<close>

definition ok_run :: "'a outcome \<times> log \<Rightarrow> bool" where
  "ok_run r \<longleftrightarrow> disciplined (snd r) \<and> (case fst r of Done _ \<Rightarrow> True | Stop s \<Rightarrow> stop_ok s (snd r))"

lemma ok_runI: "wp m (\<lambda>_. disciplined) stop_ok os h \<Longrightarrow> ok_run (m os h)"
  by (auto simp: wp_def ok_run_def stop_ok_def split: prod.splits outcome.splits)

text \<open>A program that returns has nothing left but the three standard descriptors.\<close>

definition returns_clean :: "'a outcome \<times> log \<Rightarrow> bool" where
  "returns_clean r \<longleftrightarrow> (case fst r of Done _ \<Rightarrow> live (snd r) = {Fd 0, Fd 1, Fd 2} | Stop _ \<Rightarrow> True)"

lemma ok_cleanI:
  assumes "wp m (\<lambda>_ h. live h = {Fd 0, Fd 1, Fd 2} \<and> disciplined h) stop_ok os h"
  shows "ok_run (m os h) \<and> returns_clean (m os h)"
  using assms by (auto simp: wp_def ok_run_def stop_ok_def returns_clean_def split: prod.splits outcome.splits)

text \<open>The frame of every program: a loop whose rounds leave the resources alone, and what
  follows it.\<close>

lemma wp_served:
  assumes "\<And>st h'. live h' = live h \<Longrightarrow> disciplined h' \<Longrightarrow>
      wp (body st) (\<lambda>_ h''. live h'' = live h \<and> disciplined h'') stop_ok os h'"
    and "\<And>b h'. live h' = live h \<Longrightarrow> disciplined h' \<Longrightarrow> wp (tail b) Q stop_ok os h'"
    and "disciplined h"
  shows "wp (bindp (loop n body st) tail) Q stop_ok os h"
  unfolding wp_bindp
proof (rule wp_loop [where I = "\<lambda>_ h'. live h' = live h \<and> disciplined h'"], goal_cases)
  case (1 st h')
  show ?case by (rule wp_mono [OF assms(1)]) (use 1 assms(2) in \<open>auto split: iter.split\<close>)
qed (use assms(3) in auto)

text \<open>The rules for the steps that leave the resources alone.\<close>

lemma wp_quiet_sys:
  assumes "\<And>a. answers os h c a \<Longrightarrow> acquires c a = {} \<and> releases c a = {}" and "needs c \<subseteq> live h" and "disciplined h"
    and "\<And>a h'. answers os h c a \<Longrightarrow> live h' = live h \<Longrightarrow> disciplined h' \<Longrightarrow> Q a h'"
  shows "wp (sys c) Q E os h"
  unfolding wp_sys
proof (intro allI impI)
  fix a assume a: "answers os h c a"
  then show "Q a ((c, a) # h)" using assms(1) [OF a] assms(2,3) by (intro assms(4)) simp_all
qed

lemma wp_print:
  assumes "disciplined h" and "\<And>h'. live h' = live h \<Longrightarrow> disciplined h' \<Longrightarrow> Q () h'"
  shows "wp (put_out t) Q E os h" "wp (report_error t) Q E os h"
  using assms by (auto simp: wp_put_out wp_report_error res_simps)

text \<open>Giving back an address list and a socket, in either order.\<close>

lemma wp_teardown:
  assumes "live h = insert (Fd s) (insert (Info p) L)" and "0 \<le> s" and "Fd s \<notin> L" and "Info p \<notin> L" and "disciplined h"
    and "\<And>h'. live h' = L \<Longrightarrow> disciplined h' \<Longrightarrow> wp m Q E os h'"
  shows "wp (thenp (sys (FreeAddrInfo p)) (thenp (sys (Close s)) m)) Q E os h"
    "wp (thenp (sys (Close s)) (thenp (sys (FreeAddrInfo p)) m)) Q E os h"
  using assms(1-5) by (auto simp: wp_thenp wp_sys res_simps intro!: assms(6))

section \<open>Receiving a request\<close>

text \<open>\<open>memset(buffer, 0, MESSAGE_SIZE)\<close> and a read into it: the count and the buffer.\<close>

definition received :: "answer \<Rightarrow> bytes" where
  "received a = (if a_ret a < 0 then zeros MESSAGE_SIZE else overlay (zeros MESSAGE_SIZE) 0 (a_buf a))"

definition read_request :: "call \<Rightarrow> (int \<times> bytes) prog" where
  "read_request c = bindp (sys c) (\<lambda>a. ret (a_ret a, received a))"

definition recv_request :: "int \<Rightarrow> (int \<times> bytes) prog" where
  "recv_request f = read_request (Recv f (int MESSAGE_SIZE) 0)"

text \<open>\<open>buffer[received_bytes] = 0\<close> and the use of the buffer as a string\<close>

definition terminate_request :: "int \<Rightarrow> bytes \<Rightarrow> bytes prog" where
  "terminate_request n buf = poke buf n NUL"

text \<open>What a read that is lawful brings.\<close>

lemma full_read_law:
  assumes "lawful os" and "answers os h c a" and "reads_full c"
  shows "a_ret a \<le> 1024 \<and> (0 \<le> a_ret a \<longrightarrow> length (a_buf a) = nat (a_ret a)) \<and> (a_ret a < 0 \<longrightarrow> 0 < a_errno a) \<and>
    acquires c a = {} \<and> releases c a = {}"
  using lawfulD [OF assms(1,2)] assms(3)
  by (cases c) (auto simp: reads_full_def answer_ok_def sane_read_def sane_count_def acquires_def releases_def)

lemma read_buffer:
  assumes "length s \<le> 1024"
  shows "length (overlay (zeros 1024) 0 s) = 1024" "cstr (overlay (zeros 1024) 0 s) = cstr s"
    "length s < 1024 \<Longrightarrow> terminated (overlay (zeros 1024) 0 s)"
    "length s < 1024 \<Longrightarrow> (overlay (zeros 1024) 0 s)[length s := NUL] = overlay (zeros 1024) 0 s"
  using assms poke_received [of s 1024] by (simp_all add: cstr_received)

text \<open>A received request, terminated: everything but the overrun is a string again.\<close>

lemma wp_received:
  assumes law: "lawful os" and c: "reads_full c" and d: "disciplined h" and f: "needs c \<subseteq> live h"
    and none: "\<And>a. answers os h c a \<Longrightarrow> a_ret a \<le> 0 \<Longrightarrow> live ((c, a) # h) = live h \<Longrightarrow>
      disciplined ((c, a) # h) \<Longrightarrow> wp (m a) Q E os ((c, a) # h)"
    and data: "\<And>a req. answers os h c a \<Longrightarrow> 0 < a_ret a \<Longrightarrow> a_ret a < 1024 \<Longrightarrow>
      live ((c, a) # h) = live h \<Longrightarrow> disciplined ((c, a) # h) \<Longrightarrow>
      terminated req \<Longrightarrow> length req = 1024 \<Longrightarrow> cstr req = cstr (a_buf a) \<Longrightarrow> wp (k a req) Q E os ((c, a) # h)"
    and over: "\<And>a. answers os h c a \<Longrightarrow> a_ret a = 1024 \<Longrightarrow> disciplined ((c, a) # h) \<Longrightarrow>
      E (Fault Out_Of_Bounds) ((c, a) # h)"
  shows "wp (bindp (sys c) (\<lambda>a. if a_ret a \<le> 0 then m a else bindp (terminate_request (a_ret a) (received a)) (k a))) Q E os h"
  unfolding wp_bindp [of "sys c" for c] wp_sys
proof (intro allI impI, goal_cases)
  case (1 a)
  note law' = full_read_law [OF law 1 c]
  have log: "live ((c, a) # h) = live h" "disciplined ((c, a) # h)" using law' d f by simp_all
  show ?case
  proof (cases "a_ret a \<le> 0")
    case True
    with none [OF 1] log show ?thesis by simp
  next
    case False
    with law' have len: "length (a_buf a) = nat (a_ret a)" "length (a_buf a) \<le> 1024" by auto
    note buf = read_buffer [OF len(2)]
    show ?thesis
    proof (cases "a_ret a = 1024")
      case True
      with len over [OF 1] log False buf show ?thesis by (simp add: terminate_request_def received_def wp_simps)
    next
      case full: False
      with len law' False have lt: "length (a_buf a) < 1024" "a_ret a < 1024" by auto
      with data [OF 1, of "overlay (zeros 1024) 0 (a_buf a)"] len buf False log show ?thesis
        by (simp add: terminate_request_def received_def wp_simps)
    qed
  qed
qed

text \<open>A received buffer that is used as a string without being terminated.\<close>

lemma wp_shown:
  assumes law: "lawful os" and c: "reads_full c" and d: "disciplined h" and f: "needs c \<subseteq> live h"
    and none: "\<And>a. answers os h c a \<Longrightarrow> a_ret a \<le> 0 \<Longrightarrow> live ((c, a) # h) = live h \<Longrightarrow>
      disciplined ((c, a) # h) \<Longrightarrow> wp (m a) Q E os ((c, a) # h)"
    and data: "\<And>a. answers os h c a \<Longrightarrow> 0 < a_ret a \<Longrightarrow> live ((c, a) # h) = live h \<Longrightarrow>
      disciplined ((c, a) # h) \<Longrightarrow> wp (k a (cstr (received a))) Q E os ((c, a) # h)"
    and over: "\<And>a. answers os h c a \<Longrightarrow> a_ret a = 1024 \<Longrightarrow> disciplined ((c, a) # h) \<Longrightarrow>
      E (Fault Out_Of_Bounds) ((c, a) # h)"
  shows "wp (bindp (sys c) (\<lambda>a. if a_ret a \<le> 0 then m a else bindp (c_string (received a)) (k a))) Q E os h"
  unfolding wp_bindp [of "sys c" for c] wp_sys
proof (intro allI impI, goal_cases)
  case (1 a)
  note law' = full_read_law [OF law 1 c]
  have log: "live ((c, a) # h) = live h" "disciplined ((c, a) # h)" using law' d f by simp_all
  have "a_ret a = 1024" if "0 < a_ret a" "\<not> terminated (received a)"
    using that law' read_buffer(3) [of "a_buf a"] by (auto simp: received_def)
  then show ?case using none [OF 1] data [OF 1] over [OF 1] log by (simp add: wp_bindp wp_c_string)
qed

lemma wp_read_terminate:
  assumes law: "lawful os" and c: "reads_full c" and d: "disciplined h" and f: "needs c \<subseteq> live h"
    and none: "\<And>a. answers os h c a \<Longrightarrow> a_ret a \<le> 0 \<Longrightarrow> live ((c, a) # h) = live h \<Longrightarrow>
      disciplined ((c, a) # h) \<Longrightarrow> wp (m (a_ret a)) Q E os ((c, a) # h)"
    and data: "\<And>a req. answers os h c a \<Longrightarrow> 0 < a_ret a \<Longrightarrow> a_ret a < 1024 \<Longrightarrow>
      live ((c, a) # h) = live h \<Longrightarrow> disciplined ((c, a) # h) \<Longrightarrow>
      terminated req \<Longrightarrow> length req = 1024 \<Longrightarrow> cstr req = cstr (a_buf a) \<Longrightarrow> wp (k req) Q E os ((c, a) # h)"
    and over: "\<And>a. answers os h c a \<Longrightarrow> a_ret a = 1024 \<Longrightarrow> disciplined ((c, a) # h) \<Longrightarrow>
      E (Fault Out_Of_Bounds) ((c, a) # h)"
  shows "wp (bindp (read_request c) (\<lambda>(n, buf). if n \<le> 0 then m n else bindp (terminate_request n buf) k)) Q E os h"
  unfolding read_request_def bindp_assoc bindp_ret prod.case
  by (rule wp_received [OF law c d f none data over])

lemma recv_request_eq: "recv_request f = read_request (Recv f 1024 0)"
  by (simp add: recv_request_def)

lemmas wp_recv_terminate = wp_read_terminate [where c = "Recv f 1024 0" for f, folded recv_request_eq]

section \<open>Answering with the time\<close>

text \<open>The result tells whether the caller has to drop the client. The texts say \<open>disconnected\<close>
  when the client closed and \<open>disconnect\<close> when the server does.\<close>

definition serve_time :: "int \<Rightarrow> bool prog" where
  "serve_time f = bindp (recv_request f) (\<lambda>(received_bytes, buf).
     if received_bytes \<le> 0
     then thenp (if received_bytes < 0 then report_error ''Server recv() failed''
                 else put_out (fmt [''Client '', dec f, '' disconnected'', [LF]])) (ret True)
     else bindp (terminate_request received_bytes buf) (\<lambda>request.
     bindp (c_string request) (\<lambda>text.
     thenp (put_out (fmt [''Server received '', dec f, '' request: '', text, [LF]]))
     (bindp (sys TimeCall) (\<lambda>t.
     bindp (sprintf_to (zeros MESSAGE_SIZE) (''Server time: '' @ dec (a_ret t))) (\<lambda>response.
     bindp (c_string response) (\<lambda>response_s.
     bindp (sys (Send f response_s 0)) (\<lambda>sent.
     bindp (c_streq request ''quit'') (\<lambda>quit.
     bindp (if quit then ret True else c_streq request ''exit'') (\<lambda>quit_or_exit.
     let should_disconnect = (a_ret sent \<le> 0 \<or> quit_or_exit)
     in thenp (whenp should_disconnect (put_out (fmt [''Client '', dec f, '' disconnect'', [LF]])))
          (ret should_disconnect)))))))))))"

text \<open>\<open>getnameinfo\<close> of an accepted client, and the line printed when it succeeds. The two
  strings it stores are one text of the answer.\<close>

definition greet :: "answer \<Rightarrow> unit prog" where
  "greet a = bindp (sys (GetNameInfo (a_peer a))) (\<lambda>n.
     whenp (a_ret n = 0) (put_out (fmt [''Server accepted client connection '', a_buf n, [LF]])))"

lemma quiet_greet: "disciplined h \<Longrightarrow> quiet (greet a) os h"
  by (auto simp: quiet_def greet_def wp_simps res_simps)

lemma time_text_fits: "\<bar>t\<bar> < 10 ^ 19 \<Longrightarrow> length (''Server time: '' @ dec t) < 1024"
  using dec_length [of t 19] by simp

lemma wp_serve_time:
  assumes law: "lawful os" and d: "disciplined h" and f: "fd_res f \<subseteq> live h"
    and post: "\<And>b h'. live h' = live h \<Longrightarrow> disciplined h' \<Longrightarrow> Q b h'"
    and over: "\<And>e h'. overrun e h' \<Longrightarrow> disciplined h' \<Longrightarrow> E e h'"
  shows "wp (serve_time f) Q E os h"
  unfolding serve_time_def
proof (rule wp_recv_terminate [OF law _ d], goal_cases)
  case 2
  then show ?case using f by (simp add: needs_def)
next
  case (3 a)
  then show ?case
    by (auto simp: wp_simps res_simps intro!: post)
next
  case (4 a req)
  let ?h = "(Recv f 1024 0, a) # h"
  have fit: "length (dec (a_ret t)) + 13 < 1024" if "answers os h' TimeCall t" for h' t
    using time_text_fits [OF time_law [OF law that]] by simp
  have str: "cstr (overlay (zeros 1024) 0 (''Server time: '' @ dec (a_ret t) @ [NUL])) = ''Server time: '' @ dec (a_ret t)"
    "terminated (overlay (zeros 1024) 0 (''Server time: '' @ dec (a_ret t) @ [NUL]))"
    if "answers os h' TimeCall t" for h' t
    using fit [OF that] cstr_overlay [of "''Server time: '' @ dec (a_ret t)" "zeros 1024"]
      terminated_overlay [of "''Server time: '' @ dec (a_ret t)" "zeros 1024"]
    by simp_all
  show ?case
    using 4 f fit str
    by (auto simp: wp_simps res_simps Let_def intro!: post)
next
  case (5 a)
  then show ?case by (auto intro!: over overrunI simp: reads_full_def)
qed (simp add: reads_full_def)

end
