(* ===== verification/Slot_Array.thy ===== *)
theory Slot_Array
  imports Prelude
begin

text \<open>
  The interface of the arrays in which three servers keep their clients: the entries in use are
  the first ones, a new one goes behind them, and one that is dropped is overwritten by the
  last. The locale \<open>slots\<close> states that in terms of the keys in use (descriptors, handles); what
  the servers need of it is proved here once: that the keys stay different, that exactly the
  dropped one is gone, and that the first one, the listening socket, stays the first.
\<close>

section \<open>The last element takes the place of another\<close>

lemma swap_last:
  assumes "distinct xs" and "i < length xs"
  shows "distinct (take (length xs - 1) (xs[i := last xs]))"
    and "set (take (length xs - 1) (xs[i := last xs])) = set xs - {xs ! i}"
    and "0 < i \<Longrightarrow> hd (take (length xs - 1) (xs[i := last xs])) = hd xs"
proof -
  obtain ys z where xs: "xs = ys @ [z]" using assms(2) by (cases xs rule: rev_cases) auto
  have take: "take (length xs - 1) (xs[i := last xs]) = (if i < length ys then ys[i := z] else ys)"
    using assms(2) by (auto simp: xs list_update_append)
  show "distinct (take (length xs - 1) (xs[i := last xs]))"
    unfolding take using assms by (auto simp: xs distinct_list_update)
  show "set (take (length xs - 1) (xs[i := last xs])) = set xs - {xs ! i}"
    unfolding take using assms by (auto simp: xs nth_append set_update_distinct)
  show "hd (take (length xs - 1) (xs[i := last xs])) = hd xs" if "0 < i"
    unfolding take using assms that by (cases ys) (auto simp: xs split: nat.splits)
qed

lemma take_swap_last:
  assumes "n \<le> length xs" and "i < n"
  shows "take (n - 1) (xs[i := xs ! (n - 1)]) = take (length (take n xs) - 1) ((take n xs)[i := last (take n xs)])"
proof -
  have "last (take n xs) = xs ! (n - 1)" using assms by (subst last_conv_nth) auto
  then show ?thesis using assms by (simp add: take_update_swap min_def)
qed

section \<open>The interface\<close>

locale slots =
  fixes keys :: "'s \<Rightarrow> 'k list" and fits :: "'s \<Rightarrow> bool" and room :: "'s \<Rightarrow> bool"
    and move :: "nat \<Rightarrow> 's \<Rightarrow> 's" and add :: "'k \<Rightarrow> 's \<Rightarrow> 's"
  assumes move_keys: "fits s \<Longrightarrow> i < length (keys s) \<Longrightarrow>
      keys (move i s) = take (length (keys s) - 1) ((keys s)[i := last (keys s)])"
    and move_fits: "fits s \<Longrightarrow> i < length (keys s) \<Longrightarrow> fits (move i s)"
    and add_keys: "fits s \<Longrightarrow> room s \<Longrightarrow> keys (add k s) = keys s @ [k]"
    and add_fits: "fits s \<Longrightarrow> room s \<Longrightarrow> fits (add k s)"
begin

lemma move_distinct: "fits s \<Longrightarrow> i < length (keys s) \<Longrightarrow> distinct (keys s) \<Longrightarrow> distinct (keys (move i s))"
  using swap_last [of "keys s" i] by (simp add: move_keys)

lemma move_set:
  "fits s \<Longrightarrow> i < length (keys s) \<Longrightarrow> distinct (keys s) \<Longrightarrow> set (keys (move i s)) = set (keys s) - {keys s ! i}"
  using swap_last [of "keys s" i] by (simp add: move_keys)

lemma move_hd:
  "fits s \<Longrightarrow> i < length (keys s) \<Longrightarrow> distinct (keys s) \<Longrightarrow> 0 < i \<Longrightarrow> hd (keys (move i s)) = hd (keys s)"
  using swap_last [of "keys s" i] by (simp add: move_keys)

lemma move_length: "fits s \<Longrightarrow> i < length (keys s) \<Longrightarrow> length (keys (move i s)) = length (keys s) - 1"
  by (simp add: move_keys)

lemma add_distinct: "fits s \<Longrightarrow> room s \<Longrightarrow> distinct (keys s) \<Longrightarrow> k \<notin> set (keys s) \<Longrightarrow> distinct (keys (add k s))"
  by (simp add: add_keys)

lemma add_set: "fits s \<Longrightarrow> room s \<Longrightarrow> set (keys (add k s)) = insert k (set (keys s))"
  by (simp add: add_keys)

lemma add_hd: "fits s \<Longrightarrow> room s \<Longrightarrow> keys s \<noteq> [] \<Longrightarrow> hd (keys (add k s)) = hd (keys s)"
  by (simp add: add_keys)

text \<open>A client that comes and goes leaves the others as they were.\<close>

lemma move_add: "fits s \<Longrightarrow> room s \<Longrightarrow> keys (move (length (keys s)) (add k s)) = keys s"
  by (simp add: move_keys add_keys add_fits)

end

end
