(* ===== verification/Poll_Server.thy ===== *)
theory Poll_Server
  imports Time_Service Fd_Table Slot_Array
begin

text \<open>
  The server of \<open>00_tutorials/13_multiplexing_poll_client_server.c\<close>: an array of
  \<open>MAX_CONNECTION\<close> poll entries, the listening socket in entry 0, the clients in the entries
  after it, and a count \<open>nfds\<close>. A dropped client is replaced by the last entry.

  \<open>poll_inv\<close>: the clients in use are different live descriptors. The theorems show that it
  is kept whatever happens, what the swap does to the \<open>revents\<close> of the moved client, and
  what becomes of a client that arrives when the array is full.
\<close>

section \<open>Definitions\<close>

abbreviation (input) MAX_CONNECTION :: nat where "MAX_CONNECTION \<equiv> 100"

unbundle bit_operations_syntax

type_synonym poll_state = "pollfd list \<times> nat"

text \<open>\<open>fds[i]\<close>, for an index inside the array\<close>

definition entry :: "pollfd list \<Rightarrow> nat \<Rightarrow> pollfd prog" where
  "entry fds i = getp Out_Of_Bounds (if i < length fds then Some (fds ! i) else None)"

definition readable :: "pollfd \<Rightarrow> bool" where
  "readable p \<longleftrightarrow> p_revents p AND POLLIN \<noteq> 0"

text \<open>\<open>close(fds[i].fd); fds[i].fd = fds[nfds - 1].fd; nfds--;\<close>\<close>

definition poll_move :: "nat \<Rightarrow> poll_state \<Rightarrow> poll_state" where
  "poll_move i st = (case st of (fds, nfds) \<Rightarrow> (fds[i := (fds ! i)\<lparr>p_fd := p_fd (fds ! (nfds - 1))\<rparr>], nfds - 1))"

definition poll_drop :: "nat \<Rightarrow> poll_state \<Rightarrow> poll_state prog" where
  "poll_drop i st = (case st of (fds, nfds) \<Rightarrow>
     bindp (entry fds i) (\<lambda>p. thenp (sys (Close (p_fd p)))
     (bindp (entry fds (nfds - 1)) (\<lambda>last. ret (poll_move i (fds, nfds))))))"

text \<open>One round of the loop over the clients. After a drop the index stays, because of
  \<open>i--\<close> and the \<open>i++\<close> of the loop.\<close>

definition poll_client_step :: "nat \<times> poll_state \<Rightarrow> (nat \<times> poll_state, poll_state) iter prog" where
  "poll_client_step s = (case s of (i, fds, nfds) \<Rightarrow>
     if 1 \<le> i \<and> i < nfds
     then bindp (entry fds i) (\<lambda>p.
       bindp (if readable p then serve_time (p_fd p) else ret False) (\<lambda>gone.
       if gone then bindp (poll_drop i (fds, nfds)) (\<lambda>st. ret (Again (i - 1 + 1, st)))
       else ret (Again (i + 1, fds, nfds))))
     else ret (Leave (fds, nfds)))"

text \<open>Every round brings \<open>i\<close> and \<open>nfds\<close> closer, so \<open>nfds\<close> rounds are enough.\<close>

definition poll_clients :: "poll_state \<Rightarrow> poll_state prog" where
  "poll_clients st = loop (Suc (snd st)) poll_client_step (1, st)"

definition poll_add :: "int \<Rightarrow> poll_state \<Rightarrow> poll_state" where
  "poll_add sock_client st = (case st of (fds, nfds) \<Rightarrow>
     if nfds < MAX_CONNECTION
     then (fds[nfds := (fds ! nfds)\<lparr>p_fd := sock_client, p_events := POLLIN\<rparr>], nfds + 1)
     else (fds, nfds))"

text \<open>\<open>poll(fds, nfds, -1)\<close> stores the \<open>revents\<close> of the first \<open>nfds\<close> entries.\<close>

definition poll_wait :: "poll_state \<Rightarrow> (int \<times> poll_state) prog" where
  "poll_wait st = (case st of (fds, nfds) \<Rightarrow>
     bindp (sys (PollCall (map (\<lambda>p. (p_fd p, p_events p)) (take nfds fds)) (- 1))) (\<lambda>a.
     ret (a_ret a, if a_ret a < 0 then (fds, nfds)
       else (map2 (\<lambda>p r. p\<lparr>p_revents := r\<rparr>) (take nfds fds) (a_flags a) @ drop nfds fds, nfds))))"

text \<open>A connection request: after a failed \<open>accept\<close> the clients are not looked at
  (\<open>continue\<close>).\<close>

definition poll_accept :: "pollfd \<Rightarrow> poll_state \<Rightarrow> (poll_state, poll_state) iter prog" where
  "poll_accept p0 st = bindp (sys (Accept (p_fd p0))) (\<lambda>sock_client.
     if a_ret sock_client < 0
     then thenp (report_error ''Server accept() failed'') (ret (Again st))
     else thenp (greet sock_client)
       (bindp (poll_clients (poll_add (a_ret sock_client) st)) (\<lambda>st. ret (Again st))))"

definition poll_round :: "poll_state \<Rightarrow> (poll_state, poll_state) iter prog" where
  "poll_round st = bindp (poll_wait st) (\<lambda>(activity, st).
     if activity < 0 then thenp (report_error ''Server poll() failed'') (ret (Leave st))
     else bindp (entry (fst st) 0) (\<lambda>p0.
       if readable p0 then poll_accept p0 st
       else bindp (poll_clients st) (\<lambda>st. ret (Again st))))"

definition poll_listener :: listener_cfg where
  "poll_listener = \<lparr>l_proto_msg = ''TCP protocol is not supported'', l_host = Some ''localhost'',
     l_flags = AI_PASSIVE, l_resolve_msg = ''Server getaddrinfo() failed'',
     l_prepare = tut_set_non_blocking, l_backlog = 100, l_listen_bad = (\<lambda>rc. rc \<noteq> 0),
     l_close_first = False\<rparr>"

definition no_entry :: pollfd where
  "no_entry = \<lparr>p_fd = 0, p_events = 0, p_revents = 0\<rparr>"

definition poll_run_server :: "nat \<Rightarrow> unit prog" where
  "poll_run_server n = bindp (open_listener poll_listener) (\<lambda>r. case r of None \<Rightarrow> ret ()
     | Some (info, sock_server) \<Rightarrow>
     let fds = (replicate MAX_CONNECTION no_entry)[0 := no_entry\<lparr>p_fd := sock_server, p_events := POLLIN\<rparr>]
     in bindp (loop n poll_round (fds, 1)) (\<lambda>_.
        thenp (put_out (fmt [''Server exit with normal status'']))
        (thenp (sys (FreeAddrInfo info)) (thenp (sys (Close sock_server)) (ret ())))))"

section \<open>Invariant\<close>

text \<open>The descriptors in use.\<close>

definition poll_used :: "poll_state \<Rightarrow> int list" where
  "poll_used st = map p_fd (take (snd st) (fst st))"

definition poll_inv :: "int \<Rightarrow> int \<Rightarrow> poll_state \<Rightarrow> log \<Rightarrow> bool" where
  "poll_inv info s st h \<longleftrightarrow> length (fst st) = MAX_CONNECTION \<and> 1 \<le> snd st \<and> snd st \<le> MAX_CONNECTION
     \<and> hd (poll_used st) = s \<and> distinct (poll_used st)
     \<and> (\<forall>f \<in> set (poll_used st). 0 \<le> f \<and> Fd f \<in> live h) \<and> Info info \<in> live h \<and> disciplined h"

lemma poll_used_nth: "length fds = 100 \<Longrightarrow> n \<le> 100 \<Longrightarrow> i < n \<Longrightarrow> poll_used (fds, n) ! i = p_fd (fds ! i)"
  by (simp add: poll_used_def)

lemma length_poll_used: "length fds = 100 \<Longrightarrow> n \<le> 100 \<Longrightarrow> length (poll_used (fds, n)) = n"
  by (simp add: poll_used_def)

text \<open>The array as the interface sees it\<close>

definition poll_fits :: "poll_state \<Rightarrow> bool" where
  "poll_fits st \<longleftrightarrow> length (fst st) = MAX_CONNECTION \<and> snd st \<le> MAX_CONNECTION"

lemma poll_used_move:
  assumes "n \<le> length fds" and "i < n" and "p_fd q = p_fd (fds ! (n - 1))"
  shows "poll_used (fds[i := q], n - 1) =
    take (n - 1) ((poll_used (fds, n))[i := last (poll_used (fds, n))])"
proof -
  have "last (poll_used (fds, n)) = p_fd (fds ! (n - 1))"
    using assms by (subst last_conv_nth) (auto simp: poll_used_def)
  then show ?thesis
    using assms by (simp add: poll_used_def take_update_swap take_map map_update min_def)
qed

interpretation poll: slots poll_used poll_fits "\<lambda>st. snd st < MAX_CONNECTION" poll_move poll_add
proof
  fix st :: poll_state and i and f
  obtain fds n where st: "st = (fds, n)" by (cases st)
  show "poll_used (poll_move i st) = take (length (poll_used st) - 1) ((poll_used st)[i := last (poll_used st)])"
    if "poll_fits st" "i < length (poll_used st)"
    using that poll_used_move [of n fds i "(fds ! i)\<lparr>p_fd := p_fd (fds ! (n - 1))\<rparr>"] by (simp add: st poll_move_def poll_fits_def length_poll_used)
  show "poll_fits (poll_move i st)" if "poll_fits st"
    using that by (auto simp: st poll_fits_def poll_move_def)
  show "poll_used (poll_add f st) = poll_used st @ [f]" if "poll_fits st" "snd st < MAX_CONNECTION"
    using that by (simp add: st poll_used_def poll_add_def poll_fits_def take_Suc_conv_app_nth)
  show "poll_fits (poll_add f st)" if "poll_fits st"
    using that by (auto simp: st poll_fits_def poll_add_def)
qed

lemma poll_inv_log:
  "poll_inv info s st h \<Longrightarrow> live h' = live h \<Longrightarrow> disciplined h' \<Longrightarrow> poll_inv info s st h'"
  by (simp add: poll_inv_def)

section \<open>The steps\<close>

lemma wp_entry [wp_simps]:
  "wp (entry fds i) Q E os h = (if i < length fds then Q (fds ! i) h else E (Fault Out_Of_Bounds) h)"
  by (simp add: entry_def wp_getp)

lemma poll_inv_fits: "poll_inv info s st h \<Longrightarrow> poll_fits st \<and> distinct (poll_used st) \<and> length (poll_used st) = snd st"
  by (cases st) (auto simp: poll_inv_def poll_fits_def length_poll_used)

lemma wp_poll_drop:
  assumes inv: "poll_inv info s (fds, n) h" and i: "1 \<le> i" "i < n"
  shows "wp (poll_drop i (fds, n)) (\<lambda>st h'. poll_inv info s st h' \<and> snd st = n - 1 \<and>
      set (poll_used st) = set (poll_used (fds, n)) - {p_fd (fds ! i)} \<and>
      live h' = live h - {Fd (p_fd (fds ! i))}) E os h"
proof -
  let ?u = "poll_used (fds, n)" and ?f = "p_fd (fds ! i)" and ?st = "poll_move i (fds, n)"
  have len: "length fds = 100" "n \<le> 100" and hd: "hd ?u = s" and own: "\<forall>f \<in> set ?u. 0 \<le> f \<and> Fd f \<in> live h"
    using inv by (auto simp: poll_inv_def)
  have slot: "poll_fits (fds, n)" "i < length ?u" "distinct ?u" using poll_inv_fits [OF inv] i by auto
  have ui: "?u ! i = ?f" using len i by (simp add: poll_used_nth)
  then have f: "?f \<in> set ?u" using slot(2) by (metis nth_mem)
  have used: "distinct (poll_used ?st)" "set (poll_used ?st) = set ?u - {?f}" "hd (poll_used ?st) = s"
    using poll.move_distinct [OF slot] poll.move_set [OF slot] poll.move_hd [OF slot] i hd ui by simp_all
  have "snd ?st = n - 1" "length (fst ?st) = 100" using len by (simp_all add: poll_move_def)
  then have "poll_inv info s ?st ((Close ?f, a) # h)" for a
    using inv i own f used unfolding poll_inv_def by (auto simp: res_simps)
  then show ?thesis
    using len i own f used \<open>snd ?st = n - 1\<close> by (auto simp: poll_drop_def wp_simps res_simps)
qed

text \<open>The measure of the loop over the clients.\<close>

lemma wp_poll_clients:
  assumes inv: "poll_inv info s st h" and law: "lawful os"
  shows "wp (poll_clients st) (\<lambda>st' h'. poll_inv info s st' h' \<and> snd st' \<le> snd st \<and>
      set (poll_used st') \<subseteq> set (poll_used st) \<and>
      live h' = live h - Fd ` (set (poll_used st) - set (poll_used st')))
    (\<lambda>e h. stop_ok e h \<and> e \<noteq> Unfinished) os h"
  unfolding poll_clients_def
proof (rule wp_loop_total [where I = "\<lambda>(i, st') h'. poll_inv info s st' h' \<and> 1 \<le> i \<and> snd st' \<le> snd st \<and>
      set (poll_used st') \<subseteq> set (poll_used st) \<and>
      live h' = live h - Fd ` (set (poll_used st) - set (poll_used st'))" and mu = "\<lambda>(i, st'). snd st' - i"], goal_cases)
  case (1 st0 h0)
  obtain i fds n where st0: "st0 = (i, fds, n)" by (cases st0)
  have inv0: "poll_inv info s (fds, n) h0" and n: "1 \<le> i" "n \<le> snd st"
    and sub: "set (poll_used (fds, n)) \<subseteq> set (poll_used st)"
      "live h0 = live h - Fd ` (set (poll_used st) - set (poll_used (fds, n)))"
    using 1 by (simp_all add: st0)
  show ?case
  proof (cases "i < n")
    case False
    with inv0 n sub show ?thesis by (simp add: st0 poll_client_step_def wp_simps)
  next
    case True
    have len: "length fds = 100" "n \<le> 100" and d: "disciplined h0"
      using inv0 by (auto simp: poll_inv_def)
    have u: "p_fd (fds ! i) \<in> set (poll_used (fds, n))"
      using True len by (metis length_poll_used nth_mem poll_used_nth)
    with inv0 have f: "fd_res (p_fd (fds ! i)) \<subseteq> live h0" by (auto simp: poll_inv_def)
    have drop: "wp (poll_drop i (fds, n)) (\<lambda>st1 h'. poll_inv info s st1 h' \<and> 1 \<le> i \<and> snd st1 \<le> snd st \<and>
        set (poll_used st1) \<subseteq> set (poll_used st) \<and>
        live h' = live h - Fd ` (set (poll_used st) - set (poll_used st1)) \<and> snd st1 - i < n - i)
        (\<lambda>e h. stop_ok e h \<and> e \<noteq> Unfinished) os h1" if "live h1 = live h0" "disciplined h1" for h1
      by (rule wp_mono [OF wp_poll_drop [OF poll_inv_log [OF inv0 that] n(1) True]])
        (use n True sub u that(1) in auto)
    have serve: "wp (serve_time (p_fd (fds ! i))) (\<lambda>_ h'. live h' = live h0 \<and> disciplined h')
        (\<lambda>e h. stop_ok e h \<and> e \<noteq> Unfinished) os h0"
      by (rule wp_serve_time [OF law d f]) (auto simp: stop_ok_def overrun_def)
    show ?thesis
      unfolding st0 poll_client_step_def prod.case
      using True n(1) len
      apply (simp add: wp_bindp wp_entry wp_ret)
      apply (intro conjI impI)
       apply (rule wp_mono [OF serve])
        apply (use inv0 n True sub in \<open>auto simp: wp_simps intro!: wp_mono [OF drop] elim: poll_inv_log\<close>)
      done
  qed
qed (use inv in auto)

lemma poll_inv_add:
  assumes inv: "poll_inv info s st h" and f: "0 \<le> f" "Fd f \<notin> live h"
    and l: "live h' = insert (Fd f) (live h)" and d: "disciplined h'"
  shows "poll_inv info s (poll_add f st) h'"
proof (cases "snd st < 100")
  case True
  have slot: "poll_fits st" "snd st < MAX_CONNECTION" using poll_inv_fits [OF inv] True by simp_all
  have "f \<notin> set (poll_used st)" "poll_used st \<noteq> []"
    using inv f poll_inv_fits [OF inv] by (auto simp: poll_inv_def)
  moreover have "length (fst (poll_add f st)) = 100" "snd (poll_add f st) = snd st + 1"
    using inv True by (auto simp: poll_add_def poll_inv_def split: prod.split)
  ultimately show ?thesis
    using inv True f(1) l d poll.add_distinct [OF slot] poll.add_set [OF slot, of f] poll.add_hd [OF slot, of f]
    by (auto simp: poll_inv_def)
next
  case False
  then show ?thesis using inv l d by (auto simp: poll_inv_def poll_add_def split: prod.split)
qed

lemma map_fd_revents:
  "length es = length rs \<Longrightarrow> map p_fd (map2 (\<lambda>p r. p\<lparr>p_revents := r\<rparr>) es rs) = map p_fd es"
  by (induction es rs rule: list_induct2) auto

lemma wp_poll_wait:
  assumes inv: "poll_inv info s st h" and law: "lawful os"
    and post: "\<And>r st' h'. poll_inv info s st' h' \<Longrightarrow> snd st' = snd st \<Longrightarrow> poll_used st' = poll_used st \<Longrightarrow>
      live h' = live h \<Longrightarrow> Q (r, st') h'"
  shows "wp (poll_wait st) Q E os h"
proof -
  obtain fds n where st: "st = (fds, n)" by (cases st)
  let ?c = "PollCall (map (\<lambda>p. (p_fd p, p_events p)) (take n fds)) (- 1)"
  let ?st = "\<lambda>a. (map2 (\<lambda>p r. p\<lparr>p_revents := r\<rparr>) (take n fds) (a_flags a) @ drop n fds, n)"
  have len: "length fds = 100" "n \<le> 100" using inv by (auto simp: poll_inv_def st)
  have need: "needs ?c \<subseteq> live h" using inv by (auto simp: poll_inv_def st poll_used_def needs_def)
  have same: "poll_inv info s (fds, n) ((?c, a) # h)" for a
    by (rule poll_inv_log [OF inv [unfolded st]]) (use need inv in \<open>auto simp: poll_inv_def res_simps\<close>)
  have used: "poll_used (?st a) = poll_used (fds, n)" "length (fst (?st a)) = 100"
    if "answers os h ?c a" "0 \<le> a_ret a" for a
  proof -
    from poll_law [OF law that] len have fl: "length (a_flags a) = n" by simp
    from map_fd_revents [of "take n fds" "a_flags a"] fl len
    show "poll_used (?st a) = poll_used (fds, n)" "length (fst (?st a)) = 100"
      by (simp_all add: poll_used_def)
  qed
  have "poll_inv info s (?st a) ((?c, a) # h)" if "answers os h ?c a" "0 \<le> a_ret a" for a
    using same [of a] used [OF that] by (simp add: poll_inv_def)
  with used same show ?thesis
    by (auto simp: poll_wait_def st wp_simps not_less res_simps intro!: post)
qed

lemma poll_inv_listener:
  assumes "poll_inv info s (fds, n) h"
  shows "p_fd (fds ! 0) = s \<and> 0 \<le> s \<and> Fd s \<in> live h \<and> Info info \<in> live h \<and> disciplined h"
proof -
  obtain p ps m where "fds = p # ps" "n = Suc m"
    using assms by (cases fds; cases n) (auto simp: poll_inv_def)
  with assms show ?thesis by (auto simp: poll_inv_def poll_used_def)
qed

definition poll_iter :: "int \<Rightarrow> int \<Rightarrow> (poll_state, poll_state) iter \<Rightarrow> log \<Rightarrow> bool" where
  "poll_iter info s r h \<longleftrightarrow> poll_inv info s (case r of Again st \<Rightarrow> st | Leave st \<Rightarrow> st) h"

lemma wp_poll_clients_again:
  assumes "poll_inv info s st h" and "lawful os"
  shows "wp (bindp (poll_clients st) (\<lambda>st. ret (Again st))) (poll_iter info s)
    (\<lambda>e h. stop_ok e h \<and> e \<noteq> Unfinished) os h"
  unfolding wp_bindp wp_ret by (rule wp_mono [OF wp_poll_clients [OF assms]]) (auto simp: poll_iter_def)

lemma wp_poll_accept:
  assumes inv: "poll_inv info s (fds, n) h" and law: "lawful os"
  shows "wp (poll_accept (fds ! 0) (fds, n)) (poll_iter info s) (\<lambda>e h. stop_ok e h \<and> e \<noteq> Unfinished) os h"
  unfolding poll_accept_def wp_bindp [of "sys c" for c] wp_sys
proof (intro allI impI, goal_cases)
  case (1 a)
  note s = poll_inv_listener [OF inv]
  show ?case
  proof (cases "a_ret a < 0")
    case True
    then show ?thesis using s inv by (auto simp: poll_iter_def wp_simps res_simps elim!: poll_inv_log)
  next
    case False
    with fresh_accept [OF law 1] have "0 \<le> a_ret a" "Fd (a_ret a) \<notin> live h" by auto
    note add = poll_inv_add [OF inv this]
    have "wp (thenp (greet a) (bindp (poll_clients (poll_add (a_ret a) (fds, n))) (\<lambda>st. ret (Again st))))
        (poll_iter info s) (\<lambda>e h. stop_ok e h \<and> e \<noteq> Unfinished) os ((Accept (p_fd (fds ! 0)), a) # h)"
      unfolding wp_thenp
      by (rule quietD [OF quiet_greet], (use s in \<open>simp add: res_simps\<close>),
          rule wp_poll_clients_again [OF add law]) (use False in \<open>auto simp: res_simps\<close>)
    with False show ?thesis by simp
  qed
qed

lemma wp_poll_round:
  assumes inv: "poll_inv info s st h" and law: "lawful os"
  shows "wp (poll_round st) (poll_iter info s) (\<lambda>e h. stop_ok e h \<and> e \<noteq> Unfinished) os h"
  unfolding poll_round_def wp_bindp [of "poll_wait st"]
proof (rule wp_poll_wait [OF inv law], goal_cases)
  case (1 r st1 h1)
  obtain fds n where st1: "st1 = (fds, n)" by (cases st1)
  note inv1 = 1(1) [unfolded st1]
  have len: "0 < length fds" using inv1 by (auto simp: poll_inv_def)
  note s = poll_inv_listener [OF inv1]
  have fail: "wp (thenp (report_error ''Server poll() failed'') (ret (Leave (fds, n)))) (poll_iter info s)
      (\<lambda>e h. stop_ok e h \<and> e \<noteq> Unfinished) os h1"
    using inv1 s by (auto simp: poll_iter_def wp_simps res_simps elim!: poll_inv_log)
  show ?case
    using fail wp_poll_accept [OF inv1 law] wp_poll_clients_again [OF inv1 law] len
    by (simp add: st1 wp_if wp_bindp [of "entry fds 0"] wp_entry)
qed

lemma wp_poll_run_server:
  assumes law: "lawful os"
  shows "wp (poll_run_server n) (\<lambda>_. disciplined) stop_ok os []"
  unfolding poll_run_server_def
  apply (subst wp_bindp)
proof (rule wp_open_listener [OF law], goal_cases)
  case (2 s h)
  then show ?case by (simp add: poll_listener_def quiet_set_non_blocking)
next
  case (4 info s h)
  let ?fds = "(replicate 100 no_entry)[0 := no_entry\<lparr>p_fd := s, p_events := POLLIN\<rparr>]"
  have first: "take 1 xs = [xs ! 0]" if "0 < length xs" for xs :: "pollfd list"
    using that by (cases xs) auto
  have "poll_used (?fds, 1) = [s]"
    unfolding poll_used_def fst_conv snd_conv by (subst first) simp_all
  with 4 have start: "poll_inv info s (?fds, 1) h"
    by (simp add: poll_inv_def del: One_nat_def)
  have finish: "wp (thenp (put_out (fmt [''Server exit with normal status'']))
        (thenp (sys (FreeAddrInfo info)) (thenp (sys (Close s)) (ret ())))) (\<lambda>_. disciplined) stop_ok os h'"
    if "poll_inv info s st h'" for st h'
    using poll_inv_listener [of info s "fst st" "snd st"] that by (auto simp: wp_simps res_simps)
  show ?case
    unfolding option.case prod.case Let_def
    apply (subst wp_bindp)
    apply (rule wp_mono [where Q = "\<lambda>st. poll_inv info s st" and E = stop_ok])
      apply (rule wp_loop [where I = "poll_inv info s", OF _ _ start])
       apply (rule wp_mono [OF wp_poll_round [OF _ law]], assumption)
        apply (auto simp: poll_iter_def poll_inv_def split: iter.splits)[3]
     apply (rule finish, assumption)
    apply assumption
    done
qed (simp_all add: wp_simps)

section \<open>Properties\<close>

text \<open>
  C16: For every environment that behaves as documented, and any number of rounds, the poll
  server either keeps running or returns, and never uses or closes a descriptor that is not
  open, although it moves descriptors between the entries of its array. The only way it can
  run into undefined behaviour is a message of 1024 bytes, which fills the request buffer
  and makes it write the terminating NUL behind the end.
\<close>

theorem poll_server_ok:
  assumes "lawful os"
  shows "ok_run (poll_run_server n os [])"
  by (rule ok_runI [OF wp_poll_run_server [OF assms]])

theorem poll_server_ok_witness: "ok_run (poll_run_server 5 (sim_os [''hello'', ''quit'']) [])"
  by (rule poll_server_ok) (rule lawful_sim_os)

text \<open>
  C21: The loop over the clients ends: although a drop moves an entry and goes back one index,
  every round brings the index and the count closer together.
\<close>

theorem poll_clients_return:
  assumes "poll_inv info s st h" and "lawful os"
  shows "fst (poll_clients st os h) \<noteq> Stop Unfinished"
  using wp_poll_clients [OF assms] by (auto simp: wp_def split: prod.splits outcome.splits)

definition poll_demo_log :: log where
  "poll_demo_log = [(Accept 3, plain 6), (Accept 3, plain 5), (Socket 2 1 6, plain 3),
     (GetAddrInfo (Some ''localhost'') ''17328'' (tcp_hints 1 6), (plain 0)\<lparr>a_ptr := 4\<rparr>)]"

text \<open>Two clients, 5 and 6; poll has reported a message of 5 and nothing of 6.\<close>

definition poll_demo :: poll_state where
  "poll_demo = ([\<lparr>p_fd = 3, p_events = POLLIN, p_revents = 0\<rparr>, \<lparr>p_fd = 5, p_events = POLLIN, p_revents = POLLIN\<rparr>,
     \<lparr>p_fd = 6, p_events = POLLIN, p_revents = 0\<rparr>] @ replicate 97 no_entry, 3)"

lemma poll_demo_inv: "poll_inv 4 3 poll_demo poll_demo_log"
  by (simp add: poll_inv_def poll_demo_def poll_used_def poll_demo_log_def res_simps take_Cons' eval_nat_numeral
      del: replicate.simps)

theorem poll_clients_return_witness: "fst (poll_clients poll_demo (sim_os [''quit'']) poll_demo_log) \<noteq> Stop Unfinished"
  by (rule poll_clients_return [OF poll_demo_inv lawful_sim_os])

text \<open>
  The swap moves the descriptor of the last client into the place of the dropped one, but
  not the \<open>revents\<close> that poll stored for it: the entry keeps the \<open>revents\<close> of the dropped
  client. The entry is looked at again, so the moved client is received from as if poll had
  reported it.
\<close>

theorem poll_swap_stale_revents:
  assumes "poll_inv info s (fds, n) h" and "1 \<le> i" and "i + 1 < n"
  shows "\<exists>fds'. fst (poll_drop i (fds, n) os h) = Done (fds', n - 1) \<and>
    p_fd (fds' ! i) = p_fd (fds ! (n - 1)) \<and> p_revents (fds' ! i) = p_revents (fds ! i) \<and> i < n - 1"
  using assms
  by (auto simp: poll_inv_def poll_drop_def poll_move_def entry_def getp_def bindp_def thenp_def ret_def sys_def Let_def)

theorem poll_swap_stale_revents_witness:
  "\<exists>fds'. fst (poll_drop 1 poll_demo (sim_os []) poll_demo_log) = Done (fds', 2) \<and>
    p_fd (fds' ! 1) = 6 \<and> p_revents (fds' ! 1) = POLLIN \<and> p_revents (fst poll_demo ! 2) = 0"
  using poll_swap_stale_revents [of 4 3 "fst poll_demo" "snd poll_demo" poll_demo_log 1 "sim_os []"] poll_demo_inv
  by (simp add: poll_demo_def)

text \<open>
  A client that arrives when all 100 entries are in use is accepted and forgotten: after
  the round its descriptor is open, but in no entry, so that nothing will ever close it.
\<close>

theorem poll_full_leaks:
  assumes "poll_inv info s (fds, 100) h" and "lawful os" and "0 \<le> a_ret (os h (Accept s))"
  shows "wp (poll_accept (fds ! 0) (fds, 100)) (\<lambda>r h'. case r of
        Again st \<Rightarrow> Fd (a_ret (os h (Accept s))) \<in> live h' \<and> a_ret (os h (Accept s)) \<notin> set (poll_used st)
      | Leave _ \<Rightarrow> False) stop_ok os h"
proof -
  let ?a = "os h (Accept s)"
  note s = poll_inv_listener [OF assms(1)]
  have fresh: "Fd (a_ret ?a) \<notin> live h" using fresh_accept [OF assms(2) _ assms(3)] by (simp add: answers_def)
  then have new: "a_ret ?a \<notin> set (poll_used (fds, 100))" using assms(1) by (auto simp: poll_inv_def)
  have full: "poll_add f (fds, 100) = (fds, 100)" for f by (simp add: poll_add_def)
  have clients: "wp (poll_clients (fds, 100)) (\<lambda>st h'. Fd (a_ret ?a) \<in> live h' \<and> a_ret ?a \<notin> set (poll_used st)) stop_ok os h2"
    if "live h2 = insert (Fd (a_ret ?a)) (live h)" "disciplined h2" for h2
  proof -
    have "poll_inv info s (fds, 100) h2" using assms(1) that by (auto simp: poll_inv_def)
    from wp_poll_clients [OF this assms(2)] show ?thesis
      by (rule wp_mono) (use new that(1) in auto)
  qed
  have "wp (thenp (greet ?a) (bindp (poll_clients (fds, 100)) (\<lambda>st. ret (Again st))))
      (\<lambda>r h'. case r of Again st \<Rightarrow> Fd (a_ret ?a) \<in> live h' \<and> a_ret ?a \<notin> set (poll_used st) | Leave _ \<Rightarrow> False)
      stop_ok os ((Accept s, ?a) # h)"
    unfolding wp_thenp wp_bindp wp_ret
    by (rule quietD [OF quiet_greet], (use s in \<open>simp add: res_simps\<close>), simp, rule clients)
      (use assms(3) s in \<open>auto simp: res_simps\<close>)
  with assms(3) s full show ?thesis
    by (simp add: poll_accept_def wp_bindp [of "sys c" for c] wp_sys answers_def)
qed

definition full_fds :: "pollfd list" where
  "full_fds = map (\<lambda>i. \<lparr>p_fd = int i + 3, p_events = POLLIN, p_revents = 0\<rparr>) [0..<100]"

definition full_log :: log where
  "full_log = map (\<lambda>i. (Accept 3, plain (int i + 3))) [1..<100] @ [(Socket 2 1 6, plain 3),
     (GetAddrInfo (Some ''localhost'') ''17328'' (tcp_hints 1 6), (plain 0)\<lparr>a_ptr := 4\<rparr>)]"

lemma full_inv: "poll_inv 4 3 (full_fds, 100) full_log"
proof -
  have l: "live (map (\<lambda>i. (Accept 3, plain (int i + 3))) xs @ h) = live h \<union> (\<lambda>i. Fd (int i + 3)) ` set xs" for xs h
    by (induction xs) (auto simp: res_simps)
  have d: "Fd 3 \<in> live h \<Longrightarrow> disciplined h \<Longrightarrow> disciplined (map (\<lambda>i. (Accept 3, plain (int i + 3))) xs @ h)" for xs h
    by (induction xs) (auto simp: l res_simps)
  have u: "poll_used (full_fds, 100) = map (\<lambda>i. int i + 3) [0..<100]"
    by (simp add: poll_used_def full_fds_def comp_def del: upt.simps)
  have "hd [0..<100] = 0" by (simp add: upt_rec)
  then show ?thesis
    unfolding poll_inv_def fst_conv snd_conv u full_log_def
    by (auto simp: l full_fds_def distinct_map inj_on_def hd_map res_simps intro!: d simp del: upt.simps)
qed

theorem poll_full_leaks_witness:
  "wp (poll_accept (full_fds ! 0) (full_fds, 100)) (\<lambda>r h'. case r of
        Again st \<Rightarrow> Fd (a_ret (sim_os [] full_log (Accept 3))) \<in> live h' \<and>
          a_ret (sim_os [] full_log (Accept 3)) \<notin> set (poll_used st)
      | Leave _ \<Rightarrow> False) stop_ok (sim_os []) full_log"
proof (rule poll_full_leaks [OF full_inv lawful_sim_os])
  show "0 \<le> a_ret (sim_os [] full_log (Accept 3))"
    using next_val_gt [of full_log] by (simp add: sim_os_def)
qed

end
