(* ===== verification/Select_Server.thy ===== *)
theory Select_Server
  imports Time_Service "HOL-Library.Multiset"
begin

text \<open>
  The server of \<open>00_tutorials/12_multiplexing_select_client_server.c\<close>: the clients are in an
  array of slots, 0 being a free slot, and in the set \<open>master_set\<close> that \<open>select\<close> gets a copy
  of; \<open>global_max_fd\<close> bounds the numbers. The loop asks for every number up to the bound
  whether it is in what \<open>select\<close> left, while accepting and dropping clients changes the
  array, the set and the bound.

  \<open>sel_inv\<close> ties the three together. \<open>FD_SET\<close> of a number of \<open>FD_SETSIZE\<close> or more is
  undefined behaviour; \<open>small_fds\<close>, the usual limit on the descriptors of a process,
  excludes it.
\<close>

section \<open>Definitions\<close>

record select_state =
  ss_slots :: "int list"
  ss_master :: "int list"
  ss_max :: int

text \<open>\<open>FD_SET\<close> and \<open>FD_CLR\<close>\<close>

definition fd_set_add :: "int \<Rightarrow> int list \<Rightarrow> int list prog" where
  "fd_set_add f m = thenp (guardp Out_Of_Bounds (0 \<le> f \<and> f < FD_SETSIZE)) (ret (List.insert f m))"

definition fd_set_del :: "int \<Rightarrow> int list \<Rightarrow> int list" where
  "fd_set_del f m = filter (\<lambda>g. g \<noteq> f) m"

text \<open>The new client goes to the first free slot; when there is none, nothing is stored.\<close>

definition select_add :: "int \<Rightarrow> select_state \<Rightarrow> select_state prog" where
  "select_add sock_client st = (case first_index (\<lambda>x. x = 0) (ss_slots st) of
      None \<Rightarrow> ret st
    | Some j \<Rightarrow> bindp (fd_set_add sock_client (ss_master st)) (\<lambda>m.
        ret (st\<lparr>ss_slots := (ss_slots st)[j := sock_client], ss_master := m,
               ss_max := max (ss_max st) sock_client\<rparr>)))"

text \<open>\<open>close(i); FD_CLR(i, &master_set);\<close> and the first slot that holds \<open>i\<close> becomes free.\<close>

definition select_drop :: "int \<Rightarrow> select_state \<Rightarrow> select_state prog" where
  "select_drop i st = thenp (sys (Close i))
     (ret (st\<lparr>ss_master := fd_set_del i (ss_master st),
        ss_slots := (case first_index (\<lambda>x. x = i) (ss_slots st) of
            None \<Rightarrow> ss_slots st | Some j \<Rightarrow> (ss_slots st)[j := 0])\<rparr>))"

text \<open>What is done for a number that is in the set \<open>select\<close> left.\<close>

definition select_ready :: "int \<Rightarrow> int \<Rightarrow> select_state \<Rightarrow> select_state prog" where
  "select_ready sock_server i st =
     (if i = sock_server
      then bindp (sys (Accept sock_server)) (\<lambda>sock_client.
        if a_ret sock_client < 0
        then thenp (report_error ''Server accept() failed'') (ret st)
        else thenp (greet sock_client) (select_add (a_ret sock_client) st))
      else bindp (serve_time i) (\<lambda>gone. if gone then select_drop i st else ret st))"

definition select_step :: "int \<Rightarrow> int list \<Rightarrow> int \<times> select_state
    \<Rightarrow> (int \<times> select_state, select_state) iter prog" where
  "select_step sock_server read_set s = (case s of (i, st) \<Rightarrow>
     if i \<le> ss_max st
     then bindp (if i \<in> set read_set then select_ready sock_server i st else ret st) (\<lambda>st'.
       ret (Again (i + 1, st')))
     else ret (Leave st))"

text \<open>Numbers stay below \<open>FD_SETSIZE\<close>, which bounds the rounds of the inner loop.\<close>

definition select_scan :: "int \<Rightarrow> int list \<Rightarrow> select_state \<Rightarrow> select_state prog" where
  "select_scan sock_server read_set st = loop 1025 (select_step sock_server read_set) (0, st)"

text \<open>A failing \<open>select\<close> is reported and the loop goes on with the set as it was.\<close>

definition select_round :: "int \<Rightarrow> select_state \<Rightarrow> (select_state, unit) iter prog" where
  "select_round sock_server st =
     bindp (sys (SelectCall (ss_max st + 1) (ss_master st))) (\<lambda>activity.
     thenp (whenp (a_ret activity < 0) (report_error ''Server select() failed''))
     (bindp (select_scan sock_server (a_flags activity) st) (\<lambda>st'. ret (Again st'))))"

definition select_listener :: listener_cfg where
  "select_listener = \<lparr>l_proto_msg = ''TCP protocol is not supported'', l_host = Some ''localhost'',
     l_flags = AI_PASSIVE, l_resolve_msg = ''Server getaddrinfo() failed'',
     l_prepare = tut_set_non_blocking, l_backlog = 100, l_listen_bad = (\<lambda>rc. rc \<noteq> 0),
     l_close_first = False\<rparr>"

definition select_run_server :: "nat \<Rightarrow> unit prog" where
  "select_run_server n = bindp (open_listener select_listener) (\<lambda>r. case r of None \<Rightarrow> ret ()
     | Some (info, sock_server) \<Rightarrow>
     bindp (fd_set_add sock_server []) (\<lambda>master.
     let st = \<lparr>ss_slots = replicate 100 0, ss_master = master, ss_max = max 0 sock_server\<rparr>
     in bindp (loop n (select_round sock_server) st) (\<lambda>_.
        thenp (put_out (fmt [''Server exit with normal status'']))
        (thenp (sys (FreeAddrInfo info)) (thenp (sys (Close sock_server)) (ret ()))))))"

section \<open>Invariant\<close>

definition small_fds :: "os \<Rightarrow> bool" where
  "small_fds os \<longleftrightarrow> (\<forall>h d t p f. a_ret (os h (Socket d t p)) < FD_SETSIZE \<and> a_ret (os h (Accept f)) < FD_SETSIZE)"

definition sel_clients :: "select_state \<Rightarrow> int list" where
  "sel_clients st = filter (\<lambda>f. f \<noteq> 0) (ss_slots st)"

definition sel_inv :: "int \<Rightarrow> int \<Rightarrow> select_state \<Rightarrow> log \<Rightarrow> bool" where
  "sel_inv info s st h \<longleftrightarrow> length (ss_slots st) = 100 \<and> distinct (s # sel_clients st)
     \<and> set (ss_master st) = set (s # sel_clients st)
     \<and> (\<forall>f \<in> set (ss_master st). 0 < f \<and> f \<le> ss_max st \<and> Fd f \<in> live h) \<and> ss_max st < FD_SETSIZE
     \<and> Info info \<in> live h \<and> Fd 0 \<in> live h \<and> disciplined h"

lemma sel_inv_log: "sel_inv info s st h \<Longrightarrow> live h' = live h \<Longrightarrow> disciplined h' \<Longrightarrow> sel_inv info s st h'"
  by (simp add: sel_inv_def)

text \<open>Filling a free slot, and freeing a slot that holds a client.\<close>

lemma sel_clients_fill:
  assumes "first_index (\<lambda>x. x = 0) xs = Some j" and "f \<noteq> 0"
  shows "mset (filter (\<lambda>f. f \<noteq> 0) (xs[j := f])) = add_mset f (mset (filter (\<lambda>f. f \<noteq> 0) xs))"
proof -
  from first_index_Some [OF assms(1)] have j: "j < length xs" "xs ! j = 0" by auto
  from id_take_nth_drop [OF j(1)] j(2) have xs: "xs = take j xs @ 0 # drop (Suc j) xs" by simp
  have "xs[j := f] = take j xs @ f # drop (Suc j) xs" using j(1) by (simp add: upd_conv_take_nth_drop)
  then show ?thesis using assms(2) by (subst (2) xs) simp
qed

lemma sel_clients_free:
  assumes "first_index (\<lambda>x. x = f) xs = Some j" and "f \<noteq> 0"
  shows "add_mset f (mset (filter (\<lambda>f. f \<noteq> 0) (xs[j := 0]))) = mset (filter (\<lambda>f. f \<noteq> 0) xs)"
proof -
  from first_index_Some [OF assms(1)] have j: "j < length xs" "xs ! j = f" by auto
  from id_take_nth_drop [OF j(1)] j(2) have xs: "xs = take j xs @ f # drop (Suc j) xs" by simp
  have "xs[j := 0] = take j xs @ 0 # drop (Suc j) xs" using j(1) by (simp add: upd_conv_take_nth_drop)
  then show ?thesis using assms(2) by (subst (2) xs) simp
qed

section \<open>The steps\<close>

lemma wp_fd_set_add [wp_simps]:
  "wp (fd_set_add f m) Q E os h = (if 0 \<le> f \<and> f < 1024 then Q (List.insert f m) h else E (Fault Out_Of_Bounds) h)"
  by (simp add: fd_set_add_def wp_simps)

lemma sel_inv_fill:
  assumes inv: "sel_inv info s st h" and j: "first_index (\<lambda>x. x = 0) (ss_slots st) = Some j"
    and f: "0 < f" "f < 1024" "Fd f \<notin> live h" and h': "live h' = insert (Fd f) (live h)" "disciplined h'"
  shows "sel_inv info s (st\<lparr>ss_slots := (ss_slots st)[j := f], ss_master := List.insert f (ss_master st),
      ss_max := max (ss_max st) f\<rparr>) h'"
proof -
  let ?c' = "filter (\<lambda>x. x \<noteq> 0) ((ss_slots st)[j := f])"
  have ms: "mset ?c' = mset (f # sel_clients st)"
    using sel_clients_fill [OF j, of f] f(1) by (simp add: sel_clients_def)
  have "f \<notin> set (s # sel_clients st)" using inv f(3) by (auto simp: sel_inv_def)
  then have d: "distinct (s # ?c')" and c': "set ?c' = insert f (set (sel_clients st))"
    using inv mset_eq_imp_distinct_iff [OF ms] mset_eq_setD [OF ms] by (simp_all add: sel_inv_def)
  let ?st = "st\<lparr>ss_slots := (ss_slots st)[j := f], ss_master := List.insert f (ss_master st),
      ss_max := max (ss_max st) f\<rparr>"
  have sc: "sel_clients ?st = ?c'" by (simp add: sel_clients_def)
  have m: "set (ss_master ?st) = insert f (set (ss_master st))" by simp
  show ?thesis
    unfolding sel_inv_def sc
  proof (intro conjI)
    show "\<forall>g \<in> set (ss_master ?st). 0 < g \<and> g \<le> ss_max ?st \<and> Fd g \<in> live h'"
      using inv f h'(1) unfolding m by (auto simp: sel_inv_def le_max_iff_disj)
    show "set (ss_master ?st) = set (s # ?c')"
      unfolding m list.set c' using inv by (auto simp: sel_inv_def)
  qed (use inv d f h' in \<open>simp_all add: sel_inv_def\<close>)
qed

lemma sel_inv_free:
  assumes inv: "sel_inv info s st h" and f: "f \<in> set (sel_clients st)"
    and h': "live h' = live h - {Fd f}" "disciplined h'"
  shows "sel_inv info s (st\<lparr>ss_master := fd_set_del f (ss_master st),
      ss_slots := (case first_index (\<lambda>x. x = f) (ss_slots st) of None \<Rightarrow> ss_slots st | Some j \<Rightarrow> (ss_slots st)[j := 0])\<rparr>) h'"
proof -
  from f have f0: "f \<noteq> 0" "f \<in> set (ss_slots st)" by (auto simp: sel_clients_def)
  then obtain j where j: "first_index (\<lambda>x. x = f) (ss_slots st) = Some j"
    using first_index_exists [of f "ss_slots st" "\<lambda>x. x = f"] by blast
  let ?c' = "filter (\<lambda>x. x \<noteq> 0) ((ss_slots st)[j := 0])"
  have ms: "mset (f # ?c') = mset (sel_clients st)"
    using sel_clients_free [OF j f0(1)] by (simp add: sel_clients_def)
  have "distinct (f # ?c')" "set (f # ?c') = set (sel_clients st)"
    using inv mset_eq_imp_distinct_iff [OF ms] mset_eq_setD [OF ms] by (auto simp: sel_inv_def)
  then have c': "distinct (s # ?c')" "set ?c' = set (sel_clients st) - {f}"
    using inv by (auto simp: sel_inv_def)
  let ?st = "st\<lparr>ss_master := fd_set_del f (ss_master st), ss_slots := (ss_slots st)[j := 0]\<rparr>"
  have sc: "sel_clients ?st = ?c'" by (simp add: sel_clients_def)
  have "f \<noteq> s" using inv f by (auto simp: sel_inv_def)
  have md: "set (ss_master ?st) = set (ss_master st) - {f}" by (auto simp: fd_set_del_def)
  then have m: "set (ss_master ?st) = set (s # sel_clients ?st)" "set (ss_master ?st) \<subseteq> set (ss_master st) - {f}"
    unfolding sc md list.set c'(2) using inv \<open>f \<noteq> s\<close> by (auto simp: sel_inv_def)
  have "sel_inv info s ?st h'"
    unfolding sel_inv_def
  proof (intro conjI)
    show "\<forall>g \<in> set (ss_master ?st). 0 < g \<and> g \<le> ss_max ?st \<and> Fd g \<in> live h'"
      using inv m(2) h'(1) by (auto simp: sel_inv_def)
  qed (use inv c'(1) m(1) h' f0 in \<open>simp_all add: sel_inv_def sc\<close>)
  then show ?thesis by (simp add: j)
qed

text \<open>The numbers of the read set that are still to come are open: the listening socket or a
  client in its slot.\<close>

definition pending_ok :: "int list \<Rightarrow> int \<Rightarrow> select_state \<Rightarrow> bool" where
  "pending_ok rs i st \<longleftrightarrow> (\<forall>f \<in> set rs. i \<le> f \<longrightarrow> f \<in> set (ss_master st))"

text \<open>A new client is greeted and, where there is a place, put into the set.\<close>

lemma wp_select_accept:
  assumes inv: "sel_inv info s st h" and os: "lawful os" "small_fds os"
    and a: "answers os h (Accept s) a" "0 \<le> a_ret a" and later: "pending_ok rs k st"
  shows "wp (thenp (greet a) (select_add (a_ret a) st)) (\<lambda>st' h'. sel_inv info s st' h' \<and> pending_ok rs k st')
    (\<lambda>e h. stop_ok e h \<and> e \<noteq> Unfinished) os ((Accept s, a) # h)"
proof -
  have d: "disciplined h" and zero: "Fd 0 \<in> live h" and s: "0 < s" "Fd s \<in> live h"
    using inv by (auto simp: sel_inv_def)
  have f: "Fd (a_ret a) \<notin> live h" "a_ret a < 1024"
    using fresh_accept [OF os(1) a] os(2) a(1) by (auto simp: small_fds_def answers_def)
  with zero a(2) have pos: "0 < a_ret a" by (cases "a_ret a = 0") auto
  show ?thesis
    unfolding wp_thenp
  proof (rule quietD [OF quiet_greet], goal_cases)
    case 1
    then show ?case using d s by (simp add: res_simps)
  next
    case (2 _ h1)
    then have h1: "live h1 = insert (Fd (a_ret a)) (live h)" "disciplined h1"
      using pos by (simp_all add: res_simps)
    have leak: "sel_inv info s st h1" using inv h1 by (auto simp: sel_inv_def)
    have "pending_ok rs k (st\<lparr>ss_slots := sl, ss_master := List.insert g (ss_master st), ss_max := m\<rparr>)"
      if "g = a_ret a" for sl g m using later that by (auto simp: pending_ok_def)
    with sel_inv_fill [OF inv _ pos f(2,1) h1] leak later pos f show ?case
      by (auto simp: select_add_def wp_simps split: option.split)
  qed
qed

lemma wp_select_ready:
  assumes inv: "sel_inv info s st h" and os: "lawful os" "small_fds os"
    and i: "i \<in> set (ss_master st)" and p: "pending_ok rs i st"
  shows "wp (select_ready s i st) (\<lambda>st' h'. sel_inv info s st' h' \<and> pending_ok rs (i + 1) st')
    (\<lambda>e h. stop_ok e h \<and> e \<noteq> Unfinished) os h"
proof -
  have d: "disciplined h" "0 < i" "Fd i \<in> live h" and zero: "Fd 0 \<in> live h" and s: "0 < s" "Fd s \<in> live h"
    using inv i by (auto simp: sel_inv_def)
  have later: "pending_ok rs (i + 1) st" using p by (auto simp: pending_ok_def)
  show ?thesis
  proof (cases "i = s")
    case True
    have "wp (thenp (greet a) (select_add (a_ret a) st)) (\<lambda>st' h'. sel_inv info s st' h' \<and> pending_ok rs (s + 1) st')
        (\<lambda>e h. stop_ok e h \<and> e \<noteq> Unfinished) os ((Accept s, a) # h)"
      if "answers os h (Accept s) a" "0 \<le> a_ret a" for a
      by (rule wp_select_accept [OF inv os that]) (use later True in simp)
    moreover have "sel_inv info s st ((Err m, w) # (Accept s, a) # h)" if "a_ret a < 0" for m w a
      using that inv d s by (auto simp: res_simps elim!: sel_inv_log)
    ultimately show ?thesis
      using True later by (auto simp: select_ready_def wp_bindp wp_sys wp_if wp_simps not_less)
  next
    case False
    then have c: "i \<in> set (sel_clients st)" using inv i by (auto simp: sel_inv_def)
    have drop: "sel_inv info s st' ((Close i, a) # h1) \<and> pending_ok rs (i + 1) st'"
      if "live h1 = live h" "disciplined h1" and st': "st' = st\<lparr>ss_master := fd_set_del i (ss_master st),
        ss_slots := (case first_index (\<lambda>x. x = i) (ss_slots st) of None \<Rightarrow> ss_slots st | Some j \<Rightarrow> (ss_slots st)[j := 0])\<rparr>"
      for h1 a st'
    proof
      have inv1: "sel_inv info s st h1" using sel_inv_log [OF inv] that by blast
      show "sel_inv info s st' ((Close i, a) # h1)"
        unfolding st' by (rule sel_inv_free [OF inv1 c]) (use that d in \<open>auto simp: res_simps\<close>)
      show "pending_ok rs (i + 1) st'"
        using p by (auto simp: st' pending_ok_def fd_set_del_def)
    qed
    show ?thesis
      using False apply (simp add: select_ready_def wp_bindp)
      apply (rule wp_serve_time [OF os(1) d(1)])
      using d apply simp
       apply (use drop later inv in \<open>auto simp: wp_simps select_drop_def elim!: sel_inv_log\<close>)[1]
      apply (auto simp: stop_ok_def overrun_def)
      done
  qed
qed

lemma wp_select_scan:
  assumes inv: "sel_inv info s st h" and os: "lawful os" "small_fds os" and rs: "set rs \<subseteq> set (ss_master st)"
  shows "wp (select_scan s rs st) (sel_inv info s) (\<lambda>e h. stop_ok e h \<and> e \<noteq> Unfinished) os h"
  unfolding select_scan_def
proof (rule wp_loop_total [where I = "\<lambda>(i, st') h'. sel_inv info s st' h' \<and> 0 \<le> i \<and> i \<le> 1024 \<and> pending_ok rs i st'"
      and mu = "\<lambda>(i, st'). nat (1024 - i)"], goal_cases)
  case (1 p0 h0)
  obtain i st0 where p0: "p0 = (i, st0)" by (cases p0)
  have inv0: "sel_inv info s st0 h0" "0 \<le> i" "pending_ok rs i st0" and m: "ss_max st0 < 1024"
    using 1 by (auto simp: p0 sel_inv_def)
  have next_ok: "pending_ok rs (i + 1) st0" using inv0(3) by (auto simp: pending_ok_def)
  show ?case
  proof (cases "i \<in> set rs \<and> i \<le> ss_max st0")
    case True
    then have i: "i \<in> set (ss_master st0)" using inv0(3) by (auto simp: pending_ok_def)
    with True m show ?thesis
      unfolding p0 select_step_def prod.case
      by (simp add: wp_bindp wp_ret)
        (rule wp_mono [OF wp_select_ready [OF inv0(1) os i inv0(3)]]; use inv0(2) in auto)
  next
    case False
    then show ?thesis
      using inv0 m next_ok unfolding p0 select_step_def prod.case by (auto simp: wp_simps)
  qed
qed (use inv rs in \<open>auto simp: pending_ok_def\<close>)

lemma wp_select_round:
  assumes inv: "sel_inv info s st h" and os: "lawful os" "small_fds os"
  shows "wp (select_round s st) (\<lambda>r h'. case r of Again st' \<Rightarrow> sel_inv info s st' h' | Leave _ \<Rightarrow> False)
    (\<lambda>e h. stop_ok e h \<and> e \<noteq> Unfinished) os h"
proof -
  let ?c = "SelectCall (ss_max st + 1) (ss_master st)"
  have nd: "needs ?c \<subseteq> live h" "disciplined h" using inv by (auto simp: sel_inv_def needs_def)
  then have log: "sel_inv info s st ((?c, a) # h)" for a
    by (intro sel_inv_log [OF inv]) (simp_all add: acquires_def releases_def)
  have log': "sel_inv info s st ((Err m, w) # (?c, a) # h)" for m w a
    using nd by (intro sel_inv_log [OF log [of a]]) (simp_all add: acquires_def releases_def needs_def [of "Err m"])
  have scan: "wp (select_scan s (a_flags a) st) (\<lambda>st' h'. sel_inv info s st' h') (\<lambda>e h. stop_ok e h \<and> e \<noteq> Unfinished) os h'"
    if "answers os h ?c a" "sel_inv info s st h'" for a h'
    by (rule wp_select_scan [OF that(2) os select_law [OF os(1) that(1)]])
  show ?thesis
    using scan log log' unfolding select_round_def by (simp add: wp_simps)
qed

lemma wp_select_run_server:
  assumes os: "lawful os" "small_fds os"
  shows "wp (select_run_server n) (\<lambda>_ h. disciplined h \<and> live h = {Fd 0, Fd 1, Fd 2}) stop_ok os []"
  unfolding select_run_server_def wp_bindp [of "open_listener c" for c]
proof (rule wp_open_listener [OF os(1)], goal_cases)
  case (2 s h)
  then show ?case by (simp add: select_listener_def quiet_set_non_blocking)
next
  case (4 info s h)
  then have small: "0 < s" "s < 1024"
    using os(2) by (cases "s = 0"; auto simp: opened_def small_fds_def)+
  let ?st = "\<lparr>ss_slots = replicate 100 0, ss_master = List.insert s [], ss_max = max 0 s\<rparr>"
  have start: "sel_inv info s ?st h"
    using 4 small by (auto simp: sel_inv_def sel_clients_def)
  show ?case
    unfolding option.case prod.case Let_def wp_bindp wp_fd_set_add
    using small
    apply simp
    apply (rule wp_mono [where Q = "\<lambda>_ _. False" and E = stop_ok])
      apply (rule wp_loop [where I = "sel_inv info s"])
        apply (rule wp_mono [OF wp_select_round [OF _ os]], assumption)
         apply (auto simp: sel_inv_def split: iter.splits)[3]
      apply (use start in simp)
     apply auto
    done
qed (simp_all add: wp_simps)

section \<open>Properties\<close>

text \<open>An environment that obeys the limit on descriptors: beyond it, sockets fail with
  \<open>EMFILE\<close>.\<close>

definition limited_os :: "bytes list \<Rightarrow> os" where
  "limited_os msgs h c = (let a = sim_os msgs h c in case c of
      Socket _ _ _ \<Rightarrow> if a_ret a < 1024 then a else (plain (- 1))\<lparr>a_errno := 24\<rparr>
    | Accept _ \<Rightarrow> if a_ret a < 1024 then a else (plain (- 1))\<lparr>a_errno := 24\<rparr>
    | _ \<Rightarrow> a)"

lemma lawful_limited_os: "lawful (limited_os msgs)"
proof -
  have fail: "answer_ok h (Socket d t p) ((plain (- 1))\<lparr>a_errno := 24\<rparr>)" "answer_ok h (Accept f) ((plain (- 1))\<lparr>a_errno := 24\<rparr>)" for h d t p f
    by (simp_all add: answer_ok_def acquires_def sane_status_def)
  have "answer_ok h c (limited_os msgs h c)" if "case c of Fgets n \<Rightarrow> 0 < n | _ \<Rightarrow> True" for h c
    using lawful_sim_os [of msgs] that fail
    by (cases c) (auto simp: lawful_def limited_os_def Let_def)
  then show ?thesis by (simp add: lawful_def)
qed

lemma small_fds_limited_os: "small_fds (limited_os msgs)"
  by (simp add: small_fds_def limited_os_def Let_def)

text \<open>
  C17: For every environment that behaves as documented and keeps descriptors below
  \<open>FD_SETSIZE\<close>, the select server never uses or closes a descriptor that is not open, even
  when \<open>select\<close> fails; a message of 1024 bytes is the only way into undefined behaviour; and
  it returns only if its setup failed, with everything given back.
\<close>

theorem select_server_ok:
  assumes "lawful os" and "small_fds os"
  shows "ok_run (select_run_server n os []) \<and> returns_clean (select_run_server n os [])"
  by (rule ok_cleanI, rule wp_mono [OF wp_select_run_server [OF assms]]) auto

theorem select_server_ok_witness:
  "ok_run (select_run_server 3 (limited_os [''time'']) []) \<and> returns_clean (select_run_server 3 (limited_os [''time'']) [])"
  by (rule select_server_ok [OF lawful_limited_os small_fds_limited_os])

text \<open>
  One call of \<open>select\<close> and the scan after it end and keep the invariant: the set given to
  \<open>select\<close> is the listening socket and the clients in the slots, all open, all different and
  all within the bound, whatever clients came and went during the scan.
\<close>

theorem select_round_invariant:
  assumes "sel_inv info s st h" and "lawful os" and "small_fds os"
  shows "wp (select_round s st) (\<lambda>r h'. case r of Again st' \<Rightarrow> sel_inv info s st' h' | Leave _ \<Rightarrow> False)
    (\<lambda>e h. stop_ok e h \<and> e \<noteq> Unfinished) os h"
  by (rule wp_select_round [OF assms])

definition sel_demo_log :: log where
  "sel_demo_log = [(Accept 3, plain 6), (Socket 2 1 6, plain 3),
     (GetAddrInfo (Some ''localhost'') ''17328'' (tcp_hints 1 6), (plain 0)\<lparr>a_ptr := 4\<rparr>)]"

definition sel_demo :: select_state where
  "sel_demo = \<lparr>ss_slots = 6 # replicate 99 0, ss_master = [6, 3], ss_max = 6\<rparr>"

lemma sel_demo_inv: "sel_inv 4 3 sel_demo sel_demo_log"
  by (auto simp: sel_inv_def sel_demo_def sel_clients_def sel_demo_log_def res_simps)

theorem select_round_invariant_witness:
  "wp (select_round 3 sel_demo) (\<lambda>r h'. case r of Again st' \<Rightarrow> sel_inv 4 3 st' h' | Leave _ \<Rightarrow> False)
    (\<lambda>e h. stop_ok e h \<and> e \<noteq> Unfinished) (limited_os [''quit'']) sel_demo_log"
  by (rule select_round_invariant [OF sel_demo_inv lawful_limited_os small_fds_limited_os])

end
