(* ===== verification/Request_Server.thy ===== *)
theory Request_Server
  imports Time_Service
begin

text \<open>
  The command servers of the tutorials: \<open>08_simple_client_server.c\<close>, which serves one client
  after the other, and \<open>09_multithread_client_server.c\<close>, which starts a thread per client.
  Both talk the same protocol to a client: \<open>exit\<close>, \<open>quit\<close> and \<open>shutdown\<close> are answered with
  \<open>OK\<close> and end the session, \<open>time\<close> with the time, anything else with \<open>Unknown request\<close>. Every
  answer is the whole response buffer.

  The locale \<open>session\<close> is the interface between a server and what it does with a client: a
  session ends with the client's descriptor closed, or still open, and touches nothing else.
\<close>

section \<open>One request\<close>

text \<open>\<open>%d\<close> of a \<open>time_t\<close>: the format does not fit the argument, which C leaves undefined; taken as what
  implementations do, the low 32 bits, signed\<close>

definition dec32 :: "int \<Rightarrow> bytes" where
  "dec32 t = dec (sint (word_of_int t :: 32 word))"

definition is_farewell :: "bytes \<Rightarrow> bool" where
  "is_farewell text \<longleftrightarrow> text = ''exit'' \<or> text = ''quit'' \<or> text = ''shutdown''"

text \<open>The comparison with the three words, in the order of the code.\<close>

definition c_farewell :: "bytes \<Rightarrow> bool prog" where
  "c_farewell buf = bindp (c_streq buf ''exit'') (\<lambda>e. if e then ret True
     else bindp (c_streq buf ''quit'') (\<lambda>q. if q then ret True else c_streq buf ''shutdown''))"

text \<open>\<open>sprintf(response_buffer, ...); rc = send(sock, response_buffer, MESSAGE_SIZE, 0)\<close>\<close>

definition respond :: "int \<Rightarrow> bytes \<Rightarrow> int prog" where
  "respond f text = bindp (sprintf_to (zeros MESSAGE_SIZE) text) (\<lambda>response.
     bindp (sys (Send f response 0)) (\<lambda>a. ret (a_ret a)))"

text \<open>One round of the loop of a session. \<open>Leave True\<close> has closed the socket, \<open>Leave False\<close> has
  not: the client was gone.\<close>

definition serve_request :: "bytes \<Rightarrow> (bytes \<Rightarrow> bytes) \<Rightarrow> int \<Rightarrow> unit \<Rightarrow> (unit, bool) iter prog" where
  "serve_request gone_msg heading f u = bindp (recv_request f) (\<lambda>(received_bytes, buf).
     if received_bytes \<le> 0 then thenp (report_error gone_msg) (ret (Leave False))
     else bindp (terminate_request received_bytes buf) (\<lambda>request.
     bindp (c_string request) (\<lambda>text.
     thenp (put_out (heading text))
     (bindp (c_farewell request) (\<lambda>bye.
      if bye then bindp (respond f ''OK'') (\<lambda>rc. thenp (sys (Close f)) (ret (Leave True)))
      else bindp (c_streq request ''time'') (\<lambda>is_time.
       bindp (if is_time then bindp (sys TimeCall) (\<lambda>t. respond f (dec32 (a_ret t)))
              else respond f ''Unknown request'') (\<lambda>rc.
       thenp (whenp (rc \<le> 0) (report_error ''Server send() failed'')) (ret (Again ())))))))))"

section \<open>The interface of a session\<close>

locale session =
  fixes sess :: "int \<Rightarrow> bool prog"
  assumes sess_law: "lawful os \<Longrightarrow> 0 \<le> f \<Longrightarrow> Fd f \<in> live h \<Longrightarrow> disciplined h \<Longrightarrow>
    wp (sess f) (\<lambda>closed h'. live h' = live h - (if closed then {Fd f} else {}) \<and> disciplined h') stop_ok os h"
begin

text \<open>A session of a new client keeps whatever was live before the client came.\<close>

lemma sess_keeps:
  assumes "lawful os" and "0 \<le> f" and "Fd f \<notin> R" and "R \<subseteq> live h" and "Fd f \<in> live h" and "disciplined h"
  shows "wp (sess f) (\<lambda>_ h'. R \<subseteq> live h' \<and> disciplined h') stop_ok os h"
  by (rule wp_mono [OF sess_law [OF assms(1,2,5,6)]]) (use assms(3,4) in auto)

end

section \<open>The simple server\<close>

text \<open>\<open>08_simple_client_server.c\<close>; \<open>m\<close> bounds the requests of a session, \<open>n\<close> the clients.\<close>

definition simple_session :: "nat \<Rightarrow> int \<Rightarrow> bool prog" where
  "simple_session m f = loop m (serve_request (''Client is disconnected'' @ [LF])
     (\<lambda>text. fmt [''Received client request: '', text, [LF]]) f) ()"

definition simple_round :: "nat \<Rightarrow> int \<Rightarrow> unit \<Rightarrow> (unit, unit) iter prog" where
  "simple_round m sock_server u =
     thenp (put_out (fmt [''Server is ready to process new request'', [LF]]))
     (bindp (sys (Accept sock_server)) (\<lambda>sock_client.
      if a_ret sock_client < 0
      then thenp (report_error ''Server accept() failed'') (ret (Again ()))
      else thenp (greet sock_client)
        (bindp (simple_session m (a_ret sock_client)) (\<lambda>_. ret (Again ())))))"

definition simple_listener :: listener_cfg where
  "simple_listener = \<lparr>l_proto_msg = ''TCP protocol is not supported'', l_host = None, l_flags = 0,
     l_resolve_msg = ''Can not resolve server hostname'', l_prepare = tut_set_options, l_backlog = 3,
     l_listen_bad = (\<lambda>rc. rc < 0), l_close_first = True\<rparr>"

definition simple_run_server :: "nat \<Rightarrow> nat \<Rightarrow> unit prog" where
  "simple_run_server m n = bindp (open_listener simple_listener) (\<lambda>r. case r of None \<Rightarrow> ret ()
     | Some (info, sock_server) \<Rightarrow> bindp (loop n (simple_round m sock_server) ()) (\<lambda>_.
        thenp (sys (Close sock_server)) (thenp (sys (FreeAddrInfo info))
        (put_out (fmt [''Server exit with normal status'', [LF]])))))"

section \<open>The server with threads\<close>

text \<open>\<open>09_multithread_client_server.c\<close>. A thread gets the address of a heap cell that holds the
  descriptor, and frees it; \<open>calloc\<close> is an allocation.\<close>

definition threaded_session :: "nat \<Rightarrow> int \<Rightarrow> bool prog" where
  "threaded_session m f = loop m (serve_request ''Client is disconnected''
     (\<lambda>text. fmt [''Client '', dec f, '' requests: '', text, [LF]]) f) ()"

definition server_handle_client :: "nat \<Rightarrow> int \<Rightarrow> int \<Rightarrow> bool prog" where
  "server_handle_client m arg sock_client =
     (if arg = 0 then ret False
      else bindp (threaded_session m sock_client) (\<lambda>closed. thenp (sys (Free arg)) (ret closed)))"

definition threaded_round :: "int \<Rightarrow> unit \<Rightarrow> (unit, unit) iter prog" where
  "threaded_round sock_server u =
     thenp (put_out (fmt [''Server is ready to process new request'', [LF]]))
     (bindp (sys (Accept sock_server)) (\<lambda>sock_client.
      if a_ret sock_client < 0
      then thenp (report_error ''Server accept() failed'') (ret (Again ()))
      else thenp (greet sock_client)
        (bindp (sys (Malloc 4)) (\<lambda>p.
         thenp (guardp Null_Deref (a_ptr p \<noteq> 0))
         (bindp (sys (PthreadCreate ''server_handle_client'' (a_ptr p))) (\<lambda>rc.
          if a_ret rc \<noteq> 0
          then thenp (report_error ''Server create thread for new client failed'') (ret (Again ()))
          else bindp (sys PthreadDetach) (\<lambda>d.
            thenp (whenp (a_ret d \<noteq> 0) (report_error ''Detach client thread failed'')) (ret (Again ())))))))))"

definition threaded_listener :: listener_cfg where
  "threaded_listener = \<lparr>l_proto_msg = ''TCP protocol is not supported'', l_host = None, l_flags = 0,
     l_resolve_msg = ''Can not resolve server hostname'', l_prepare = tut_set_options, l_backlog = 100,
     l_listen_bad = (\<lambda>rc. rc < 0), l_close_first = False\<rparr>"

definition threaded_run_server :: "nat \<Rightarrow> unit prog" where
  "threaded_run_server n = bindp (open_listener threaded_listener) (\<lambda>r. case r of None \<Rightarrow> ret ()
     | Some (info, sock_server) \<Rightarrow> bindp (loop n (threaded_round sock_server) ()) (\<lambda>_.
        thenp (sys (FreeAddrInfo info)) (thenp (sys (Close sock_server)) (ret ()))))"

section \<open>A session meets its interface\<close>

lemma length_dec32: "length (dec32 t) \<le> 11"
proof -
  have "\<bar>sint (word_of_int t :: 32 word)\<bar> < 10 ^ 10"
    using sint_ge [of "word_of_int t :: 32 word"] sint_lt [of "word_of_int t :: 32 word"] by simp
  from dec_length [OF this] show ?thesis by (simp add: dec32_def)
qed

lemma wp_c_farewell [wp_simps]:
  "terminated buf \<Longrightarrow> wp (c_farewell buf) Q E os h = Q (is_farewell (cstr buf)) h"
  by (simp add: c_farewell_def wp_simps is_farewell_def)

lemma wp_respond:
  assumes "length text < 1024" and "Fd f \<in> live h" and "disciplined h"
    and "\<And>rc h'. live h' = live h \<Longrightarrow> disciplined h' \<Longrightarrow> Q rc h'"
  shows "wp (respond f text) Q E os h"
  using assms(1-3) by (auto simp: respond_def wp_simps res_simps intro!: assms(4))

lemma wp_serve_request:
  assumes law: "lawful os" and f: "0 \<le> f" "Fd f \<in> live h" and d: "disciplined h"
    and again: "\<And>h'. live h' = live h \<Longrightarrow> disciplined h' \<Longrightarrow> Q (Again ()) h'"
    and gone: "\<And>h'. live h' = live h \<Longrightarrow> disciplined h' \<Longrightarrow> Q (Leave False) h'"
    and closed: "\<And>h'. live h' = live h - {Fd f} \<Longrightarrow> disciplined h' \<Longrightarrow> Q (Leave True) h'"
    and over: "\<And>e h'. overrun e h' \<Longrightarrow> disciplined h' \<Longrightarrow> E e h'"
  shows "wp (serve_request gone_msg heading f u) Q E os h"
  unfolding serve_request_def
proof (rule wp_recv_terminate [OF law _ d], goal_cases)
  case 2
  then show ?case using f by (simp add: needs_def)
next
  case (3 a)
  then show ?case by (auto simp: wp_simps res_simps intro!: gone)
next
  case (4 a req)
  have bye: "wp (bindp (respond f ''OK'') (\<lambda>rc. thenp (sys (Close f)) (ret (Leave True)))) Q E os h1"
    if "live h1 = live h" "disciplined h1" for h1
    unfolding wp_bindp
    by (rule wp_respond) (use that f in \<open>auto simp: wp_simps res_simps intro!: closed\<close>)
  have more: "wp (respond f msg) (\<lambda>rc h2. wp (thenp (whenp (rc \<le> 0) (report_error ''Server send() failed''))
      (ret (Again ()))) Q E os h2) E os h1"
    if "live h1 = live h" "disciplined h1" "length msg < 1024" for h1 msg
    by (rule wp_respond) (use that f in \<open>auto simp: wp_simps res_simps intro!: again\<close>)
  have "length (dec32 t) < 1024" for t using length_dec32 [of t] by simp
  with 4 bye more show ?case
    by (auto simp: wp_bindp wp_sys wp_if wp_thenp wp_put_out wp_c_string wp_c_farewell wp_c_streq res_simps)
next
  case (5 a)
  then show ?case by (auto intro!: over overrunI simp: reads_full_def)
qed (simp add: reads_full_def)

lemma wp_session:
  assumes "lawful os" and "0 \<le> f" and "Fd f \<in> live h" and "disciplined h"
  shows "wp (loop m (serve_request g hdg f) ()) (\<lambda>closed h'. live h' = live h - (if closed then {Fd f} else {})
      \<and> disciplined h') stop_ok os h"
  by (rule wp_loop [where I = "\<lambda>_ h'. live h' = live h \<and> disciplined h'"])
    (use assms in \<open>auto intro!: wp_serve_request simp: stop_ok_def overrun_def\<close>)

interpretation simple: session "simple_session m" for m
  by unfold_locales (auto simp: simple_session_def intro!: wp_session)

interpretation threaded: session "threaded_session m" for m
  by unfold_locales (auto simp: threaded_session_def intro!: wp_session)

section \<open>The servers\<close>

definition serving :: "int \<Rightarrow> int \<Rightarrow> log \<Rightarrow> bool" where
  "serving info s h \<longleftrightarrow> 0 \<le> s \<and> {Fd s, Info info} \<subseteq> live h \<and> disciplined h"

lemma wp_simple_round:
  assumes inv: "serving info s h" and law: "lawful os"
  shows "wp (simple_round m s u) (\<lambda>r h'. serving info s h' \<and> r = Again ()) stop_ok os h"
  unfolding simple_round_def wp_thenp wp_put_out wp_bindp [of "sys c" for c] wp_sys
proof (intro allI impI, goal_cases)
  case (1 w a)
  show ?case
  proof (cases "a_ret a < 0")
    case True
    then show ?thesis using inv by (auto simp: serving_def wp_simps res_simps)
  next
    case False
    with fresh_accept [OF law 1(2)] have new: "0 \<le> a_ret a" "Fd (a_ret a) \<notin> live h" by (auto simp: res_simps)
    have "wp (bindp (simple_session m (a_ret a)) (\<lambda>_. ret (Again ()))) (\<lambda>r h'. serving info s h' \<and> r = Again ()) stop_ok os h1"
      if "live h1 = insert (Fd (a_ret a)) (live h)" "disciplined h1" for h1
      unfolding wp_bindp wp_ret
      by (rule wp_mono [OF simple.sess_keeps [OF law new(1), of "{Fd s, Info info}"]])
        (use inv new that in \<open>auto simp: serving_def\<close>)
    then have "wp (thenp (greet a) (bindp (simple_session m (a_ret a)) (\<lambda>_. ret (Again ()))))
        (\<lambda>r h'. serving info s h' \<and> r = Again ()) stop_ok os ((Accept s, a) # (Out (fmt [''Server is ready to process new request'', [LF]]), w) # h)"
      unfolding wp_thenp
      by (intro quietD [OF quiet_greet]) (use inv new in \<open>auto simp: serving_def res_simps\<close>)
    with False show ?thesis by simp
  qed
qed

lemma wp_threaded_round:
  assumes inv: "serving info s h" and law: "lawful os" and mem: "memory_ok os"
  shows "wp (threaded_round s u) (\<lambda>r h'. serving info s h' \<and> r = Again ()) stop_ok os h"
  unfolding threaded_round_def wp_thenp wp_put_out wp_bindp [of "sys c" for c] wp_sys
proof (intro allI impI, goal_cases)
  case (1 w a)
  show ?case
  proof (cases "a_ret a < 0")
    case True
    then show ?thesis using inv by (auto simp: serving_def wp_simps res_simps)
  next
    case False
    have ptr: "a_ptr p \<noteq> 0" if "answers os h' (Malloc 4) p" for p h'
      using mem that by (auto simp: memory_ok_def answers_def)
    from False show ?thesis
      apply (simp add: wp_if wp_thenp)
      apply (rule quietD [OF quiet_greet])
       apply (use inv in \<open>simp add: serving_def res_simps\<close>)
      apply (use inv in \<open>auto dest: ptr simp: wp_simps serving_def res_simps\<close>)
      done
  qed
qed

lemma wp_command_server:
  assumes law: "lawful os" and prep: "l_prepare cfg = tut_set_options"
    and round: "\<And>info s h. serving info s h \<Longrightarrow> wp (body s ()) (\<lambda>r h'. serving info s h' \<and> r = Again ()) stop_ok os h"
  shows "wp (bindp (open_listener cfg) (\<lambda>r. case r of None \<Rightarrow> ret ()
     | Some (info, s) \<Rightarrow> bindp (loop n (body s) ()) (k info s)))
    (\<lambda>_ h. live h = {Fd 0, Fd 1, Fd 2} \<and> disciplined h) stop_ok os []"
  unfolding wp_bindp [of "open_listener cfg"]
proof (rule wp_open_listener [OF law], goal_cases)
  case (2 s h)
  then show ?case by (simp add: prep quiet_set_options)
next
  case (4 info s h)
  then have start: "serving info s h" by (simp add: serving_def)
  show ?case
    unfolding option.case prod.case wp_bindp
  proof (rule wp_mono [where Q = "\<lambda>_ _. False" and E = stop_ok], goal_cases)
    case 1
    show ?case
    proof (rule wp_loop [where I = "\<lambda>_. serving info s"], goal_cases)
      case (1 u h)
      have u: "u = ()" by simp
      show ?case unfolding u by (rule wp_mono [OF round [OF 1]]) auto
    qed (use start in \<open>auto simp: serving_def\<close>)
  qed auto
qed (simp_all add: wp_simps)

lemma wp_simple_run_server:
  assumes "lawful os"
  shows "wp (simple_run_server m n) (\<lambda>_ h. live h = {Fd 0, Fd 1, Fd 2} \<and> disciplined h) stop_ok os []"
  unfolding simple_run_server_def
  by (rule wp_command_server [OF assms _ wp_simple_round [OF _ assms]]) (simp add: simple_listener_def)

lemma wp_threaded_run_server:
  assumes "lawful os" and "memory_ok os"
  shows "wp (threaded_run_server n) (\<lambda>_ h. live h = {Fd 0, Fd 1, Fd 2} \<and> disciplined h) stop_ok os []"
  unfolding threaded_run_server_def
  by (rule wp_command_server [OF assms(1) _ wp_threaded_round [OF _ assms]]) (simp add: threaded_listener_def)

section \<open>Properties\<close>

lemma wp_server_handle_client:
  assumes "lawful os" and "0 \<le> f" and "Fd f \<in> live h" and "disciplined h" and "p \<noteq> 0" and "Block p \<in> live h"
  shows "wp (server_handle_client m p f) (\<lambda>closed h'. disciplined h' \<and>
      live h' = live h - {Block p} - (if closed then {Fd f} else {})) stop_ok os h"
  unfolding server_handle_client_def
  by (simp add: assms(5) wp_bindp)
    (rule wp_mono [OF threaded.sess_law [OF assms(1-4)]], use assms(5,6) in \<open>auto simp: wp_simps res_simps\<close>)

text \<open>
  C18: The simple server with its sessions, the accepting loop of the server with threads, and
  each client thread, run on its own from any state in which its descriptor and the cell that
  carries it are live: in every environment that behaves as documented and has memory none of
  them uses or closes a descriptor that is not open or frees memory twice, and a message of
  1024 bytes is the only way into undefined behaviour. The servers return only if their setup
  failed, with everything given back; the thread frees its cell, closes its descriptor at most
  once, and leaves all else as it was.
\<close>

theorem command_servers_ok:
  assumes "lawful os" and "memory_ok os"
    and "0 \<le> f" and "Fd f \<in> live h" and "p \<noteq> 0" and "Block p \<in> live h" and "disciplined h"
  shows "ok_run (simple_run_server m n os []) \<and> returns_clean (simple_run_server m n os [])
    \<and> ok_run (threaded_run_server n os []) \<and> returns_clean (threaded_run_server n os [])
    \<and> wp (server_handle_client m p f) (\<lambda>closed h'. disciplined h' \<and>
        live h' = live h - {Block p} - (if closed then {Fd f} else {})) stop_ok os h"
  using ok_cleanI [OF wp_simple_run_server [OF assms(1)]] ok_cleanI [OF wp_threaded_run_server [OF assms(1,2)]]
    wp_server_handle_client [OF assms(1,3,4,7,5,6)] by simp

definition request_log :: log where
  "request_log = [(Malloc 4, (plain 0)\<lparr>a_ptr := 9\<rparr>), (Accept 3, plain 6), (Socket 2 1 6, plain 3)]"

theorem command_servers_ok_witness:
  "ok_run (simple_run_server 4 4 (sim_os [''time'', ''quit'']) [])
    \<and> ok_run (threaded_run_server 4 (sim_os [''time'', ''quit'']) [])
    \<and> wp (server_handle_client 4 9 6) (\<lambda>closed h'. disciplined h' \<and>
        live h' = live request_log - {Block 9} - (if closed then {Fd 6} else {})) stop_ok (sim_os [''time'', ''quit'']) request_log"
  using command_servers_ok [OF lawful_sim_os memory_ok_sim_os, where f = 6 and h = request_log and p = 9 and m = 4 and n = 4]
  by (simp add: request_log_def res_simps)

text \<open>The answer of the protocol to a request received at time \<open>t\<close>.\<close>

definition reply_text :: "bytes \<Rightarrow> int \<Rightarrow> bytes" where
  "reply_text req t = (if is_farewell req then ''OK'' else if req = ''time'' then dec32 t else ''Unknown request'')"

definition reply_buffer :: "bytes \<Rightarrow> int \<Rightarrow> bytes" where
  "reply_buffer req t = reply_text req t @ replicate (1024 - length (reply_text req t)) NUL"

text \<open>What a history has sent, and what the clock has said, the newest first.\<close>

definition clock :: "log \<Rightarrow> int list" where
  "clock h = map (a_ret \<circ> snd) (filter (\<lambda>e. fst e = TimeCall) h)"

definition sends :: "log \<Rightarrow> call list" where
  "sends h = filter (\<lambda>c. case c of Send _ _ _ \<Rightarrow> True | _ \<Rightarrow> False) (map fst h)"

lemma time_stays [simp]: "\<not> is_farewell ''time''"
  by (simp add: is_farewell_def)

lemma length_reply_text: "length (reply_text req t) < 1024"
  using length_dec32 [of t] by (simp add: reply_text_def)

lemma overlay_reply: "overlay (zeros 1024) 0 (reply_text req t @ [NUL]) = reply_buffer req t"
proof -
  have "1024 - length (reply_text req t) = Suc (1024 - Suc (length (reply_text req t)))"
    using length_reply_text [of req t] by simp
  then show ?thesis
    using length_reply_text [of req t]
    by (simp add: reply_buffer_def zeros_def overlay_replicate)
qed

lemma wp_respond_reply:
  assumes "s = reply_text req t"
    and "\<And>a. Q (a_ret a) ((Send f (reply_buffer req t) 0, a) # h)"
  shows "wp (respond f s) Q E os h"
  using assms length_reply_text [of req t] by (simp add: respond_def wp_simps overlay_reply)

text \<open>
  C19: The protocol of the command servers. A request of fewer than 1024 bytes is answered
  with exactly one buffer of 1024 bytes that holds the reply as a string, padded with zeros,
  and the reply to \<open>time\<close> is what the clock said when it was asked, once, for this request;
  the session goes on unless the request says farewell, in which case the socket is closed.
\<close>

theorem command_protocol:
  assumes "lawful os" and "0 \<le> f" and "Fd f \<in> live h" and "disciplined h"
    and "0 < a_ret (os h (Recv f 1024 0))" and "a_ret (os h (Recv f 1024 0)) < 1024"
    and "req = cstr (a_buf (os h (Recv f 1024 0)))"
  shows "wp (serve_request g hdg f ()) (\<lambda>r h'.
      r = (if is_farewell req then Leave True else Again ()) \<and>
      (\<exists>t. sends h' = Send f (reply_buffer req t) 0 # sends h \<and>
        clock h' = (if req = ''time'' then t # clock h else clock h)) \<and>
      live h' = live h - (if is_farewell req then {Fd f} else {})) (\<lambda>_ _. False) os h"
  unfolding serve_request_def
proof (rule wp_recv_terminate [OF assms(1) _ assms(4)], goal_cases)
  case 2
  then show ?case using assms(2,3) by (simp add: needs_def)
next
  case (3 a)
  then show ?case using assms(5) by (simp add: answers_def)
next
  case (4 a buf)
  then have req: "cstr buf = req" by (simp add: answers_def assms(7))
  have ok: "is_farewell req \<Longrightarrow> ''OK'' = reply_text req 0"
    "\<not> is_farewell req \<Longrightarrow> req = ''time'' \<Longrightarrow> dec32 t = reply_text req t"
    "\<not> is_farewell req \<Longrightarrow> req \<noteq> ''time'' \<Longrightarrow> ''Unknown request'' = reply_text req 0" for t
    by (simp_all add: reply_text_def)
  show ?case
    using 4(4-6) assms(2,3)
    by (auto simp: wp_bindp wp_sys wp_if wp_thenp wp_whenp wp_ret wp_report_error wp_put_out wp_c_string wp_c_farewell
        wp_c_streq req res_simps sends_def clock_def intro!: wp_respond_reply [OF ok(1)] wp_respond_reply [OF ok(2)]
        wp_respond_reply [OF ok(3)])
next
  case (5 a)
  then show ?case using assms(6) by (simp add: answers_def)
qed (simp add: reads_full_def)

theorem command_protocol_witness:
  "wp (serve_request [] (\<lambda>t. t) 6 ()) (\<lambda>r h'. r = Leave True \<and>
      sends h' = [Send 6 (''OK'' @ replicate 1022 NUL) 0] \<and> Fd 6 \<notin> live h')
    (\<lambda>_ _. False) (sim_os [''quit'']) request_log"
proof -
  have r: "sim_os [''quit''] request_log (Recv 6 1024 0) = (plain 4)\<lparr>a_buf := ''quit''\<rparr>"
    by (simp add: sim_os_def sim_read_def request_log_def is_read_def)
  have b: "reply_buffer ''quit'' t = ''OK'' @ replicate 1022 NUL" for t
    by (simp add: reply_buffer_def reply_text_def is_farewell_def)
  show ?thesis
    by (rule wp_mono [OF command_protocol [of _ 6 _ "''quit''", OF lawful_sim_os]])
      (auto simp: r r [unfolded request_log_def] b request_log_def res_simps cstr_def is_farewell_def sends_def simp del: replicate.simps)
qed

text \<open>
  A client of the simple server that closes its connection, or whose connection fails,
  without saying farewell leaves a descriptor open for good: the session ends and nobody
  closes it.
\<close>

theorem disconnect_leaks:
  assumes "a_ret (os h (Recv f 1024 0)) \<le> 0" and "0 < m" and "0 \<le> f" and "Fd f \<in> live h"
  shows "\<exists>h'. simple_session m f os h = (Done False, h') \<and> Fd f \<in> live h'"
proof -
  obtain k where "m = Suc k" using assms(2) by (cases m) auto
  with assms(1,4) show ?thesis
    by (simp add: simple_session_def serve_request_def recv_request_def read_request_def received_def report_error_def put_err_def
        bindp_def thenp_def sys_def ret_def Let_def acquires_def releases_def)
qed

theorem disconnect_leaks_witness:
  "\<exists>h'. simple_session 5 6 (sim_os []) request_log = (Done False, h') \<and> Fd 6 \<in> live h'"
  by (rule disconnect_leaks) (auto simp: sim_os_def sim_read_def request_log_def res_simps)

end
