(* ===== verification/Tut_Clients.thy ===== *)
theory Tut_Clients
  imports Request_Server
begin

text \<open>
  The command-line clients of the tutorials: \<open>run_client\<close> of \<open>08_simple_client_server.c\<close>, and
  \<open>run_client\<close> of files 09, 12 and 13, whose text is the same in the three. A client connects
  and then reads lines, sends them and prints the answers until a farewell.

  A client prints the response buffer as a string without terminating it, so that an answer
  of 1024 bytes makes it read past the end of the array. The servers of 08 and 09 always send
  1024 bytes, but their text is followed by zeros.
\<close>

section \<open>Lines\<close>

text \<open>\<open>memset(buffer, 0, MESSAGE_SIZE); fgets(buffer, MESSAGE_SIZE, stdin)\<close>; at the end of
  the input the buffer stays zero.\<close>

definition read_line :: "bytes prog" where
  "read_line = bindp (sys (Fgets (int MESSAGE_SIZE))) (\<lambda>a. ret (overlay (zeros MESSAGE_SIZE) 0 (a_buf a)))"

text \<open>\<open>buffer[strcspn(buffer, reject)] = 0\<close>\<close>

definition chop_line :: "bytes \<Rightarrow> bytes \<Rightarrow> bytes prog" where
  "chop_line reject buf = bindp (c_strcspn buf reject) (\<lambda>n. poke buf n NUL)"

text \<open>What is left of a line.\<close>

definition chopped :: "bytes \<Rightarrow> bytes \<Rightarrow> bytes" where
  "chopped reject s = takeWhile (\<lambda>c. c \<notin> set reject \<and> c \<noteq> NUL) s"

text \<open>The printing of a response that came without a terminating NUL.\<close>

definition show_response :: "int \<Rightarrow> unit prog" where
  "show_response s = bindp (sys (Recv s (int MESSAGE_SIZE) 0)) (\<lambda>a.
     if a_ret a \<le> 0 then report_error ''Client recv() failed''
     else bindp (c_string (received a)) (\<lambda>response. put_out (fmt [''Response: '', response, [LF]])))"

section \<open>The rounds\<close>

text \<open>08: the line is printed before its newline is removed, and a short write is accepted.\<close>

definition simple_client_round :: "int \<Rightarrow> unit \<Rightarrow> (unit, unit) iter prog" where
  "simple_client_round sock_client u =
     thenp (put_out (fmt [''Client is ready to create new request'', [LF]]))
     (thenp (put_out ''Enter command: '')
     (bindp read_line (\<lambda>line.
      bindp (c_string line) (\<lambda>line_s.
      thenp (put_out (fmt [''Request: '', line_s, [LF]]))
      (bindp (chop_line [LF] line) (\<lambda>request.
       bindp (c_string request) (\<lambda>request_s.
       bindp (sys (Send sock_client request_s 0)) (\<lambda>sent.
       if a_ret sent \<le> 0 then thenp (report_error ''Client sent request fail'') (ret (Again ()))
       else thenp (show_response sock_client)
         (bindp (c_farewell request) (\<lambda>bye. ret (if bye then Leave () else Again ())))))))))))"

text \<open>09, 12 and 13\<close>

definition command_client_round :: "int \<Rightarrow> unit \<Rightarrow> (unit, unit) iter prog" where
  "command_client_round sock_client u =
     thenp (put_out (fmt [''Client is ready to reate a new request'', [LF]]))
     (thenp (put_out ''Enter command: '')
     (bindp read_line (\<lambda>line.
      bindp (chop_line [CR, LF] line) (\<lambda>request.
      bindp (c_string request) (\<lambda>request_s.
      thenp (put_out (fmt [''Request: '', request_s, [LF]]))
      (bindp (sys (Send sock_client request_s 0)) (\<lambda>sent.
       if a_ret sent \<noteq> int (length request_s)
       then thenp (report_error ''Client sent request fail'') (ret (Again ()))
       else thenp (show_response sock_client)
         (bindp (c_farewell request) (\<lambda>bye. ret (if bye then Leave () else Again ()))))))))))"

section \<open>The clients\<close>

definition simple_connector :: connector_cfg where
  "simple_connector = \<lparr>k_proto_msg = ''TCP protocol is not supported'',
     k_resolve_msg = ''Failed to resolve hostname'', k_socket_msg = ''client socket() failed'',
     k_connect_msg = ''client connect() failed'', k_close_first = True\<rparr>"

definition simple_run_client :: "nat \<Rightarrow> unit prog" where
  "simple_run_client n = bindp (open_connection simple_connector) (\<lambda>r. case r of None \<Rightarrow> ret ()
     | Some (info, sock_client) \<Rightarrow> bindp (loop n (simple_client_round sock_client) ()) (\<lambda>_.
        thenp (sys (Close sock_client)) (thenp (sys (FreeAddrInfo info))
        (put_out (fmt [''Client exit with normal status'', [LF]])))))"

definition command_connector :: connector_cfg where
  "command_connector = \<lparr>k_proto_msg = ''TCP protocol is not available'',
     k_resolve_msg = ''Can not resolve hostname'', k_socket_msg = ''Client socket() failed'',
     k_connect_msg = ''Client connect() failed'', k_close_first = False\<rparr>"

definition command_run_client :: "nat \<Rightarrow> unit prog" where
  "command_run_client n = bindp (open_connection command_connector) (\<lambda>r. case r of None \<Rightarrow> ret ()
     | Some (info, sock_client) \<Rightarrow> bindp (loop n (command_client_round sock_client) ()) (\<lambda>_.
        thenp (sys (FreeAddrInfo info)) (thenp (sys (Close sock_client))
        (put_out (fmt [''Client exit with normal status'', [LF]])))))"

text \<open>The same function in the files of the select and the poll server\<close>

definition select_run_client :: "nat \<Rightarrow> unit prog" where
  "select_run_client n = command_run_client n"

definition poll_run_client :: "nat \<Rightarrow> unit prog" where
  "poll_run_client n = command_run_client n"

section \<open>Facts\<close>

lemma chopped_NUL: "NUL \<notin> set (chopped r s)"
  by (auto simp: chopped_def dest: set_takeWhileD)

lemma cut_at:
  assumes "n = length (takeWhile P s)" and "n < length s" and "\<forall>c. P c \<longrightarrow> c \<noteq> NUL"
  shows "cstr (s[n := NUL]) = takeWhile P s" "terminated (s[n := NUL])"
proof -
  have "s[n := NUL] = take n s @ NUL # drop (Suc n) s" using assms(2) by (simp add: upd_conv_take_nth_drop)
  moreover have "take n s = takeWhile P s" using assms(1) by (simp add: takeWhile_eq_take [symmetric])
  moreover have "NUL \<notin> set (takeWhile P s)" using assms(3) by (auto dest: set_takeWhileD)
  ultimately show "cstr (s[n := NUL]) = takeWhile P s" "terminated (s[n := NUL])" by simp_all
qed

lemma wp_chop_line [wp_simps]:
  assumes "terminated buf"
  shows "wp (chop_line r buf) Q E os h = Q (buf[length (chopped r buf) := NUL]) h"
    and "terminated (buf[length (chopped r buf) := NUL])"
    and "cstr (buf[length (chopped r buf) := NUL]) = chopped r buf"
proof -
  have "length (chopped r buf) < length buf"
    using assms unfolding chopped_def by (induction buf) auto
  then show "wp (chop_line r buf) Q E os h = Q (buf[length (chopped r buf) := NUL]) h"
    "terminated (buf[length (chopped r buf) := NUL])" "cstr (buf[length (chopped r buf) := NUL]) = chopped r buf"
    using cut_at [of "length (chopped r buf)" "\<lambda>c. c \<notin> set r \<and> c \<noteq> NUL" buf] assms
    by (simp_all add: chop_line_def wp_simps chopped_def)
qed

text \<open>The text of a line is the text \<open>fgets\<close> gave, cut at the newline.\<close>

lemma chopped_line: "length s < 1024 \<Longrightarrow> chopped r (overlay (zeros 1024) 0 s) = chopped r s"
  by (cases "NUL \<in> set (takeWhile (\<lambda>c. c \<notin> set r) s)")
    (auto simp: chopped_def zeros_def overlay_replicate takeWhile_append takeWhile_eq_all_conv [THEN iffD2])

lemma read_line_eq: "read_line = bindp (sys (Fgets 1024)) (\<lambda>a. ret (overlay (zeros 1024) 0 (a_buf a)))"
  by (simp add: read_line_def)

lemma wp_read_line:
  assumes "lawful os" and "disciplined h"
    and "\<And>line h'. live h' = live h \<Longrightarrow> disciplined h' \<Longrightarrow> terminated line \<Longrightarrow> length line = 1024 \<Longrightarrow> Q line h'"
  shows "wp read_line Q E os h"
  unfolding read_line_eq wp_bindp wp_sys wp_ret
proof (intro allI impI, goal_cases)
  case (1 a)
  then have "length (a_buf a) < 1024" using fgets_law [OF assms(1)] by fastforce
  with assms(2) show ?case by (intro assms(3)) (simp_all add: res_simps)
qed

lemma wp_show_response:
  assumes law: "lawful os" and s: "0 \<le> s" "Fd s \<in> live h" and d: "disciplined h"
    and post: "\<And>h'. live h' = live h \<Longrightarrow> disciplined h' \<Longrightarrow> Q () h'"
    and over: "\<And>e h'. overrun e h' \<Longrightarrow> disciplined h' \<Longrightarrow> E e h'"
  shows "wp (show_response s) Q E os h"
  unfolding show_response_def of_nat_numeral
  by (rule wp_shown [OF law _ d])
    (use s in \<open>auto simp: reads_full_def needs_def intro!: wp_print post over overrunI\<close>)

text \<open>The rest of a round: the rules for the steps that leave the resources alone.\<close>

lemma wp_chop:
  assumes "terminated buf" and "\<And>req. terminated req \<Longrightarrow> Q req h"
  shows "wp (chop_line r buf) Q E os h"
  using wp_chop_line [OF assms(1), of r] assms(2) by simp

lemma wp_client_end:
  assumes law: "lawful os" and s: "0 \<le> s" "Fd s \<in> live h" and d: "disciplined h" and t: "terminated req"
  shows "wp (thenp (show_response s) (bindp (c_farewell req) (\<lambda>bye. ret (if bye then Leave () else Again ()))))
    (\<lambda>_ h'. live h' = live h \<and> disciplined h') stop_ok os h"
  unfolding wp_thenp
  by (rule wp_show_response [OF law s d]) (use t in \<open>auto simp: wp_bindp wp_c_farewell wp_ret stop_ok_def overrun_def\<close>)

text \<open>What follows the line in both clients: the request goes out, and the answer is shown.\<close>

lemma wp_exchange:
  assumes law: "lawful os" and s: "0 \<le> s" "Fd s \<in> L" and d: "disciplined h" and t: "terminated req" and l: "live h = L"
  shows "wp (bindp (sys (Send s b 0)) (\<lambda>sent. if bad (a_ret sent)
      then thenp (report_error m) (ret (Again ()))
      else thenp (show_response s) (bindp (c_farewell req) (\<lambda>bye. ret (if bye then Leave () else Again ())))))
    (\<lambda>_ h'. live h' = L \<and> disciplined h') stop_ok os h"
  unfolding wp_bindp [of "sys c" for c]
proof (rule wp_quiet_sys, goal_cases)
  case (4 a h1)
  have "wp (thenp (report_error m) (ret (Again () :: (unit, unit) iter))) (\<lambda>_ h'. live h' = L \<and> disciplined h') stop_ok os h1"
    unfolding wp_thenp by (rule wp_print) (use 4 l in \<open>simp_all add: wp_ret\<close>)
  with wp_client_end [OF law s(1) _ 4(3) t] 4 s l show ?case by simp
qed (use s d l in \<open>auto simp: acquires_def releases_def needs_def\<close>)

lemma wp_simple_client_round:
  assumes law: "lawful os" and s: "0 \<le> s" "Fd s \<in> live h" and d: "disciplined h"
  shows "wp (simple_client_round s u) (\<lambda>_ h'. live h' = live h \<and> disciplined h') stop_ok os h"
  unfolding simple_client_round_def wp_thenp [of "put_out c" for c] wp_bindp [of read_line]
proof (rule wp_print, rule d, rule wp_print, assumption, rule wp_read_line [OF law], assumption, goal_cases)
  case (1 h1 h2 line h3)
  then have "wp (bindp (chop_line [LF] line) (\<lambda>request. bindp (c_string request) (\<lambda>request_s.
      bindp (sys (Send s request_s 0)) (\<lambda>sent. if a_ret sent \<le> 0
      then thenp (report_error ''Client sent request fail'') (ret (Again ()))
      else thenp (show_response s) (bindp (c_farewell request) (\<lambda>bye. ret (if bye then Leave () else Again ())))))))
    (\<lambda>_ h'. live h' = live h \<and> disciplined h') stop_ok os h'" if "live h' = live h" "disciplined h'" for h'
    unfolding wp_bindp [of "chop_line c d" for c d]
    by (intro wp_chop) (use wp_exchange [OF law s that(2) _ that(1), where bad = "\<lambda>x. x \<le> 0"] that s in \<open>auto simp: wp_bindp [of "c_string c" for c] wp_c_string\<close>)
  with 1 show ?case
    unfolding wp_bindp [of "c_string c" for c] wp_c_string wp_thenp [of "put_out c" for c]
    by (simp, intro wp_print) simp_all
qed

lemma wp_command_client_round:
  assumes law: "lawful os" and s: "0 \<le> s" "Fd s \<in> live h" and d: "disciplined h"
  shows "wp (command_client_round s u) (\<lambda>_ h'. live h' = live h \<and> disciplined h') stop_ok os h"
  unfolding command_client_round_def wp_thenp [of "put_out c" for c] wp_bindp [of read_line]
proof (rule wp_print, rule d, rule wp_print, assumption, rule wp_read_line [OF law], assumption, goal_cases)
  case (1 h1 h2 line h3)
  then show ?case
    unfolding wp_bindp [of "chop_line c d" for c d] wp_bindp [of "c_string c" for c] wp_c_string
  proof (intro wp_chop, goal_cases)
    case (2 req)
    have "wp (put_out t) (\<lambda>_ h'. wp (bindp (sys (Send s b 0)) (\<lambda>sent. if a_ret sent \<noteq> n
        then thenp (report_error ''Client sent request fail'') (ret (Again ()))
        else thenp (show_response s) (bindp (c_farewell req) (\<lambda>bye. ret (if bye then Leave () else Again ())))))
      (\<lambda>_ h'. live h' = live h \<and> disciplined h') stop_ok os h') stop_ok os h3" for t b n
      by (intro wp_print, rule 2) (use wp_exchange [OF law s _ 2(9),  where bad = "\<lambda>x. x \<noteq> n"] 2 s in auto)
    with 2 show ?case by (simp add: wp_thenp [of "put_out c" for c])
  qed
qed

section \<open>Properties\<close>

lemma wp_client:
  assumes law: "lawful os"
    and round: "\<And>s h. 0 \<le> s \<Longrightarrow> Fd s \<in> live h \<Longrightarrow> disciplined h \<Longrightarrow>
      wp (body s ()) (\<lambda>_ h'. live h' = live h \<and> disciplined h') stop_ok os h"
    and tail: "\<And>info s h. 0 \<le> s \<Longrightarrow> live h = insert (Fd s) (insert (Info info) {Fd 0, Fd 1, Fd 2}) \<Longrightarrow>
      Fd s \<notin> {Fd 0, Fd 1, Fd 2} \<Longrightarrow> disciplined h \<Longrightarrow>
      wp (tail info s) (\<lambda>_ h'. live h' = {Fd 0, Fd 1, Fd 2} \<and> disciplined h') stop_ok os h"
  shows "wp (bindp (open_connection cfg) (\<lambda>r. case r of None \<Rightarrow> ret ()
     | Some (info, s) \<Rightarrow> bindp (loop n (body s) ()) (\<lambda>_ :: unit. tail info s)))
    (\<lambda>_ h'. live h' = {Fd 0, Fd 1, Fd 2} \<and> disciplined h') stop_ok os []"
  unfolding wp_bindp [of "open_connection cfg"]
proof (rule wp_open_connection [OF law], goal_cases)
  case (3 info s h)
  show ?case
    unfolding option.case prod.case
  proof (rule wp_served, goal_cases)
    case (1 u h1)
    have u: "u = ()" by simp
    show ?case
      unfolding u by (rule wp_mono [OF round]) (use 1 3 in simp_all)
  next
    case (2 u h1)
    then show ?case by (intro tail) (use 3 in simp_all)
  qed (rule 3)
qed (simp_all add: wp_ret)

lemma wp_simple_run_client:
  assumes "lawful os"
  shows "wp (simple_run_client n) (\<lambda>_ h'. live h' = {Fd 0, Fd 1, Fd 2} \<and> disciplined h') stop_ok os []"
  unfolding simple_run_client_def
  by (rule wp_client [OF assms wp_simple_client_round [OF assms]]) (auto simp: wp_simps res_simps)

lemma wp_command_run_client:
  assumes "lawful os"
  shows "wp (command_run_client n) (\<lambda>_ h'. live h' = {Fd 0, Fd 1, Fd 2} \<and> disciplined h') stop_ok os []"
  unfolding command_run_client_def
  by (rule wp_client [OF assms wp_command_client_round [OF assms]]) (auto simp: wp_simps res_simps)

text \<open>
  The command-line clients, in every environment that behaves as documented, use and close
  only descriptors that are open; the one way into undefined behaviour is an answer of 1024
  bytes, which is printed without a terminating NUL; and a client that returns, normally
  or because its setup failed, has given everything back.
\<close>

theorem clients_ok:
  assumes "lawful os" and "run \<in> {simple_run_client n, command_run_client n, select_run_client n, poll_run_client n}"
  shows "ok_run (run os []) \<and> returns_clean (run os [])"
  using assms(2) wp_simple_run_client [OF assms(1)] wp_command_run_client [OF assms(1)]
  by (auto simp: select_run_client_def poll_run_client_def ok_cleanI)

theorem clients_ok_witness:
  "ok_run (simple_run_client 3 (sim_os [''time'' @ [LF], ''12'', ''quit'' @ [LF], ''OK'']) []) \<and>
    returns_clean (simple_run_client 3 (sim_os [''time'' @ [LF], ''12'', ''quit'' @ [LF], ''OK'']) [])"
  by (rule clients_ok [OF lawful_sim_os, of _ 3]) simp

end
