(* ===== verification/Datagram.thy ===== *)
theory Datagram
  imports Tut_Clients
begin

text \<open>
  The datagram server and client of \<open>00_tutorials/10_peer_to_peer_client_server.c\<close>.

  A datagram carries the address of its sender. The server answers to that address; the
  client lets \<open>recvfrom\<close> store it in the address it sends to, so that after an answer it
  talks to whoever answered.
\<close>

section \<open>Definitions\<close>

abbreviation (input) UDP_PORT :: "16 word" where "UDP_PORT \<equiv> 45123"
abbreviation (input) sizeof_sockaddr :: int where "sizeof_sockaddr \<equiv> 16"

definition udp_resolver :: resolver where
  "udp_resolver = \<lparr>r_report = report_error, r_proto = ''udp'', r_type = SOCK_DGRAM,
     r_port = uint (htons UDP_PORT)\<rparr>"

definition udp_open_server :: "(int \<times> int) option prog" where
  "udp_open_server =
     bindp (resolve_and_open udp_resolver ''UDP protocol is not supported'' None 0
       ''Server can not resolve hostname'' ''Server socket() failed'') (\<lambda>r. case r of None \<Rightarrow> ret None
     | Some (info, infos, s) \<Rightarrow> bindp (bind_all s infos 0) (\<lambda>rc.
       if rc \<noteq> 0
       then thenp (report_error ''Server bind() failed'') (thenp (give_up False s info) (ret None))
       else ret (Some (info, s))))"

text \<open>The line about a request: the two strings of \<open>getnameinfo\<close> are one text of the answer.\<close>

definition udp_announce :: "sockaddr \<Rightarrow> bytes \<Rightarrow> unit prog" where
  "udp_announce peer request_s = bindp (sys (GetNameInfo peer)) (\<lambda>n.
     if a_ret n = 0
     then put_out (fmt [''Server received '', a_buf n, '' client request: '', request_s, [LF]])
     else put_out (fmt [''Server received unknown client request: '', request_s, [LF]]))"

definition udp_server_round :: "int \<Rightarrow> unit \<Rightarrow> (unit, unit) iter prog" where
  "udp_server_round s u = bindp (sys (RecvFrom s (int MESSAGE_SIZE) 0)) (\<lambda>a.
     if a_ret a \<le> 0 then thenp (report_error ''Server recvfrom() failed'') (ret (Again ()))
     else bindp (terminate_request (a_ret a) (received a)) (\<lambda>request.
     bindp (c_string request) (\<lambda>request_s.
     thenp (udp_announce (a_peer a) request_s)
     (bindp (sys TimeCall) (\<lambda>t.
      bindp (sprintf_to (zeros MESSAGE_SIZE) (''Server received request at '' @ dec32 (a_ret t))) (\<lambda>response.
      bindp (c_string response) (\<lambda>response_s.
      bindp (sys (SendTo s response_s 0 (a_peer a) sizeof_sockaddr)) (\<lambda>rc.
      thenp (whenp (a_ret rc \<noteq> int (length response_s)) (report_error ''Server sendto() failed''))
        (ret (Again ()))))))))))"

definition udp_run_server :: "nat \<Rightarrow> unit prog" where
  "udp_run_server n = bindp udp_open_server (\<lambda>r. case r of None \<Rightarrow> ret ()
     | Some (info, s) \<Rightarrow> thenp (put_out (fmt [''Server is ready to receive client requests'', [LF]]))
       (bindp (loop n (udp_server_round s) ()) (\<lambda>_.
        thenp (sys (FreeAddrInfo info)) (thenp (sys (Close s))
        (put_out (fmt [''Server exit with normal status'', [LF]]))))))"

text \<open>The state of the client's loop is the address it sends to. Its length does not change:
  the addresses are IPv4.\<close>

definition udp_receive :: "int \<Rightarrow> bytes \<Rightarrow> sockaddr \<Rightarrow> (sockaddr, unit) iter prog" where
  "udp_receive s request to = bindp (sys (RecvFrom s (int MESSAGE_SIZE) 0)) (\<lambda>a.
     if a_ret a \<le> 0
     then thenp (report_error ''Client recvfrom() failed'') (ret (Again (if a_ret a < 0 then to else a_peer a)))
     else bindp (terminate_request (a_ret a) (received a)) (\<lambda>response.
     bindp (c_string response) (\<lambda>response_s.
     thenp (put_out (fmt [''Client received response: '', response_s, [LF]]))
     (bindp (c_farewell request) (\<lambda>bye. ret (if bye then Leave () else Again (a_peer a)))))))"

definition udp_client_round :: "int \<Rightarrow> int \<Rightarrow> sockaddr \<Rightarrow> (sockaddr, unit) iter prog" where
  "udp_client_round s len to =
     thenp (put_out ''Enter command: '')
     (bindp read_line (\<lambda>line.
      bindp (chop_line [CR, LF] line) (\<lambda>request.
      bindp (c_string request) (\<lambda>request_s.
      bindp (sys (SendTo s request_s 0 to len)) (\<lambda>rc.
      if a_ret rc \<noteq> int (length request_s)
      then thenp (report_error ''Client sendto() failed'') (ret (Again to))
      else udp_receive s request to)))))"

definition udp_run_client :: "nat \<Rightarrow> unit prog" where
  "udp_run_client n =
     bindp (resolve_and_open udp_resolver ''UDP protocol is not supported'' (Some ''localhost'') 0
       ''Client can not resolve hostname'' ''Client socket() failed'') (\<lambda>r. case r of None \<Rightarrow> ret ()
     | Some (info, infos, s) \<Rightarrow> thenp (put_out (fmt [''Client is ready to send requests'', [LF]]))
       (bindp (loop n (udp_client_round s (ai_addrlen (hd infos))) (ai_addr (hd infos))) (\<lambda>_.
        thenp (sys (FreeAddrInfo info)) (thenp (sys (Close s))
        (put_out (fmt [''Client exit with normal status'', [LF]]))))))"

section \<open>Facts\<close>

lemma sane_udp_resolver: "sane_resolver udp_resolver os"
  by (simp add: sane_resolver_def udp_resolver_def quiet_report_error htons_TCP_PORT)

lemma full_recvfrom [simp]: "reads_full (RecvFrom s 1024 0)"
  by (simp add: reads_full_def)

lemma wp_udp_open_server:
  assumes os: "lawful os" and d: "disciplined h"
    and none: "\<And>h'. live h' = live h \<Longrightarrow> disciplined h' \<Longrightarrow> Q None h'"
    and some: "\<And>p s h'. 0 \<le> s \<Longrightarrow> Fd s \<notin> live h \<Longrightarrow> Info p \<notin> live h \<Longrightarrow>
      live h' = insert (Fd s) (insert (Info p) (live h)) \<Longrightarrow> disciplined h' \<Longrightarrow> Q (Some (p, s)) h'"
  shows "wp udp_open_server Q E os h"
  unfolding udp_open_server_def
  apply (subst wp_bindp)
proof (rule wp_resolve_and_open [OF os d sane_udp_resolver], goal_cases)
  case 1
  then show ?case by (simp add: wp_ret none)
next
  case (2 p ps s h1)
  have drop: "wp (thenp (report_error m) (thenp (give_up False s p) (ret None))) Q E os h'"
    if "live h' = live h1" "disciplined h'" for h' m
    by (rule wp_abandon [OF _ _ _ that(2)]) (use 2 that in \<open>auto intro: none\<close>)
  show ?case
    unfolding option.case prod.case wp_bindp [of "bind_all a b c" for a b c]
    by (rule quietD [OF quiet_bind_all]) (use 2 drop in \<open>auto simp: wp_if wp_ret intro!: some\<close>)
qed

lemma udp_text_fits: "length (''Server received request at '' @ dec32 t) < 1024"
  using length_dec32 [of t] by simp

lemma udp_text:
  "cstr (overlay (zeros 1024) 0 ((''Server received request at '' @ dec32 t) @ [NUL])) = ''Server received request at '' @ dec32 t"
  "terminated (overlay (zeros 1024) 0 ((''Server received request at '' @ dec32 t) @ [NUL]))"
  using udp_text_fits [of t] cstr_overlay [of "''Server received request at '' @ dec32 t" "zeros 1024"]
    terminated_overlay [of "''Server received request at '' @ dec32 t" "zeros 1024"]
  by (simp_all add: dec32_def)

text \<open>The rule of an answered datagram: what the round does after the request is in.\<close>

lemma wp_udp_server_round:
  assumes law: "lawful os" and s: "0 \<le> s" "Fd s \<in> live h" and d: "disciplined h"
    and post: "\<And>h'. live h' = live h \<Longrightarrow> disciplined h' \<Longrightarrow> Q (Again ()) h'"
    and over: "\<And>e h'. overrun e h' \<Longrightarrow> disciplined h' \<Longrightarrow> E e h'"
  shows "wp (udp_server_round s u) Q E os h"
  unfolding udp_server_round_def of_nat_numeral
proof (rule wp_received [OF law _ d], goal_cases)
  case 2
  then show ?case using s by (simp add: needs_def)
next
  case (3 a)
  then show ?case by (auto simp: wp_simps res_simps intro!: post)
next
  case (4 a req)
  then show ?case
    using s udp_text udp_text_fits
    by (auto simp: wp_simps res_simps udp_announce_def intro!: post)
next
  case (5 a)
  then show ?case by (auto intro!: over overrunI)
qed simp

lemma wp_udp_receive:
  assumes law: "lawful os" and s: "0 \<le> s" "Fd s \<in> live h" and d: "disciplined h" and t: "terminated request"
    and post: "\<And>r h'. live h' = live h \<Longrightarrow> disciplined h' \<Longrightarrow> Q r h'"
    and over: "\<And>e h'. overrun e h' \<Longrightarrow> disciplined h' \<Longrightarrow> E e h'"
  shows "wp (udp_receive s request to) Q E os h"
  unfolding udp_receive_def of_nat_numeral
proof (rule wp_received [OF law _ d], goal_cases)
  case 2
  then show ?case using s by (simp add: needs_def)
next
  case (3 a)
  then show ?case by (auto simp: wp_simps res_simps intro!: post)
next
  case (4 a req)
  then show ?case using t by (auto simp: wp_simps res_simps intro!: post)
next
  case (5 a)
  then show ?case by (auto intro!: over overrunI)
qed simp

lemma wp_udp_client_round:
  assumes law: "lawful os" and s: "0 \<le> s" "Fd s \<in> live h" and d: "disciplined h"
    and post: "\<And>r h'. live h' = live h \<Longrightarrow> disciplined h' \<Longrightarrow> Q r h'"
    and over: "\<And>e h'. overrun e h' \<Longrightarrow> disciplined h' \<Longrightarrow> E e h'"
  shows "wp (udp_client_round s len to) Q E os h"
  unfolding udp_client_round_def wp_thenp [of "put_out c" for c] wp_bindp [of read_line]
proof (rule wp_print, rule d, rule wp_read_line [OF law], assumption, goal_cases)
  case (1 h1 line h2)
  then show ?case
    unfolding wp_bindp [of "chop_line c d" for c d]
  proof (intro wp_chop, goal_cases)
    case (2 req)
    have "wp (if a_ret rc \<noteq> n then thenp (report_error ''Client sendto() failed'') (ret (Again to))
        else udp_receive s req to) Q E os h3"
      if "live h3 = live h" "disciplined h3" for h3 rc n
      using that s 2 by (auto simp: wp_thenp wp_ret intro!: wp_print post over wp_udp_receive [OF law])
    with 2 s show ?case
      unfolding wp_bindp [of "c_string c" for c] wp_c_string wp_bindp [of "sys c" for c]
      by (simp add: 2 del: if_not_P, intro wp_quiet_sys) (auto simp: res_simps split del: if_split)
  qed
qed

lemma wp_udp_run_server:
  assumes "lawful os"
  shows "wp (udp_run_server n) (\<lambda>_ h. live h = {Fd 0, Fd 1, Fd 2} \<and> disciplined h) stop_ok os []"
  unfolding udp_run_server_def wp_bindp [of udp_open_server]
proof (rule wp_udp_open_server [OF assms], goal_cases)
  case (3 p s h)
  show ?case
    unfolding option.case prod.case wp_thenp [of "put_out c" for c]
  proof (rule wp_print, rule 3, rule wp_served, goal_cases)
    case (1 h1 u h2)
    then show ?case using 3 by (intro wp_udp_server_round [OF assms]) (auto simp: stop_ok_def overrun_def)
  next
    case (2 h1 u h2)
    show ?case
      by (rule wp_teardown(1) [where L = "{Fd 0, Fd 1, Fd 2}"]) (use 2 3 in \<open>simp_all add: wp_print\<close>)
  qed
qed (simp_all add: wp_ret)

lemma wp_udp_run_client:
  assumes "lawful os"
  shows "wp (udp_run_client n) (\<lambda>_ h. live h = {Fd 0, Fd 1, Fd 2} \<and> disciplined h) stop_ok os []"
  unfolding udp_run_client_def wp_bindp [of "resolve_and_open a b c d e f" for a b c d e f]
proof (rule wp_resolve_and_open [OF assms _ sane_udp_resolver], goal_cases)
  case (3 p ps s h)
  show ?case
    unfolding option.case prod.case wp_thenp [of "put_out c" for c]
  proof (rule wp_print, rule 3, rule wp_served, goal_cases)
    case (1 h1 u h2)
    then show ?case using 3 by (intro wp_udp_client_round [OF assms]) (auto simp: stop_ok_def overrun_def)
  next
    case (2 h1 u h2)
    show ?case
      by (rule wp_teardown(1) [where L = "{Fd 0, Fd 1, Fd 2}"]) (use 2 3 in \<open>simp_all add: wp_print\<close>)
  qed
qed (simp_all add: wp_ret)

section \<open>Properties\<close>

text \<open>
  The datagram server and client, in every environment that behaves as documented, use
  and close only what is open; a datagram of 1024 bytes is the only way into undefined
  behaviour; and whenever they return they have given everything back.
\<close>

theorem udp_ok:
  assumes "lawful os"
  shows "ok_run (udp_run_server n os []) \<and> returns_clean (udp_run_server n os []) \<and>
    ok_run (udp_run_client n os []) \<and> returns_clean (udp_run_client n os [])"
  using wp_udp_run_server [OF assms] wp_udp_run_client [OF assms] by (simp add: ok_cleanI)

theorem udp_ok_witness:
  "ok_run (udp_run_server 3 (sim_os [''hello'']) []) \<and> returns_clean (udp_run_server 3 (sim_os [''hello'']) []) \<and>
    ok_run (udp_run_client 3 (sim_os [''hello'']) []) \<and> returns_clean (udp_run_client 3 (sim_os [''hello'']) [])"
  by (rule udp_ok [OF lawful_sim_os])

text \<open>The datagram that is still to be answered: the last one received, unless a datagram has
  been sent since.\<close>

fun unanswered :: "log \<Rightarrow> answer option" where
  "unanswered [] = None"
| "unanswered ((c, a) # h) = (case c of RecvFrom _ _ _ \<Rightarrow> Some a | SendTo _ _ _ _ _ \<Rightarrow> None | _ \<Rightarrow> unanswered h)"

definition udp_rule :: "log \<Rightarrow> call \<Rightarrow> bool" where
  "udp_rule h c \<longleftrightarrow> (case c of
      SendTo s text fl peer n \<Rightarrow> (case unanswered h of None \<Rightarrow> False | Some a \<Rightarrow> 0 < a_ret a \<and> peer = a_peer a)
    | _ \<Rightarrow> True)"

lemma traced_wp_from:
  assumes "traced os P m" and "trace_ok P h []"
  shows "wp m (\<lambda>_ h'. trace_ok P h' []) (\<lambda>_ h'. trace_ok P h' []) os h"
proof -
  obtain evs where "snd (m os h) = evs @ h" "trace_ok P evs h" using assms(1) by (auto simp: traced_def)
  with assms(2) show ?thesis
    by (auto simp: wp_def trace_ok_append split: prod.split outcome.split)
qed

lemma udp_rule_other [simp]: "(case c of SendTo _ _ _ _ _ \<Rightarrow> False | _ \<Rightarrow> True) \<Longrightarrow> udp_rule h c"
  by (simp add: udp_rule_def split: call.splits)

lemma traced_bind_all: "(\<And>h p n. P h (Bind s p n)) \<Longrightarrow> traced os P (bind_all s ps rc)"
  by (induction ps arbitrary: rc) (auto intro!: traced_intros)

lemma wp_udp_rule_round:
  "trace_ok udp_rule h [] \<Longrightarrow>
   wp (udp_server_round s u) (\<lambda>r h'. r = Again () \<and> trace_ok udp_rule h' []) (\<lambda>_ h'. trace_ok udp_rule h' []) os h"
  by (simp add: udp_server_round_def udp_announce_def terminate_request_def wp_simps)
    (simp add: udp_rule_def)

text \<open>
  C22: The datagram server answers each datagram at most once, only after it has come with
  content, and to its sender: whatever the environment does, every datagram it sends goes to
  the sender of the last one received, with nothing sent in between.
\<close>

theorem udp_replies_to_sender: "trace_ok udp_rule (snd (udp_run_server n os [])) []"
proof -
  have start: "traced os udp_rule udp_open_server"
    unfolding udp_open_server_def resolve_and_open_def report_error_def put_err_def give_up_def port_text_def
      sprintf_to_def c_string_def udp_resolver_def resolver.simps
    by (intro traced_intros traced_bind_all) auto
  have tail: "traced os udp_rule (thenp (sys (FreeAddrInfo p)) (thenp (sys (Close s)) (put_out t)))" for p s t
    unfolding put_out_def by (intro traced_intros) auto
  have serve: "wp (thenp (put_out t) (bindp (loop n (udp_server_round s) ()) (\<lambda>_. thenp (sys (FreeAddrInfo p))
      (thenp (sys (Close s)) (put_out t'))))) (\<lambda>_ h. trace_ok udp_rule h []) (\<lambda>_ h. trace_ok udp_rule h []) os h"
    if "trace_ok udp_rule h []" for p s t t' h
    unfolding wp_thenp [of "put_out t"] wp_put_out wp_bindp
    by (intro allI impI, rule wp_loop [where I = "\<lambda>_ h. trace_ok udp_rule h []"])
      (use that in \<open>auto intro!: wp_mono [OF wp_udp_rule_round] simp: traced_wp_from [OF tail]\<close>)
  have "wp (udp_run_server n) (\<lambda>_ h. trace_ok udp_rule h []) (\<lambda>_ h. trace_ok udp_rule h []) os []"
    unfolding udp_run_server_def wp_bindp [of udp_open_server]
    by (rule wp_mono [OF traced_wp_from [OF start]]) (auto simp: wp_ret serve split: option.split)
  then show ?thesis by (auto simp: wp_def split: prod.splits outcome.splits)
qed

text \<open>
  The client keeps no peer: once somebody, the server or anybody else who knows the port,
  has sent it a datagram, the next request goes to that sender and no longer to the server.
\<close>

theorem udp_client_follows_sender:
  assumes "lawful os" and "a = os h (RecvFrom s 1024 0)" and "0 < a_ret a" and "a_ret a < 1024"
    and "0 \<le> s" and "Fd s \<in> live h" and "disciplined h" and "terminated request"
    and "\<not> is_farewell (cstr request)"
  shows "wp (udp_receive s request to) (\<lambda>r _. r = Again (a_peer a)) (\<lambda>_ _. False) os h"
  unfolding udp_receive_def of_nat_numeral
proof (rule wp_received [OF assms(1) _ assms(7)], goal_cases)
  case 2
  then show ?case using assms(5,6) by (simp add: needs_def)
next
  case (4 b req)
  then have "b = a" by (simp add: answers_def assms(2))
  with 4 assms(8,9) show ?case by (auto simp: wp_simps)
qed (use assms(2-4) in \<open>auto simp: answers_def\<close>)

theorem udp_client_follows_sender_witness:
  "wp (udp_receive 3 (''time'' @ [NUL]) \<lparr>sa_family = 2, sin_port = 17328, sin_addr = ''127.0.0.1''\<rparr>) (\<lambda>r _. r = Again zero_sockaddr) (\<lambda>_ _. False)
     (sim_os [''spoof'']) [(Socket 2 2 17, plain 3)]"
  by (rule wp_mono [OF udp_client_follows_sender [OF lawful_sim_os refl]])
    (auto simp: sim_os_def sim_read_def is_read_def res_simps is_farewell_def cstr_def)

end
