(* ===== verification/Nonblock.thy ===== *)
theory Nonblock
  imports Tut_Clients
begin

text \<open>
  The server and client of \<open>00_tutorials/11_non_blocking_sockets.c\<close>. The server polls two
  non-blocking sockets in turn: while it has no client it tries to accept one, and while it
  has one it tries to receive from it. Its state is the descriptor of the client, negative
  when there is none.

  Nothing resets that descriptor when the client goes away. The theorems say what follows:
  the server accepts one client in its life, and turns round without waiting once that
  client has disconnected.
\<close>

section \<open>Definitions\<close>

text \<open>\<open>errno != EAGAIN && errno != EWOULDBLOCK\<close>; on Linux the two are the same number.\<close>

definition hard_error :: "answer \<Rightarrow> bool" where
  "hard_error a \<longleftrightarrow> a_errno a \<noteq> EAGAIN"

text \<open>The first half of a round. \<open>Leave\<close> is the \<open>break\<close>.\<close>

definition nb_accept :: "int \<Rightarrow> int \<Rightarrow> (int, int) iter prog" where
  "nb_accept sock_server sock_client =
     (if sock_client < 0
      then bindp (sys (Accept sock_server)) (\<lambda>a.
        if a_ret a < 0
        then if hard_error a then thenp (report_error ''Server accept() failed'') (ret (Leave (a_ret a)))
             else thenp (put_out (fmt [''No client connection'', [LF]])) (ret (Again (a_ret a)))
        else thenp (greet a) (thenp (tut_set_non_blocking (a_ret a)) (ret (Again (a_ret a)))))
      else ret (Again sock_client))"

text \<open>The second half: one attempt to receive, and an answer of ten bytes.\<close>

definition nb_receive :: "int \<Rightarrow> (int, int) iter prog" where
  "nb_receive sock_client = bindp (sys (Recv sock_client (int MESSAGE_SIZE) 0)) (\<lambda>a.
     if a_ret a \<le> 0 then
       (if a_ret a < 0
        then if hard_error a then thenp (report_error ''Server recv() failed'') (ret (Leave sock_client))
             else ret (Again sock_client)
        else thenp (put_out (fmt [''Client is disconnected'', [LF]])) (ret (Again sock_client)))
     else bindp (terminate_request (a_ret a) (received a)) (\<lambda>buffer.
     bindp (c_string buffer) (\<lambda>text.
     thenp (put_out (fmt [''Server received data: '', text, [LF]]))
     (bindp (sys (Send sock_client (''Status OK'' @ [NUL]) 0)) (\<lambda>sent_bytes.
      thenp (whenp (a_ret sent_bytes \<noteq> 10) (report_error ''Server send() failed''))
        (ret (Again sock_client)))))))"

definition nb_round :: "int \<Rightarrow> int \<Rightarrow> (int, int) iter prog" where
  "nb_round sock_server sock_client = bindp (nb_accept sock_server sock_client) (\<lambda>r. case r of
       Again sock_client \<Rightarrow> if sock_client > 0 then nb_receive sock_client else ret (Again sock_client)
     | Leave sock_client \<Rightarrow> ret (Leave sock_client))"

definition nb_listener :: listener_cfg where
  "nb_listener = \<lparr>l_proto_msg = ''TCP protocol is not supported'', l_host = Some ''localhost'',
     l_flags = AI_PASSIVE, l_resolve_msg = ''Server getaddrinfo() failed'',
     l_prepare = tut_set_non_blocking, l_backlog = 100, l_listen_bad = (\<lambda>rc. rc \<noteq> 0),
     l_close_first = False\<rparr>"

definition nb_run_server :: "nat \<Rightarrow> unit prog" where
  "nb_run_server n = bindp (open_listener nb_listener) (\<lambda>r. case r of None \<Rightarrow> ret ()
     | Some (info, sock_server) \<Rightarrow> bindp (loop n (nb_round sock_server) (- 1)) (\<lambda>sock_client.
        thenp (sys (Close sock_server)) (thenp (sys (Close sock_client))
        (thenp (sys (FreeAddrInfo info)) (ret ())))))"

text \<open>The client sends the time and shows what comes back.\<close>

definition nb_show :: "int \<Rightarrow> (unit, unit) iter prog" where
  "nb_show sock_client = bindp (sys (Recv sock_client (int MESSAGE_SIZE) 0)) (\<lambda>a.
     if a_ret a \<le> 0 then
       (if a_ret a < 0
        then if hard_error a then thenp (report_error ''Client recv() failed'') (ret (Leave ()))
             else ret (Again ())
        else thenp (put_out (fmt [''Server is down'', [LF]])) (ret (Again ())))
     else bindp (c_string (received a)) (\<lambda>text.
       thenp (put_out (fmt [''Client get response: '', text, [LF]])) (ret (Again ()))))"

definition nb_client_round :: "int \<Rightarrow> unit \<Rightarrow> (unit, unit) iter prog" where
  "nb_client_round sock_client u =
     bindp (sys TimeCall) (\<lambda>t.
     bindp (sprintf_to (zeros MESSAGE_SIZE) ((''Client time: '' @ dec32 (a_ret t)) @ [LF])) (\<lambda>line.
     bindp (c_strcspn line [LF]) (\<lambda>buffer_len.
     bindp (poke line buffer_len NUL) (\<lambda>buffer.
     bindp (sys (Send sock_client (take (nat buffer_len) buffer) 0)) (\<lambda>sent_bytes.
     if a_ret sent_bytes \<noteq> buffer_len
     then if hard_error sent_bytes then thenp (report_error ''Client send() failed'') (ret (Leave ()))
          else nb_show sock_client
     else bindp (c_string buffer) (\<lambda>text.
       thenp (put_out (fmt [''Client sent: '', text, [LF]])) (nb_show sock_client)))))))"

definition nb_connector :: connector_cfg where
  "nb_connector = \<lparr>k_proto_msg = ''TCP protocol is not supported'',
     k_resolve_msg = ''Server getaddrinfo() failed'', k_socket_msg = ''Client socket() failed'',
     k_connect_msg = ''Client connect() failed'', k_close_first = False\<rparr>"

definition nb_run_client :: "nat \<Rightarrow> unit prog" where
  "nb_run_client n = bindp (open_connection nb_connector) (\<lambda>r. case r of None \<Rightarrow> ret ()
     | Some (info, sock_client) \<Rightarrow> bindp (loop n (nb_client_round sock_client) ()) (\<lambda>_.
        thenp (sys (FreeAddrInfo info)) (thenp (sys (Close sock_client)) (ret ()))))"

section \<open>The server\<close>

text \<open>Either there is no client, or its descriptor is the one more that is open.\<close>

definition nb_inv :: "int \<Rightarrow> int \<Rightarrow> int \<Rightarrow> log \<Rightarrow> bool" where
  "nb_inv info s c h \<longleftrightarrow> 0 \<le> s \<and> Fd s \<notin> {Fd 0, Fd 1, Fd 2} \<and> disciplined h \<and>
     (0 \<le> c \<longrightarrow> Fd c \<notin> {Fd s, Fd 0, Fd 1, Fd 2}) \<and>
     live h = {Fd s, Info info, Fd 0, Fd 1, Fd 2} \<union> fd_res c"

lemma nb_inv_quiet: "nb_inv info s c h \<Longrightarrow> live h' = live h \<Longrightarrow> disciplined h' \<Longrightarrow> nb_inv info s c h'"
  by (simp add: nb_inv_def)

lemma nb_inv_no_client: "nb_inv info s c h \<Longrightarrow> c < 0 \<Longrightarrow> c' < 0 \<Longrightarrow> nb_inv info s c' h"
  by (simp add: nb_inv_def)

lemma wp_nb_accept:
  assumes law: "lawful os" and inv: "nb_inv info s c h"
    and post: "\<And>r h'. nb_inv info s (case r of Again c' \<Rightarrow> c' | Leave c' \<Rightarrow> c') h' \<Longrightarrow> Q r h'"
  shows "wp (nb_accept s c) Q E os h"
proof (cases "c < 0")
  case False
  then show ?thesis using inv by (simp add: nb_accept_def wp_ret post)
next
  case True
  have step: "wp (if a_ret a < 0
        then if hard_error a then thenp (report_error ''Server accept() failed'') (ret (Leave (a_ret a)))
             else thenp (put_out (fmt [''No client connection'', [LF]])) (ret (Again (a_ret a)))
        else thenp (greet a) (thenp (tut_set_non_blocking (a_ret a)) (ret (Again (a_ret a))))) Q E os ((Accept s, a) # h)"
    if a: "answers os h (Accept s) a" for a
  proof (cases "a_ret a < 0")
    case neg: True
    have inv1: "nb_inv info s (a_ret a) h1" if "live h1 = live ((Accept s, a) # h)" "disciplined h1" for h1
      using inv True neg that by (simp add: nb_inv_def res_simps)
    have "disciplined ((Accept s, a) # h)" using inv by (simp add: nb_inv_def res_simps)
    then show ?thesis
      using neg by (auto simp: wp_thenp wp_ret intro!: wp_print post inv1)
  next
    case False
    with fresh_accept [OF law a] have new: "Fd (a_ret a) \<notin> live h" by simp
    have d: "disciplined ((Accept s, a) # h)" and l: "live ((Accept s, a) # h) = insert (Fd (a_ret a)) (live h)"
      using inv False by (auto simp: nb_inv_def res_simps)
    have inv1: "nb_inv info s (a_ret a) h1" if "live h1 = live ((Accept s, a) # h)" "disciplined h1" for h1
      using inv True False that new unfolding l by (auto simp: nb_inv_def)
    have "wp (thenp (greet a) (thenp (tut_set_non_blocking (a_ret a)) (ret (Again (a_ret a))))) Q E os ((Accept s, a) # h)"
      unfolding wp_thenp
    proof (rule quietD [OF quiet_greet [OF d]], goal_cases)
      case (1 r h1)
      show ?case
        by (rule quietD [OF quiet_set_non_blocking])
          (use 1 l False in \<open>auto simp: wp_ret intro!: post inv1\<close>)
    qed
    with False show ?thesis by simp
  qed
  with True show ?thesis by (simp add: nb_accept_def wp_bindp wp_sys)
qed

lemma wp_nb_receive:
  assumes law: "lawful os" and inv: "nb_inv info s c h" and c: "0 < c"
    and post: "\<And>r h'. nb_inv info s (case r of Again c' \<Rightarrow> c' | Leave c' \<Rightarrow> c') h' \<Longrightarrow> Q r h'"
    and over: "\<And>e h'. overrun e h' \<Longrightarrow> disciplined h' \<Longrightarrow> E e h'"
  shows "wp (nb_receive c) Q E os h"
proof -
  have f: "Fd c \<in> live h" "disciplined h" using inv c by (auto simp: nb_inv_def)
  have keep: "Q (Again c) h'" "Q (Leave c) h'" if "live h' = live h" "disciplined h'" for h'
    using post [of "Again c" h'] post [of "Leave c" h'] nb_inv_quiet [OF inv that] by simp_all
  show ?thesis
    unfolding nb_receive_def of_nat_numeral
  proof (rule wp_received [OF law _ f(2)], goal_cases)
    case 2
    then show ?case using f by (simp add: needs_def)
  next
    case (3 a)
    then show ?case by (auto simp: wp_simps res_simps intro!: keep)
  next
    case (4 a req)
    then show ?case using f by (auto simp: wp_simps res_simps intro!: keep)
  next
    case (5 a)
    then show ?case by (auto intro!: over overrunI simp: reads_full_def)
  qed (simp add: reads_full_def)
qed

lemma wp_nb_round:
  assumes law: "lawful os" and inv: "nb_inv info s c h"
  shows "wp (nb_round s c) (\<lambda>r h'. nb_inv info s (case r of Again c' \<Rightarrow> c' | Leave c' \<Rightarrow> c') h') stop_ok os h"
  unfolding nb_round_def wp_bindp
  by (rule wp_nb_accept [OF law inv])
    (auto simp: wp_ret stop_ok_def overrun_def intro!: wp_nb_receive [OF law] split: iter.split)

lemma wp_nb_run_server:
  assumes law: "lawful os"
  shows "wp (nb_run_server n) (\<lambda>_ h. live h = {Fd 0, Fd 1, Fd 2} \<and> disciplined h) stop_ok os []"
  unfolding nb_run_server_def wp_bindp [of "open_listener c" for c]
proof (rule wp_open_listener [OF law], goal_cases)
  case (2 s h)
  then show ?case by (simp add: nb_listener_def quiet_set_non_blocking)
next
  case (4 info s h)
  then have start: "nb_inv info s (- 1) h" by (auto simp: nb_inv_def)
  have tail: "wp (thenp (sys (Close s)) (thenp (sys (Close c)) (thenp (sys (FreeAddrInfo info)) (ret ()))))
      (\<lambda>_ h. live h = {Fd 0, Fd 1, Fd 2} \<and> disciplined h) stop_ok os h1" if "nb_inv info s c h1" for c h1
    using that by (cases "c < 0") (auto simp: nb_inv_def wp_simps res_simps)
  show ?case
    unfolding option.case prod.case wp_bindp
  proof (rule wp_loop [where I = "nb_inv info s"], goal_cases)
    case (1 c h1)
    show ?case by (rule wp_mono [OF wp_nb_round [OF law 1]]) (auto simp: tail split: iter.splits)
  qed (use start in \<open>auto simp: nb_inv_def\<close>)
qed (simp_all add: wp_ret)

section \<open>The client\<close>

lemma wp_nb_show:
  assumes law: "lawful os" and s: "0 \<le> s" "Fd s \<in> live h" and d: "disciplined h"
    and post: "\<And>r h'. live h' = live h \<Longrightarrow> disciplined h' \<Longrightarrow> Q r h'"
    and over: "\<And>e h'. overrun e h' \<Longrightarrow> disciplined h' \<Longrightarrow> E e h'"
  shows "wp (nb_show s) Q E os h"
  unfolding nb_show_def of_nat_numeral
  by (rule wp_shown [OF law _ d])
    (use s in \<open>auto simp: reads_full_def wp_simps res_simps intro!: post over overrunI\<close>)

text \<open>The line of the client: its text fits, and the search for the newline finds its end.\<close>

lemma wp_line:
  assumes len: "length s + 1 < 1024" and clean: "LF \<notin> set s" "NUL \<notin> set s"
    and k: "\<And>buffer. terminated buffer \<Longrightarrow> cstr buffer = s \<Longrightarrow> take (length s) buffer = s \<Longrightarrow>
      wp (k (int (length s)) buffer) Q E os h"
  shows "wp (bindp (sprintf_to (zeros 1024) (s @ [LF])) (\<lambda>line. bindp (c_strcspn line [LF]) (\<lambda>n.
    bindp (poke line n NUL) (k n)))) Q E os h"
proof -
  let ?b = "overlay (zeros 1024) 0 ((s @ [LF]) @ [NUL])"
  have e: "?b = s @ LF # NUL # drop (length s + 2) (zeros 1024)"
    by (simp add: overlay_def)
  have t: "terminated ?b" unfolding e by simp
  have "length (takeWhile (\<lambda>c. c \<notin> set [LF] \<and> c \<noteq> NUL) ?b) = length s"
    unfolding e using clean by (subst takeWhile_append2) auto
  moreover have "length ?b = 1024" using len by simp
  moreover have "wp (k (int (length s)) (?b[length s := NUL])) Q E os h"
    unfolding e using clean by (intro k) simp_all
  ultimately show ?thesis using t len by (simp add: wp_simps)
qed

lemma wp_nb_client_round:
  assumes law: "lawful os" and s: "0 \<le> s" "Fd s \<in> live h" and d: "disciplined h"
  shows "wp (nb_client_round s u) (\<lambda>_ h'. live h' = live h \<and> disciplined h') stop_ok os h"
proof -
  have show_it: "wp (nb_show s) (\<lambda>_ h'. live h' = live h \<and> disciplined h') stop_ok os h1"
    if "live h1 = live h" "disciplined h1" for h1
    by (rule wp_nb_show [OF law s(1)]) (use s that in \<open>auto simp: stop_ok_def overrun_def\<close>)
  show ?thesis
    unfolding nb_client_round_def wp_bindp [of "sys c" for c] of_nat_numeral
  proof (rule wp_quiet_sys, goal_cases)
    case (4 t h1)
    have fin: "wp (if a_ret a \<noteq> n then if hard_error a then thenp (report_error ''Client send() failed'') (ret (Leave ()))
          else nb_show s
        else bindp (c_string buffer) (\<lambda>t. thenp (put_out (m t)) (nb_show s)))
          (\<lambda>_ h'. live h' = live h \<and> disciplined h') stop_ok os h2"
      if "live h2 = live h" "disciplined h2" "terminated buffer" for a n m h2 buffer
      using that by (auto simp: wp_thenp wp_ret wp_bindp wp_c_string intro!: wp_print show_it)
    show ?case
    proof (rule wp_line, goal_cases)
      case (4 buffer)
      then show ?case
        unfolding wp_bindp [of "sys c" for c]
        by (intro wp_quiet_sys)
          (use \<open>live h1 = live h\<close> \<open>disciplined h1\<close> s fin in \<open>auto simp: res_simps split del: if_split\<close>)
    qed (use length_dec32 [of "a_ret t"] in \<open>auto simp: dec32_def\<close>)
  qed (use d in \<open>auto simp: res_simps\<close>)
qed

lemma wp_nb_run_client:
  assumes "lawful os"
  shows "wp (nb_run_client n) (\<lambda>_ h'. live h' = {Fd 0, Fd 1, Fd 2} \<and> disciplined h') stop_ok os []"
  unfolding nb_run_client_def
  by (rule wp_client [OF assms wp_nb_client_round [OF assms]]) (auto simp: wp_simps res_simps)

section \<open>Properties\<close>

text \<open>
  The non-blocking server and its client, in every environment that behaves as
  documented, use and close only what is open; a message of 1024 bytes is the only way into
  undefined behaviour; and whenever they return, after a failed call or a failed setup, they
  have given everything back.
\<close>

theorem nonblock_ok:
  assumes "lawful os"
  shows "ok_run (nb_run_server n os []) \<and> returns_clean (nb_run_server n os []) \<and>
    ok_run (nb_run_client n os []) \<and> returns_clean (nb_run_client n os [])"
  using wp_nb_run_server [OF assms] wp_nb_run_client [OF assms] by (simp add: ok_cleanI)

theorem nonblock_ok_witness:
  "ok_run (nb_run_server 5 (sim_os [''hello'']) []) \<and> returns_clean (nb_run_server 5 (sim_os [''hello'']) []) \<and>
    ok_run (nb_run_client 5 (sim_os [''hello'']) []) \<and> returns_clean (nb_run_client 5 (sim_os [''hello'']) [])"
  by (rule nonblock_ok [OF lawful_sim_os])

text \<open>A round that has a client keeps it.\<close>

lemma traced_nb_receive: "traced os (\<lambda>_ c. \<forall>f. c \<noteq> Accept f) (nb_receive c)"
  unfolding nb_receive_def report_error_def put_err_def put_out_def terminate_request_def poke_def c_string_def
  by (intro traced_intros) auto

lemma nb_round_client:
  assumes "0 < c"
  shows "nb_round s c = nb_receive c"
    and "wp (nb_receive c) (\<lambda>r _. r = Again c \<or> r = Leave c) (\<lambda>_ _. True) os h"
proof -
  show "nb_round s c = nb_receive c" using assms by (simp add: nb_round_def nb_accept_def)
  show "wp (nb_receive c) (\<lambda>r _. r = Again c \<or> r = Leave c) (\<lambda>_ _. True) os h"
    by (auto simp: nb_receive_def terminate_request_def wp_simps)
qed

text \<open>
  The non-blocking server serves one client in its life. Once it has a client, no number
  of rounds and no behaviour of the environment, the client's disconnecting included, makes
  it accept another one.
\<close>

theorem one_client_ever:
  assumes "0 < c"
  shows "\<exists>evs. snd (loop n (nb_round s) c os h) = evs @ h \<and> (\<forall>f. Accept f \<notin> fst ` set evs)"
proof (induction n arbitrary: h)
  case 0
  then show ?case by (simp add: halt_def)
next
  case (Suc n)
  obtain r h1 where r: "nb_receive c os h = (r, h1)" by fastforce
  obtain e1 where e1: "h1 = e1 @ h" "trace_ok (\<lambda>_ c. \<forall>f. c \<noteq> Accept f) e1 h"
    using traced_nb_receive [of os c] r unfolding traced_def by (metis snd_conv)
  then have no: "Accept f \<notin> fst ` set e1" for f
    by (fastforce simp: trace_ok_split dest: split_list)
  have "r = Done (Again c) \<or> r = Done (Leave c) \<or> (\<exists>x. r = Stop x)"
    using nb_round_client(2) [OF assms, of os h] r by (cases r) (auto simp: wp_def)
  then show ?case
  proof (elim disjE)
    assume "r = Done (Again c)"
    moreover obtain e2 where "snd (loop n (nb_round s) c os h1) = e2 @ h1" "\<forall>f. Accept f \<notin> fst ` set e2"
      using Suc.IH by blast
    ultimately show ?thesis
      using r e1 no by (auto simp: nb_round_client(1) [OF assms] bindp_def intro!: exI [of _ "e2 @ e1"])
  qed (use r e1 no in \<open>auto simp: nb_round_client(1) [OF assms] bindp_def ret_def intro!: exI [of _ e1]\<close>)
qed

theorem one_client_ever_witness:
  "\<exists>evs. snd (loop 9 (nb_round 3) 6 (sim_os [''hi'']) [(Accept 3, plain 6)]) = evs @ [(Accept 3, plain 6)] \<and>
    (\<forall>f. Accept f \<notin> fst ` set evs)"
  by (rule one_client_ever) simp

text \<open>
  C23: A client that disconnects makes the server spin: every round reads the end of the
  stream and prints a line, without waiting for anything, and the loop never ends by itself.
\<close>

theorem disconnect_spins:
  assumes "0 < c" and "\<And>h. a_ret (os h (Recv c 1024 0)) = 0"
  shows "\<exists>h'. loop n (nb_round s) c os h = (Stop Unfinished, h') \<and>
    map fst h' = concat (replicate n [Out (''Client is disconnected'' @ [LF]), Recv c 1024 0]) @ map fst h"
proof (induction n arbitrary: h)
  case 0
  then show ?case by (simp add: halt_def)
next
  case (Suc n)
  define h1 where "h1 = (Out (''Client is disconnected'' @ [LF]), os ((Recv c 1024 0, os h (Recv c 1024 0)) # h)
     (Out (''Client is disconnected'' @ [LF]))) # (Recv c 1024 0, os h (Recv c 1024 0)) # h"
  have "nb_receive c os h = (Done (Again c), h1)"
    by (simp add: nb_receive_def assms(2) bindp_def sys_def Let_def thenp_def put_out_def ret_def fmt_def h1_def)
  moreover obtain h' where "loop n (nb_round s) c os h1 = (Stop Unfinished, h')"
    "map fst h' = concat (replicate n [Out (''Client is disconnected'' @ [LF]), Recv c 1024 0]) @ map fst h1"
    using Suc.IH by blast
  moreover have "concat (replicate n xs) @ xs @ ys = concat (replicate (Suc n) xs) @ ys" for xs ys :: "call list"
    by (simp add: replicate_append_same [symmetric])
  ultimately show ?case
    by (simp add: nb_round_client(1) [OF assms(1)] bindp_def h1_def del: replicate.simps)
qed

theorem disconnect_spins_witness:
  "\<exists>h'. loop 7 (nb_round 3) 6 (sim_os []) [(Accept 3, plain 6)] = (Stop Unfinished, h') \<and>
    map fst h' = concat (replicate 7 [Out (''Client is disconnected'' @ [LF]), Recv 6 1024 0]) @ [Accept 3]"
  using disconnect_spins [of 6 "sim_os []" 7 3 "[(Accept 3, plain 6)]"] by (simp add: sim_os_def sim_read_def)

end
