(* ===== verification/Ssl_Common.thy ===== *)
theory Ssl_Common
  imports Tut_Clients
begin

text \<open>
  What the TLS programs of \<open>01_networking_libraries/openssl/src\<close> share, and the client of
  \<open>ssl_client_server.c\<close>. OpenSSL is not part of the repository: its functions are calls, and a
  context or a handle is a resource that must be live where it is used.
\<close>

section \<open>Reports and addresses\<close>

text \<open>\<open>report_error\<close> of \<open>ssl_client_server.c\<close> puts the time in front.\<close>

definition ssl_report :: "bytes \<Rightarrow> unit prog" where
  "ssl_report message = bindp (sys TimeCall) (\<lambda>t.
     put_err (fmt [dec (a_ret t), '': Error: '', message, [LF]]))"

definition print_errors :: "unit prog" where
  "print_errors = thenp (sys SslPrintErrors) (ret ())"

text \<open>The address of a \<open>sockaddr\<close> is its text, so that \<open>inet_ntop\<close>, which cannot fail for the
  two families and a buffer of \<open>INET6_ADDRSTRLEN\<close> bytes, is the identity.\<close>

definition print_sockaddr_info :: "(bytes \<Rightarrow> unit prog) \<Rightarrow> sockaddr \<Rightarrow> unit prog" where
  "print_sockaddr_info report sa =
     (if sa_family sa = AF_INET \<or> sa_family sa = AF_INET6
      then put_out (fmt [sin_addr sa, '':'', dec (uint (ntohs (sin_port sa))), [LF]])
      else report ''Unknown address family'')"

unbundle bit_operations_syntax

definition ssl_set_non_blocking :: "int \<Rightarrow> unit prog" where
  "ssl_set_non_blocking socket = bindp (sys (Fcntl socket F_GETFL 0)) (\<lambda>flags.
     if a_ret flags = - 1 then ssl_report ''fcntl(F_GETFL) failed''
     else bindp (sys (Fcntl socket F_SETFL (a_ret flags OR O_NONBLOCK))) (\<lambda>a.
     if a_ret a = - 1 then ssl_report ''fcntl(F_SETFL) failed'' else ret ()))"

text \<open>The walks over the addresses, which print each address first.\<close>

fun shown_bind_all :: "(bytes \<Rightarrow> unit prog) \<Rightarrow> int \<Rightarrow> addrinfo list \<Rightarrow> int \<Rightarrow> int prog" where
  "shown_bind_all report s [] rc = ret rc"
| "shown_bind_all report s (p # ps) rc = thenp (print_sockaddr_info report (ai_addr p))
     (bindp (sys (Bind s (ai_addr p) (ai_addrlen p))) (\<lambda>a.
      if a_ret a = 0 then ret 0 else shown_bind_all report s ps (a_ret a)))"

fun shown_connect_all :: "(bytes \<Rightarrow> unit prog) \<Rightarrow> int \<Rightarrow> addrinfo list \<Rightarrow> int \<Rightarrow> int prog" where
  "shown_connect_all report s [] rc = ret rc"
| "shown_connect_all report s (p # ps) rc = thenp (print_sockaddr_info report (ai_addr p))
     (bindp (sys (Connect s (ai_addr p) (ai_addrlen p))) (\<lambda>a.
      if a_ret a = 0 then ret 0 else shown_connect_all report s ps (a_ret a)))"

text \<open>The port is printed as it is, without \<open>htons\<close>.\<close>

definition ssl_resolver :: resolver where
  "ssl_resolver = \<lparr>r_report = ssl_report, r_proto = ''tcp'', r_type = SOCK_STREAM, r_port = 4443\<rparr>"

section \<open>The client\<close>

text \<open>The end of a connection: the socket is closed before the TLS shutdown, which then writes its
  alert to a descriptor that is closed. In \<open>disciplined\<close> the call is a use of its handle only;
  what it does to the descriptor is stated on its own, by \<open>shuts_down_late\<close> and \<open>https_shuts_down_late\<close>.\<close>

definition tls_teardown :: "int \<Rightarrow> int \<Rightarrow> int \<Rightarrow> int \<Rightarrow> unit prog" where
  "tls_teardown info s ctx ssl = thenp (sys (FreeAddrInfo info)) (thenp (sys (Close s))
     (thenp (sys (SslCtxFree ctx)) (thenp (sys (SslShutdown ssl)) (thenp (sys (SslFree ssl)) (ret ())))))"

definition ssl_client_round :: "int \<Rightarrow> unit \<Rightarrow> (unit, unit) iter prog" where
  "ssl_client_round ssl u =
     thenp (put_out ''Request: '')
     (bindp read_line (\<lambda>line.
      bindp (chop_line [CR, LF] line) (\<lambda>request.
      bindp (c_farewell request) (\<lambda>bye.
      if bye then ret (Leave ()) else
      bindp (c_string request) (\<lambda>request_s.
      bindp (sys (SslWrite ssl request_s)) (\<lambda>sent.
      if a_ret sent \<le> 0 then thenp (ssl_report ''Client SSL_write() failed'') (ret (Again ())) else
      bindp (sys (SslRead ssl (int MESSAGE_SIZE))) (\<lambda>a.
      if a_ret a \<le> 0 then thenp (ssl_report ''Client SSL_read() failed'') (ret (Again ()))
      else bindp (terminate_request (a_ret a) (received a)) (\<lambda>response.
       bindp (c_string response) (\<lambda>response_s.
       thenp (put_out (fmt [''Server response: '', response_s, [LF]])) (ret (Again ())))))))))))"

text \<open>From the context to the handshake: the context and the handle, or \<open>None\<close> with
  everything given back.\<close>

definition ssl_client_handshake :: "int \<Rightarrow> int \<Rightarrow> (int \<times> int) option prog" where
  "ssl_client_handshake info s =
     thenp (sys SslInit)
     (bindp (sys (SslCtxNew ''TLS_client_method'')) (\<lambda>ctx.
      if a_ptr ctx = 0
      then thenp (ssl_report ''Client is unable to create SSL context'') (thenp print_errors
        (thenp (give_up False s info) (ret None)))
      else bindp (sys (SslNew (a_ptr ctx))) (\<lambda>ssl.
      if a_ptr ssl = 0
      then thenp (ssl_report ''Client SSL_new() failed'') (thenp print_errors
        (thenp (sys (SslCtxFree (a_ptr ctx))) (thenp (give_up False s info) (ret None))))
      else thenp (sys (SslSetFd (a_ptr ssl) s))
      (bindp (sys (SslConnect (a_ptr ssl))) (\<lambda>rc.
      if a_ret rc \<le> 0
      then thenp (ssl_report ''Client SSL_connect() failed'') (thenp print_errors
        (thenp (tls_teardown info s (a_ptr ctx) (a_ptr ssl)) (ret None)))
      else ret (Some (a_ptr ctx, a_ptr ssl)))))))"

text \<open>After a failed \<open>connect\<close> the function returns at once.\<close>

definition ssl_run_client :: "nat \<Rightarrow> unit prog" where
  "ssl_run_client n =
     bindp (resolve_and_open ssl_resolver ''TCP protocol is not supported'' (Some ''localhost'') 0
       ''Clent getaddrinfo() failed'' ''Client socket() failed'') (\<lambda>r. case r of None \<Rightarrow> ret ()
     | Some (info, infos, s) \<Rightarrow>
     bindp (shown_connect_all ssl_report s infos 0) (\<lambda>rc.
     if rc \<noteq> 0 then ssl_report ''Client connect() failed''
     else bindp (ssl_client_handshake info s) (\<lambda>t. case t of None \<Rightarrow> ret ()
     | Some (ctx, ssl) \<Rightarrow> bindp (loop n (ssl_client_round ssl) ()) (\<lambda>_. tls_teardown info s ctx ssl))))"

section \<open>Facts\<close>

lemma quiet_ssl_report: "disciplined h \<Longrightarrow> quiet (ssl_report m) os h"
  by (auto simp: quiet_def ssl_report_def wp_simps res_simps)

lemma quiet_print_errors: "disciplined h \<Longrightarrow> quiet print_errors os h"
  by (auto simp: quiet_def print_errors_def wp_simps res_simps)

lemma sane_ssl_resolver: "sane_resolver ssl_resolver os"
  by (simp add: sane_resolver_def ssl_resolver_def quiet_ssl_report)

lemma quiet_ssl_set_non_blocking:
  "Fd s \<in> live h \<Longrightarrow> 0 \<le> s \<Longrightarrow> disciplined h \<Longrightarrow> quiet (ssl_set_non_blocking s) os h"
  by (auto simp: quiet_def ssl_set_non_blocking_def ssl_report_def wp_simps res_simps)

text \<open>A report that leaves the resources alone.\<close>

definition quiet_reports :: "(bytes \<Rightarrow> unit prog) \<Rightarrow> os \<Rightarrow> bool" where
  "quiet_reports rep os \<longleftrightarrow> (\<forall>m h. disciplined h \<longrightarrow> quiet (rep m) os h)"

lemma quiet_reports_both [simp]: "quiet_reports ssl_report os" "quiet_reports report_error os"
  by (simp_all add: quiet_reports_def quiet_ssl_report quiet_report_error)

lemma quiet_print_sockaddr: "quiet_reports rep os \<Longrightarrow> disciplined h \<Longrightarrow> quiet (print_sockaddr_info rep sa) os h"
  by (auto simp: print_sockaddr_info_def quiet_reports_def quiet_def [of "put_out t" for t] intro!: wp_print)

lemma quiet_shown_all:
  assumes "quiet_reports rep os"
  shows "Fd s \<in> live h \<Longrightarrow> 0 \<le> s \<Longrightarrow> disciplined h \<Longrightarrow> quiet (shown_bind_all rep s ps rc) os h"
    and "Fd s \<in> live h \<Longrightarrow> 0 \<le> s \<Longrightarrow> disciplined h \<Longrightarrow> quiet (shown_connect_all rep s ps rc) os h"
proof (induction ps arbitrary: rc h)
  case (Cons p ps)
  {
    case 1
    show ?case
      unfolding quiet_def shown_bind_all.simps wp_thenp
    proof (intro allI impI, rule quietD [OF quiet_print_sockaddr [OF assms]], goal_cases)
      case (2 Q E r h1)
      with 1 Cons.IH(1) show ?case by (auto simp: wp_bindp wp_sys wp_if wp_ret res_simps intro!: quietD)
    qed (rule 1)
  next
    case 2
    show ?case
      unfolding quiet_def shown_connect_all.simps wp_thenp
    proof (intro allI impI, rule quietD [OF quiet_print_sockaddr [OF assms]], goal_cases)
      case (2 Q E r h1)
      with \<open>Fd s \<in> live h\<close> \<open>0 \<le> s\<close> Cons.IH(2) show ?case by (auto simp: wp_bindp wp_sys wp_if wp_ret res_simps intro!: quietD)
    qed (rule 2)
  }
qed (simp_all add: quiet_def wp_ret)

lemma fresh_ssl:
  assumes "lawful os" and "a_ptr a \<noteq> 0"
  shows "answers os h (SslCtxNew m) a \<Longrightarrow> Ctx (a_ptr a) \<notin> live h" "answers os h (SslNew c) a \<Longrightarrow> Ssl (a_ptr a) \<notin> live h"
  using assms(2) by (auto dest!: lawfulD [OF assms(1)] simp: answer_ok_def acquires_def releases_def)

lemma wp_ssl_report:
  assumes "disciplined h" and "\<And>h'. live h' = live h \<Longrightarrow> disciplined h' \<Longrightarrow> Q () h'"
  shows "wp (ssl_report m) Q E os h" "wp print_errors Q E os h"
  using quietD [OF quiet_ssl_report [OF assms(1)]] quietD [OF quiet_print_errors [OF assms(1)]] assms(2) by auto

text \<open>The error path: two reports, then the clean-up.\<close>

lemma wp_ssl_abandon:
  assumes "disciplined h" and "\<And>h'. live h' = live h \<Longrightarrow> disciplined h' \<Longrightarrow> wp m Q E os h'"
  shows "wp (thenp (ssl_report t) (thenp print_errors m)) Q E os h"
  unfolding wp_thenp by (rule wp_ssl_report, rule assms(1), rule wp_ssl_report, assumption) (simp add: assms(2))

lemma wp_tls_teardown:
  assumes "live h = {Ssl p, Ctx c, Fd s, Info i} \<union> L" and "0 \<le> s" and "disciplined h"
    and "Ssl p \<notin> L" "Ctx c \<notin> L" "Fd s \<notin> L" "Info i \<notin> L" and "p \<noteq> 0" "c \<noteq> 0"
    and "\<And>h'. live h' = L \<Longrightarrow> disciplined h' \<Longrightarrow> Q () h'"
  shows "wp (tls_teardown i s c p) Q E os h"
  using assms(1-9) by (auto simp: tls_teardown_def wp_simps res_simps intro!: assms(10))

lemma wp_ssl_client_handshake:
  assumes law: "lawful os" and l: "live h = {Fd s, Info i} \<union> L" and s: "0 \<le> s" and d: "disciplined h"
    and new: "Fd s \<notin> L" "Info i \<notin> L"
    and none: "\<And>h'. live h' = L \<Longrightarrow> disciplined h' \<Longrightarrow> Q None h'"
    and some: "\<And>c p h'. live h' = {Ssl p, Ctx c, Fd s, Info i} \<union> L \<Longrightarrow> disciplined h' \<Longrightarrow> p \<noteq> 0 \<Longrightarrow> c \<noteq> 0 \<Longrightarrow>
      Ssl p \<notin> L \<Longrightarrow> Ctx c \<notin> L \<Longrightarrow> Q (Some (c, p)) h'"
  shows "wp (ssl_client_handshake i s) Q E os h"
proof -
  have giving: "wp (thenp (give_up False s i) (ret None)) Q E os h'"
    if "live h' = {Fd s, Info i} \<union> L" "disciplined h'" for h'
    unfolding wp_thenp
    by (rule wp_give_up) (use that s new in \<open>auto simp: wp_ret intro!: none\<close>)
  have freeing: "wp (thenp (sys (SslCtxFree c)) (thenp (give_up False s i) (ret None))) Q E os h'"
    if "live h' = {Ctx c, Fd s, Info i} \<union> L" "disciplined h'" "c \<noteq> 0" "Ctx c \<notin> L" for h' c
    unfolding wp_thenp [of "sys c" for c] wp_sys
    by (intro allI impI giving) (use that in \<open>auto simp: res_simps\<close>)
  have down: "wp (thenp (tls_teardown i s c p) (ret None)) Q E os h'"
    if "live h' = {Ssl p, Ctx c, Fd s, Info i} \<union> L" "disciplined h'" "c \<noteq> 0" "p \<noteq> 0" "Ctx c \<notin> L" "Ssl p \<notin> L" for h' c p
    unfolding wp_thenp
    by (rule wp_tls_teardown [OF that(1) s that(2)]) (use that new in \<open>auto simp: wp_ret none\<close>)
  show ?thesis
    unfolding ssl_client_handshake_def wp_thenp [of "sys c" for c] wp_bindp [of "sys c" for c] wp_sys
  proof (intro allI impI, goal_cases)
    case (1 ini ctx)
    let ?h1 = "(SslCtxNew ''TLS_client_method'', ctx) # (SslInit, ini) # h"
    have d1: "disciplined ?h1" using d by (simp add: res_simps)
    show ?case
    proof (cases "a_ptr ctx = 0")
      case True
      then show ?thesis using l d1
        by (auto intro!: wp_ssl_abandon giving simp: res_simps)
    next
      case False
      with fresh_ssl(1) [OF law False 1(2)] have c: "Ctx (a_ptr ctx) \<notin> {Fd s, Info i} \<union> L" by (simp add: res_simps l)
      have l1: "live ?h1 = {Ctx (a_ptr ctx), Fd s, Info i} \<union> L" using False l by (auto simp: res_simps)
      have "wp (if a_ptr ssl = 0
          then thenp (ssl_report ''Client SSL_new() failed'') (thenp print_errors
            (thenp (sys (SslCtxFree (a_ptr ctx))) (thenp (give_up False s i) (ret None))))
          else thenp (sys (SslSetFd (a_ptr ssl) s)) (bindp (sys (SslConnect (a_ptr ssl))) (\<lambda>rc.
            if a_ret rc \<le> 0
            then thenp (ssl_report ''Client SSL_connect() failed'') (thenp print_errors
              (thenp (tls_teardown i s (a_ptr ctx) (a_ptr ssl)) (ret None)))
            else ret (Some (a_ptr ctx, a_ptr ssl))))) Q E os ((SslNew (a_ptr ctx), ssl) # ?h1)"
        if a: "answers os ?h1 (SslNew (a_ptr ctx)) ssl" for ssl
      proof (cases "a_ptr ssl = 0")
        case True
        with l1 d1 False c have "wp (thenp (ssl_report ''Client SSL_new() failed'') (thenp print_errors
            (thenp (sys (SslCtxFree (a_ptr ctx))) (thenp (give_up False s i) (ret None))))) Q E os ((SslNew (a_ptr ctx), ssl) # ?h1)"
          by (intro wp_ssl_abandon freeing) (auto simp: acquires_def releases_def needs_def)
        with True show ?thesis by simp
      next
        case ok: False
        from fresh_ssl(2) [OF law ok a] have p: "Ssl (a_ptr ssl) \<notin> L" unfolding l1 by simp
        let ?h2 = "\<lambda>x y. (SslConnect (a_ptr ssl), y) # (SslSetFd (a_ptr ssl) s, x) # (SslNew (a_ptr ctx), ssl) # ?h1"
        have l2: "live (?h2 x y) = {Ssl (a_ptr ssl), Ctx (a_ptr ctx), Fd s, Info i} \<union> L" "disciplined (?h2 x y)" for x y
          using l1 d1 ok False s by (auto simp: acquires_def releases_def needs_def)
        show ?thesis
          using ok False l2 c p
          by (auto simp: wp_thenp [of "sys c" for c] wp_bindp [of "sys c" for c] wp_sys wp_ret
              intro!: wp_ssl_abandon down some simp del: live.simps disciplined.simps)
      qed
      with False show ?thesis by (simp add: wp_bindp [of "sys c" for c] wp_sys)
    qed
  qed
qed

lemma wp_ssl_client_round:
  assumes law: "lawful os" and p: "Ssl p \<in> live h" and d: "disciplined h"
    and post: "\<And>r h'. live h' = live h \<Longrightarrow> disciplined h' \<Longrightarrow> Q r h'"
    and over: "\<And>e h'. overrun e h' \<Longrightarrow> disciplined h' \<Longrightarrow> E e h'"
  shows "wp (ssl_client_round p u) Q E os h"
  unfolding ssl_client_round_def wp_thenp [of "put_out c" for c] wp_bindp [of read_line]
proof (rule wp_print, rule d, rule wp_read_line [OF law], assumption, goal_cases)
  case (1 h1 line h2)
  have answered: "wp (bindp (sys (SslRead p (int MESSAGE_SIZE))) (\<lambda>a.
      if a_ret a \<le> 0 then thenp (ssl_report ''Client SSL_read() failed'') (ret (Again ()))
      else bindp (terminate_request (a_ret a) (received a)) (\<lambda>response.
       bindp (c_string response) (\<lambda>response_s.
       thenp (put_out (fmt [''Server response: '', response_s, [LF]])) (ret (Again ())))))) Q E os h3"
    if "live h3 = live h" "disciplined h3" for h3
    unfolding of_nat_numeral
    by (rule wp_received [OF law _ that(2)])
      (use that p in \<open>auto simp: reads_full_def needs_def wp_thenp wp_bindp wp_c_string wp_ret
        intro!: wp_ssl_report wp_print post over overrunI\<close>)
  from 1 show ?case
    unfolding wp_bindp [of "chop_line c d" for c d]
  proof (intro wp_chop, goal_cases)
    case (2 req)
    let ?rest = "bindp (sys (SslRead p (int MESSAGE_SIZE))) (\<lambda>a.
      if a_ret a \<le> 0 then thenp (ssl_report ''Client SSL_read() failed'') (ret (Again ()))
      else bindp (terminate_request (a_ret a) (received a)) (\<lambda>response.
       bindp (c_string response) (\<lambda>response_s.
       thenp (put_out (fmt [''Server response: '', response_s, [LF]])) (ret (Again ())))))"
    have sent: "wp (if a_ret a \<le> 0 then thenp (ssl_report ''Client SSL_write() failed'') (ret (Again ())) else ?rest) Q E os h3"
      if "live h3 = live h" "disciplined h3" for h3 a
      using that answered [OF that] by (auto simp: wp_thenp wp_ret intro!: wp_ssl_report post)
    have "wp (bindp (sys (SslWrite p t)) (\<lambda>sent. if a_ret sent \<le> 0
        then thenp (ssl_report ''Client SSL_write() failed'') (ret (Again ())) else ?rest)) Q E os h2" for t
      unfolding wp_bindp [of "sys (SslWrite c d)" for c d]
    proof (rule wp_quiet_sys, goal_cases)
      case (4 a h3)
      show ?case by (rule sent) (use 2 4 in simp_all)
    qed (use 2 p in \<open>auto simp: res_simps\<close>)
    moreover have "Q (Leave ()) h2" using 2 by (intro post) simp_all
    ultimately show ?case using 2 by (simp add: wp_bindp wp_c_farewell wp_c_string wp_ret)
  qed
qed

text \<open>Connecting succeeds.\<close>

definition connects_ok :: "os \<Rightarrow> bool" where
  "connects_ok os \<longleftrightarrow> (\<forall>h s p n. a_ret (os h (Connect s p n)) = 0)"

lemma wp_true: "wp m (\<lambda>_ _. True) (\<lambda>_ _. True) os h"
  by (simp add: wp_def split: prod.split outcome.split)

lemma connect_all_ok:
  "connects_ok os \<Longrightarrow> wp (shown_connect_all rep s ps 0) (\<lambda>rc _. rc = 0) (\<lambda>_ _. True) os h"
  by (cases ps) (simp_all add: wp_ret wp_thenp wp_bindp wp_sys connects_ok_def answers_def wp_true)

lemma wp_ssl_run_client:
  assumes law: "lawful os"
  shows "wp (ssl_run_client n) (\<lambda>_ h. disciplined h \<and> (connects_ok os \<longrightarrow> live h = {Fd 0, Fd 1, Fd 2})) stop_ok os []"
  unfolding ssl_run_client_def wp_bindp [of "resolve_and_open a b c d e f" for a b c d e f]
proof (rule wp_resolve_and_open [OF law _ sane_ssl_resolver], goal_cases)
  case (3 i ps s h)
  have l: "live h = {Fd s, Info i} \<union> {Fd 0, Fd 1, Fd 2}" using 3(4) by auto
  have f: "Fd s \<in> live h" "0 \<le> s" "disciplined h" using 3 by simp_all
  have q: "wp (shown_connect_all ssl_report s ps 0) (\<lambda>_ h'. live h' = live h \<and> disciplined h') stop_ok os h"
    by (rule quietD [OF quiet_shown_all(2) [OF quiet_reports_both(1) f]]) simp
  have conn: "wp (shown_connect_all ssl_report s ps 0) (\<lambda>rc h'. (live h' = live h \<and> disciplined h') \<and> (connects_ok os \<longrightarrow> rc = 0)) stop_ok os h"
  proof (cases "connects_ok os")
    case True
    show ?thesis by (rule wp_mono [OF wp_conj [OF q connect_all_ok [OF True]]]) simp_all
  qed (use q in simp)
  show ?case
    unfolding option.case prod.case wp_bindp [of "shown_connect_all a b c d" for a b c d]
  proof (rule wp_mono [OF conn], goal_cases)
    case (1 rc h1)
    show ?case
    proof (cases "rc = 0")
      case False
      then show ?thesis using 1 by (auto intro!: wp_ssl_report)
    next
      case True
      have "wp (bindp (ssl_client_handshake i s) (\<lambda>t. case t of None \<Rightarrow> ret ()
          | Some (ctx, ssl) \<Rightarrow> bindp (loop n (ssl_client_round ssl) ()) (\<lambda>_. tls_teardown i s ctx ssl)))
          (\<lambda>_ h. live h = {Fd 0, Fd 1, Fd 2} \<and> disciplined h) stop_ok os h1"
        unfolding wp_bindp [of "ssl_client_handshake a b" for a b]
      proof (rule wp_ssl_client_handshake [OF law, where L = "{Fd 0, Fd 1, Fd 2}"], goal_cases)
        case (7 c p h2)
        show ?case
          unfolding option.case prod.case
        proof (rule wp_served, goal_cases)
          case (1 u h3)
          show ?case by (rule wp_ssl_client_round [OF law]) (use 1 7 in \<open>auto simp: stop_ok_def overrun_def\<close>)
        next
          case (2 u h3)
          show ?case
            by (rule wp_tls_teardown [where L = "{Fd 0, Fd 1, Fd 2}"]) (use 2 7 3 in auto)
        qed (rule 7)
      qed (use 1 l 3 in \<open>auto simp: wp_ret\<close>)
      with True show ?thesis by (auto elim!: wp_mono)
    qed
  qed auto
qed (auto simp: wp_ret)

text \<open>
  The TLS client, in every environment that behaves as documented, uses and frees every
  descriptor, context and handle only while it is live; an answer of 1024 bytes is the only
  way into undefined behaviour; and unless \<open>connect\<close> fails, it returns with everything given
  back.
\<close>

theorem ssl_client_ok:
  assumes "lawful os" and "connects_ok os"
  shows "ok_run (ssl_run_client n os []) \<and> returns_clean (ssl_run_client n os [])"
  by (rule ok_cleanI, rule wp_mono [OF wp_ssl_run_client [OF assms(1)]]) (use assms(2) in auto)

theorem ssl_client_ok_witness:
  "ok_run (ssl_run_client 3 (sim_os [''time'' @ [LF], ''12'', ''quit'' @ [LF]]) []) \<and>
    returns_clean (ssl_run_client 3 (sim_os [''time'' @ [LF], ''12'', ''quit'' @ [LF]]) [])"
  by (rule ssl_client_ok [OF lawful_sim_os]) (simp add: connects_ok_def sim_os_def)

text \<open>
  Where a shutdown may stand: right after the socket has been closed and the context freed.
\<close>

definition after_close :: "log \<Rightarrow> call \<Rightarrow> bool" where
  "after_close h c \<longleftrightarrow> (case c of
      SslShutdown _ \<Rightarrow> (\<exists>ctx s a b rest. h = (SslCtxFree ctx, a) # (Close s, b) # rest)
    | _ \<Rightarrow> True)"

lemma after_close_other [simp]: "(\<And>p. c \<noteq> SslShutdown p) \<Longrightarrow> after_close h c"
  by (auto simp: after_close_def split: call.split)

lemma teardown_after_close: "traced os after_close (tls_teardown i s c p)"
  by (rule traced_wp) (simp add: tls_teardown_def wp_simps, simp add: after_close_def)

theorem shuts_down_late: "trace_ok after_close (snd (ssl_run_client n os [])) []"
proof (rule traced_run)
  have report: "traced os after_close (ssl_report m)" for m
    unfolding ssl_report_def put_err_def by (auto intro!: traced_intros)
  have connect: "traced os after_close (shown_connect_all ssl_report s ps rc)" for s ps rc
    by (induction ps arbitrary: rc) (auto simp: print_sockaddr_info_def put_out_def intro!: traced_intros report)
  have round: "traced os after_close (ssl_client_round p u)" for p u
    unfolding ssl_client_round_def read_line_def chop_line_def c_strcspn_def poke_def c_farewell_def c_streq_def c_string_def
      terminate_request_def put_out_def Let_def
    by (auto intro!: traced_intros report)
  show "traced os after_close (ssl_run_client n)"
    unfolding ssl_run_client_def resolve_and_open_def ssl_resolver_def port_text_def sprintf_to_def c_string_def
      ssl_client_handshake_def give_up_def print_errors_def
    by (auto intro!: traced_intros report connect round teardown_after_close)
qed

end
