(* ===== verification/Ssl_Server.thy ===== *)
theory Ssl_Server
  imports Ssl_Common Poll_Server
begin

text \<open>
  The TLS server of \<open>01_networking_libraries/openssl/src/ssl_client_server.c\<close>: a poll server
  with, beside the array of polled descriptors, an array of the TLS handles of the same
  entries. All 100 entries are polled; the free ones hold the descriptor -1 and no handle.

  \<open>ssl_inv\<close> ties the two arrays together. While \<open>poll\<close> does not fail the server keeps it;
  when \<open>poll\<close> fails the clean-up closes the listening socket twice.
\<close>

section \<open>Setup\<close>

definition ssl_open_server :: "(int \<times> int) option prog" where
  "ssl_open_server =
     bindp (resolve_and_open ssl_resolver ''TCP protocol is not supported'' (Some ''localhost'') AI_PASSIVE
       ''Server getaddrinfo() failed'' ''Server socket() failed'') (\<lambda>r. case r of None \<Rightarrow> ret None
     | Some (info, infos, s) \<Rightarrow>
     thenp (ssl_set_non_blocking s)
     (thenp (sys (SetSockOpt s SOL_SOCKET SO_REUSEADDR))
     (bindp (shown_bind_all ssl_report s infos 0) (\<lambda>rc.
     if rc \<noteq> 0
     then thenp (ssl_report ''Server bind() failed'') (thenp (give_up False s info) (ret None))
     else bindp (sys (Listen s 100)) (\<lambda>l.
     if a_ret l \<noteq> 0
     then thenp (ssl_report ''Server listen() failed'') (thenp (give_up False s info) (ret None))
     else ret (Some (info, s)))))))"

text \<open>The context with its certificate and key, or \<open>None\<close> with everything given back.\<close>

definition ssl_server_context :: "int \<Rightarrow> int \<Rightarrow> int option prog" where
  "ssl_server_context info s =
     thenp (sys SslInit)
     (bindp (sys (SslCtxNew ''TLS_server_method'')) (\<lambda>ctx.
      if a_ptr ctx = 0
      then thenp (ssl_report ''Server is unable to create SSL context'') (thenp print_errors
        (thenp (give_up False s info) (ret None)))
      else bindp (sys (SslUseCert (a_ptr ctx) ''server.crt'')) (\<lambda>rc.
      if a_ret rc \<le> 0
      then thenp (ssl_report ''Server SSL_CTX_use_certificate_file() failed'') (thenp print_errors
        (thenp (sys (SslCtxFree (a_ptr ctx))) (thenp (give_up False s info) (ret None))))
      else bindp (sys (SslUseKey (a_ptr ctx) ''server.key'')) (\<lambda>rc.
      if a_ret rc \<le> 0
      then thenp (ssl_report ''Server SSL_CTX_use_PrivateKey_file() failed'') (thenp print_errors
        (thenp (sys (SslCtxFree (a_ptr ctx))) (thenp (give_up False s info) (ret None))))
      else ret (Some (a_ptr ctx))))))"

section \<open>The loop\<close>

text \<open>\<open>fds\<close>, \<open>arr_ssl\<close> and \<open>nfds\<close>\<close>

type_synonym ssl_state = "pollfd list \<times> int list \<times> nat"

definition ssl_greet :: "answer \<Rightarrow> unit prog" where
  "ssl_greet a = bindp (sys (GetNameInfo (a_peer a))) (\<lambda>n.
     whenp (a_ret n = 0) (put_out (fmt [''Client '', dec (a_ret a), '' is connected '', a_buf n, [LF]])))"

text \<open>A new client gets the entry \<open>nfds\<close>, which becomes part of the array when the handshake
  succeeds.\<close>

definition ssl_add :: "int \<Rightarrow> int \<Rightarrow> ssl_state \<Rightarrow> ssl_state" where
  "ssl_add c p st = (case st of (fds, arr, nfds) \<Rightarrow>
     (fds[nfds := (fds ! nfds)\<lparr>p_fd := c, p_events := POLLIN\<rparr>], arr[nfds := p], nfds + 1))"

definition ssl_handshake :: "int \<Rightarrow> int \<Rightarrow> ssl_state \<Rightarrow> ssl_state prog" where
  "ssl_handshake ctx c st = (case st of (fds, arr, nfds) \<Rightarrow>
     bindp (sys (SslNew ctx)) (\<lambda>p.
     thenp (sys (SslSetFd (a_ptr p) c))
     (bindp (sys (SslAccept (a_ptr p))) (\<lambda>rc.
      if a_ret rc \<le> 0
      then thenp (ssl_report ''Server SSL_accept() failed'') (thenp print_errors
        (thenp (sys (Close c)) (thenp (sys (SslFree (a_ptr p)))
        (ret (fds[nfds := (fds ! nfds)\<lparr>p_fd := - 1, p_events := POLLIN\<rparr>], arr[nfds := 0], nfds)))))
      else thenp (ssl_set_non_blocking c)
        (ret (ssl_add c (a_ptr p) (fds, arr, nfds)))))))"

definition ssl_accept_client :: "int \<Rightarrow> int \<Rightarrow> ssl_state \<Rightarrow> ssl_state prog" where
  "ssl_accept_client s ctx st = bindp (sys (Accept s)) (\<lambda>a.
     if a_ret a > 0
     then thenp (ssl_greet a) (if snd (snd st) < MAX_CONNECTION then ssl_handshake ctx (a_ret a) st else ret st)
     else ret st)"

text \<open>The last entry takes the place of the dropped one, and its own is cleared.\<close>

definition ssl_move :: "nat \<Rightarrow> ssl_state \<Rightarrow> ssl_state" where
  "ssl_move i st = (case st of (fds, arr, nfds) \<Rightarrow>
     let fds1 = fds[i := (fds ! i)\<lparr>p_fd := p_fd (fds ! (nfds - 1))\<rparr>]; arr1 = arr[i := arr ! (nfds - 1)]
     in (fds1[nfds - 1 := (fds1 ! (nfds - 1))\<lparr>p_fd := - 1\<rparr>], arr1[nfds - 1 := 0], nfds - 1))"

definition ssl_drop :: "nat \<Rightarrow> ssl_state \<Rightarrow> ssl_state prog" where
  "ssl_drop i st = (case st of (fds, arr, nfds) \<Rightarrow>
     thenp (put_out (fmt [''Client '', dec (p_fd (fds ! i)), '' is disconnected'', [LF]]))
     (thenp (sys (Close (p_fd (fds ! i)))) (thenp (sys (SslFree (arr ! i))) (ret (ssl_move i (fds, arr, nfds))))))"

text \<open>The answer to a request that keeps the connection.\<close>

definition ssl_answer :: "int \<Rightarrow> int \<Rightarrow> bytes \<Rightarrow> unit prog" where
  "ssl_answer fd p request = bindp (c_string request) (\<lambda>text.
     thenp (put_out (fmt [''Server received '', dec fd, '' request: '', text, [LF]]))
     (bindp (sys TimeCall) (\<lambda>t.
     bindp (sprintf_to (zeros MESSAGE_SIZE) (''Server time: '' @ dec (a_ret t))) (\<lambda>response.
     bindp (c_string response) (\<lambda>response_s.
     bindp (sys (SslWrite p response_s)) (\<lambda>sent.
     whenp (a_ret sent \<le> 0) (ssl_report ''Server SSL_write() failed'')))))))"

text \<open>The words are looked for before the length is looked at; the array is then zero, or a
  full read, so that both comparisons end inside it.\<close>

definition ssl_serve :: "nat \<Rightarrow> ssl_state \<Rightarrow> ssl_state prog" where
  "ssl_serve i st = (case st of (fds, arr, nfds) \<Rightarrow>
     bindp (sys (SslRead (arr ! i) (int MESSAGE_SIZE))) (\<lambda>a.
     bindp (c_streq (received a) ''quit'') (\<lambda>quit.
     bindp (if quit then ret True else c_streq (received a) ''exit'') (\<lambda>quit_or_exit.
     if a_ret a \<le> 0 \<or> quit_or_exit then ssl_drop i st
     else bindp (terminate_request (a_ret a) (received a)) (\<lambda>request.
       thenp (ssl_answer (p_fd (fds ! i)) (arr ! i) request) (ret st))))))"

definition ssl_step :: "int \<Rightarrow> int \<Rightarrow> nat \<times> ssl_state \<Rightarrow> (nat \<times> ssl_state, ssl_state) iter prog" where
  "ssl_step s ctx x = (case x of (i, st) \<Rightarrow>
     if i < snd (snd st)
     then bindp (entry (fst st) i) (\<lambda>p.
       bindp (if readable p
              then if p_fd p = s then ssl_accept_client s ctx st else ssl_serve i st
              else ret st) (\<lambda>st'. ret (Again (i + 1, st'))))
     else ret (Leave st))"

text \<open>\<open>i\<close> grows in every round and \<open>nfds\<close> is at most 100.\<close>

definition ssl_scan :: "int \<Rightarrow> int \<Rightarrow> ssl_state \<Rightarrow> ssl_state prog" where
  "ssl_scan s ctx st = loop 101 (ssl_step s ctx) (0, st)"

definition ssl_wait :: "pollfd list \<Rightarrow> (int \<times> pollfd list) prog" where
  "ssl_wait fds = bindp (sys (PollCall (map (\<lambda>p. (p_fd p, p_events p)) fds) (- 1))) (\<lambda>a.
     ret (a_ret a, if a_ret a < 0 then fds else map2 (\<lambda>p r. p\<lparr>p_revents := r\<rparr>) fds (a_flags a)))"

definition ssl_round :: "int \<Rightarrow> int \<Rightarrow> ssl_state \<Rightarrow> (ssl_state, ssl_state) iter prog" where
  "ssl_round s ctx st = bindp (ssl_wait (fst st)) (\<lambda>(activity, fds).
     if activity \<le> 0 then thenp (ssl_report ''Server poll() failed'') (ret (Leave (fds, snd st)))
     else bindp (ssl_scan s ctx (fds, snd st)) (\<lambda>st'. ret (Again st')))"

section \<open>The clean-up\<close>

fun ssl_close_all :: "(int \<times> int) list \<Rightarrow> unit prog" where
  "ssl_close_all [] = ret ()"
| "ssl_close_all ((fd, ssl) # es) = thenp (whenp (fd > 0) (thenp (sys (Close fd)) (ret ())))
     (thenp (whenp (ssl \<noteq> 0) (thenp (sys (SslShutdown ssl)) (thenp (sys (SslFree ssl)) (ret ()))))
     (ssl_close_all es))"

definition ssl_cleanup :: "int \<Rightarrow> int \<Rightarrow> int \<Rightarrow> ssl_state \<Rightarrow> unit prog" where
  "ssl_cleanup info s ctx st = (case st of (fds, arr, nfds) \<Rightarrow>
     thenp (sys (FreeAddrInfo info)) (thenp (sys (Close s)) (thenp (sys (SslCtxFree ctx))
     (ssl_close_all (zip (map p_fd fds) arr)))))"

definition ssl_start :: "int \<Rightarrow> int \<Rightarrow> ssl_state" where
  "ssl_start s p = ((replicate MAX_CONNECTION (no_entry\<lparr>p_fd := - 1\<rparr>))[0 := no_entry\<lparr>p_fd := s, p_events := POLLIN\<rparr>],
     (replicate MAX_CONNECTION 0)[0 := p], 1)"

definition ssl_run_server :: "nat \<Rightarrow> unit prog" where
  "ssl_run_server n = bindp ssl_open_server (\<lambda>r. case r of None \<Rightarrow> ret ()
     | Some (info, s) \<Rightarrow> bindp (ssl_server_context info s) (\<lambda>c. case c of None \<Rightarrow> ret ()
     | Some ctx \<Rightarrow> bindp (sys (SslNew ctx)) (\<lambda>p. thenp (sys (SslSetFd (a_ptr p) s))
       (bindp (loop n (ssl_round s ctx) (ssl_start s (a_ptr p))) (\<lambda>st. ssl_cleanup info s ctx st)))))"

section \<open>The setup gives back what it does not hand over\<close>

lemma wp_ssl_open_server:
  assumes os: "lawful os" and d: "disciplined h"
    and none: "\<And>h'. live h' = live h \<Longrightarrow> disciplined h' \<Longrightarrow> Q None h'"
    and some: "\<And>p s h'. 0 \<le> s \<Longrightarrow> Fd s \<notin> live h \<Longrightarrow> Info p \<notin> live h \<Longrightarrow>
      live h' = insert (Fd s) (insert (Info p) (live h)) \<Longrightarrow> disciplined h' \<Longrightarrow> Q (Some (p, s)) h'"
  shows "wp ssl_open_server Q E os h"
  unfolding ssl_open_server_def
  apply (subst wp_bindp)
proof (rule wp_resolve_and_open [OF os d sane_ssl_resolver], goal_cases)
  case 1
  then show ?case by (simp add: wp_ret none)
next
  case (2 p ps s h1)
  have s: "Fd s \<in> live h'" if "live h' = live h1" for h' using that 2 by simp
  have drop: "wp (thenp (ssl_report m) (thenp (give_up False s p) (ret None))) Q E os h'"
    if "live h' = live h1" "disciplined h'" for h' m
    unfolding wp_thenp
  proof (rule wp_ssl_report, rule that, rule wp_give_up, goal_cases)
    case (5 h2 h3)
    then show ?case unfolding wp_ret by (intro none) (use that 2 in auto)
  qed (use that 2 in simp_all)
  show ?case
    unfolding option.case prod.case wp_thenp [of "ssl_set_non_blocking s" for s] wp_thenp [of "sys c" for c]
      wp_bindp [of "shown_bind_all a b c d" for a b c d]
  proof (rule quietD [OF quiet_ssl_set_non_blocking], goal_cases)
    case (4 u h2)
    show ?case
    proof (rule wp_quiet_sys, goal_cases)
      case (4 a h3)
      show ?case
      proof (rule quietD [OF quiet_shown_all(1) [OF quiet_reports_both(1)]], goal_cases)
        case (4 rc h4)
        then have h4: "live h4 = live h1" "disciplined h4"
          using \<open>live h3 = live h2\<close> \<open>live h2 = live h1\<close> by simp_all
        have fin: "wp (if a_ret l \<noteq> 0
            then thenp (ssl_report ''Server listen() failed'') (thenp (give_up False s p) (ret None))
            else ret (Some (p, s))) Q E os h5" if "live h5 = live h1" "disciplined h5" for h5 l
          using drop [OF that] some [of s p h5] that 2 by (simp add: wp_ret)
        have "wp (bindp (sys (Listen s 100)) (\<lambda>l. if a_ret l \<noteq> 0
            then thenp (ssl_report ''Server listen() failed'') (thenp (give_up False s p) (ret None))
            else ret (Some (p, s)))) Q E os h4"
          unfolding wp_bindp [of "sys c" for c]
        proof (rule wp_quiet_sys, goal_cases)
          case (4 l h5)
          show ?case by (rule fin) (use 4 h4 in simp_all)
        qed (use h4 2 in \<open>auto simp: res_simps\<close>)
        with drop [OF h4] show ?case by (simp add: wp_if)
      qed (use 2 \<open>live h3 = live h2\<close> \<open>live h2 = live h1\<close> \<open>disciplined h3\<close> in simp_all)
    qed (use 2 4 in \<open>auto simp: res_simps\<close>)
  qed (use 2 in simp_all)
qed

lemma wp_ssl_server_context:
  assumes law: "lawful os" and l: "live h = {Fd s, Info i} \<union> L" and s: "0 \<le> s" and d: "disciplined h"
    and new: "Fd s \<notin> L" "Info i \<notin> L"
    and none: "\<And>h'. live h' = L \<Longrightarrow> disciplined h' \<Longrightarrow> Q None h'"
    and some: "\<And>c h'. live h' = {Ctx c, Fd s, Info i} \<union> L \<Longrightarrow> disciplined h' \<Longrightarrow> c \<noteq> 0 \<Longrightarrow> Ctx c \<notin> L \<Longrightarrow> Q (Some c) h'"
  shows "wp (ssl_server_context i s) Q E os h"
proof -
  have giving: "wp (thenp (give_up False s i) (ret None)) Q E os h'"
    if "live h' = {Fd s, Info i} \<union> L" "disciplined h'" for h'
    unfolding wp_thenp
    by (rule wp_give_up) (use that s new in \<open>auto simp: wp_ret intro!: none\<close>)
  have freeing: "wp (thenp (ssl_report m) (thenp print_errors (thenp (sys (SslCtxFree c)) (thenp (give_up False s i) (ret None))))) Q E os h'"
    if "live h' = {Ctx c, Fd s, Info i} \<union> L" "disciplined h'" "c \<noteq> 0" "Ctx c \<notin> L" for h' c m
  proof (rule wp_ssl_abandon [OF that(2)])
    fix h1 assume h1: "live h1 = live h'" "disciplined h1"
    show "wp (thenp (sys (SslCtxFree c)) (thenp (give_up False s i) (ret None))) Q E os h1"
      unfolding wp_thenp [of "sys c" for c] wp_sys
      by (intro allI impI giving) (use that h1 in \<open>auto simp: res_simps\<close>)
  qed
  show ?thesis
    unfolding ssl_server_context_def wp_thenp [of "sys c" for c] wp_bindp [of "sys c" for c] wp_sys
  proof (intro allI impI, goal_cases)
    case (1 ini ctx)
    let ?h1 = "(SslCtxNew ''TLS_server_method'', ctx) # (SslInit, ini) # h"
    have d1: "disciplined ?h1" using d by (simp add: res_simps)
    show ?case
    proof (cases "a_ptr ctx = 0")
      case True
      have "wp (thenp (ssl_report m) (thenp print_errors (thenp (give_up False s i) (ret None)))) Q E os ?h1" for m
        by (rule wp_ssl_abandon [OF d1], rule giving) (use True l in \<open>simp_all add: acquires_def releases_def\<close>)
      with True show ?thesis by simp
    next
      case False
      have c: "Ctx (a_ptr ctx) \<notin> {Fd s, Info i} \<union> L"
        using fresh_ssl(1) [OF law False 1(2)] by (simp add: acquires_def releases_def l)
      have l1: "live ?h1 = {Ctx (a_ptr ctx), Fd s, Info i} \<union> L" using False l by (auto simp: res_simps)
      have l2: "live ((SslUseCert (a_ptr ctx) f, a) # ?h1) = {Ctx (a_ptr ctx), Fd s, Info i} \<union> L"
        "disciplined ((SslUseCert (a_ptr ctx) f, a) # ?h1)" for f a
        using l1 d1 by (auto simp: acquires_def releases_def needs_def)
      have l3: "live ((SslUseKey (a_ptr ctx) g, b) # (SslUseCert (a_ptr ctx) f, a) # ?h1) = {Ctx (a_ptr ctx), Fd s, Info i} \<union> L"
        "disciplined ((SslUseKey (a_ptr ctx) g, b) # (SslUseCert (a_ptr ctx) f, a) # ?h1)" for f a g b
        using l2 by (auto simp: acquires_def releases_def needs_def)
      from False c freeing [OF l2] freeing [OF l3] some [OF l3] show ?thesis
        by (simp add: wp_bindp [of "sys c" for c] wp_sys wp_ret del: live.simps disciplined.simps)
    qed
  qed
qed

section \<open>Invariant\<close>

abbreviation ssl_fds :: "ssl_state \<Rightarrow> int list" where
  "ssl_fds st \<equiv> poll_used (fst st, snd (snd st))"

abbreviation ssl_handles :: "ssl_state \<Rightarrow> int list" where
  "ssl_handles st \<equiv> take (snd (snd st)) (fst (snd st))"

text \<open>The entries in use have different open descriptors and different live handles; the
  listening socket is the first; the free entries hold neither.\<close>

definition ssl_shape :: "int \<Rightarrow> ssl_state \<Rightarrow> bool" where
  "ssl_shape s st \<longleftrightarrow> (case st of (fds, arr, n) \<Rightarrow>
     length fds = MAX_CONNECTION \<and> length arr = MAX_CONNECTION \<and> 1 \<le> n \<and> n \<le> MAX_CONNECTION \<and>
     hd (ssl_fds st) = s \<and> distinct (ssl_fds st) \<and> distinct (ssl_handles st) \<and> 0 \<notin> set (ssl_handles st) \<and>
     (\<forall>k. n \<le> k \<and> k < MAX_CONNECTION \<longrightarrow> p_fd (fds ! k) = - 1 \<and> arr ! k = 0))"

definition ssl_inv :: "int \<Rightarrow> int \<Rightarrow> int \<Rightarrow> ssl_state \<Rightarrow> log \<Rightarrow> bool" where
  "ssl_inv info s ctx st h \<longleftrightarrow> ssl_shape s st \<and> (\<forall>f \<in> set (ssl_fds st). 0 \<le> f) \<and>
     Fd ` set (ssl_fds st) \<union> Ssl ` set (ssl_handles st) \<union> {Info info, Ctx ctx} \<subseteq> live h \<and> disciplined h"

lemma ssl_inv_log: "ssl_inv info s ctx st h \<Longrightarrow> live h' = live h \<Longrightarrow> disciplined h' \<Longrightarrow> ssl_inv info s ctx st h'"
  by (simp add: ssl_inv_def)

lemma ssl_entry:
  assumes "ssl_inv info s ctx (fds, arr, n) h" and "i < n"
  shows "p_fd (fds ! i) \<in> set (ssl_fds (fds, arr, n))" "arr ! i \<in> set (ssl_handles (fds, arr, n))"
    "0 \<le> p_fd (fds ! i)" "Fd (p_fd (fds ! i)) \<in> live h" "Ssl (arr ! i) \<in> live h" "arr ! i \<noteq> 0"
    "p_fd (fds ! i) = s \<longleftrightarrow> i = 0" "i < length fds"
proof -
  have len: "length fds = 100" "length arr = 100" "n \<le> 100" "1 \<le> n"
    and sh: "hd (ssl_fds (fds, arr, n)) = s" "distinct (ssl_fds (fds, arr, n))"
    using assms(1) by (auto simp: ssl_inv_def ssl_shape_def)
  have nth: "poll_used (fds, n) ! k = p_fd (fds ! k)" if "k < n" for k using that len by (simp add: poll_used_nth)
  have lu: "length (poll_used (fds, n)) = n" using len by (simp add: length_poll_used)
  show 1: "p_fd (fds ! i) \<in> set (ssl_fds (fds, arr, n))" using nth [OF assms(2)] lu assms(2) by (metis fst_conv nth_mem snd_conv)
  have "take n arr ! i = arr ! i" "i < length (take n arr)" using assms(2) len by simp_all
  then show 2: "arr ! i \<in> set (ssl_handles (fds, arr, n))" by (metis fst_conv nth_mem snd_conv)
  show "0 \<le> p_fd (fds ! i)" "Fd (p_fd (fds ! i)) \<in> live h" "Ssl (arr ! i) \<in> live h"
    using 1 2 assms(1) by (auto simp: ssl_inv_def)
  show "arr ! i \<noteq> 0" using 2 assms(1) by (auto simp: ssl_inv_def ssl_shape_def)
  show "i < length fds" using assms(2) len by simp
  have "hd (poll_used (fds, n)) = poll_used (fds, n) ! 0" using lu len by (metis hd_conv_nth list.size(3) not_one_le_zero)
  then have "s = p_fd (fds ! 0)" using sh(1) nth [of 0] len by simp
  then show "p_fd (fds ! i) = s \<longleftrightarrow> i = 0"
    using sh(2) nth [of 0] nth [OF assms(2)] assms(2) lu len nth_eq_iff_index_eq [of "poll_used (fds, n)" i 0] by auto
qed

section \<open>The steps\<close>

text \<open>The two arrays, each as the interface sees it\<close>

definition ssl_fits :: "ssl_state \<Rightarrow> bool" where
  "ssl_fits st \<longleftrightarrow> length (fst st) = MAX_CONNECTION \<and> length (fst (snd st)) = MAX_CONNECTION \<and> snd (snd st) \<le> MAX_CONNECTION"

lemma ssl_fits_move: "ssl_fits st \<Longrightarrow> ssl_fits (ssl_move i st)"
  by (auto simp: ssl_fits_def ssl_move_def Let_def split: prod.splits)

lemma ssl_fits_add: "ssl_fits st \<Longrightarrow> snd (snd st) < MAX_CONNECTION \<Longrightarrow> ssl_fits (ssl_add c p st)"
  by (auto simp: ssl_fits_def ssl_add_def split: prod.splits)

interpretation ssl_fd: slots ssl_fds ssl_fits "\<lambda>st. snd (snd st) < MAX_CONNECTION" ssl_move "\<lambda>c. ssl_add c p" for p
proof
  fix st :: ssl_state and i and c
  obtain fds arr n where st: "st = (fds, arr, n)" by (cases st)
  show "ssl_fds (ssl_move i st) = take (length (ssl_fds st) - 1) ((ssl_fds st)[i := last (ssl_fds st)])"
    if "ssl_fits st" "i < length (ssl_fds st)"
  proof -
    have l: "length (ssl_fds st) = n" using that(1) by (simp add: st ssl_fits_def poll_used_def)
    have "ssl_fds (ssl_move i st) = poll_used (fds[i := (fds ! i)\<lparr>p_fd := p_fd (fds ! (n - 1))\<rparr>], n - 1)"
      by (simp add: st ssl_move_def Let_def poll_used_def)
    also have "\<dots> = take (n - 1) ((ssl_fds st)[i := last (ssl_fds st)])"
      using that l poll_used_move [of n fds i] by (simp add: st ssl_fits_def)
    finally show ?thesis by (simp only: l)
  qed
  show "ssl_fds (ssl_add c p st) = ssl_fds st @ [c]" if "ssl_fits st" "snd (snd st) < MAX_CONNECTION"
    using that by (simp add: st ssl_add_def ssl_fits_def poll_used_def take_Suc_conv_app_nth)
qed (simp_all add: ssl_fits_move ssl_fits_add)

interpretation ssl_handle: slots ssl_handles ssl_fits "\<lambda>st. snd (snd st) < MAX_CONNECTION" ssl_move "ssl_add c" for c
proof
  fix st :: ssl_state and i and p
  obtain fds arr n where st: "st = (fds, arr, n)" by (cases st)
  show "ssl_handles (ssl_move i st) = take (length (ssl_handles st) - 1) ((ssl_handles st)[i := last (ssl_handles st)])"
    if "ssl_fits st" "i < length (ssl_handles st)"
    using that take_swap_last [of n arr i] by (simp add: st ssl_move_def Let_def ssl_fits_def)
  show "ssl_handles (ssl_add c p st) = ssl_handles st @ [p]" if "ssl_fits st" "snd (snd st) < MAX_CONNECTION"
    using that by (simp add: st ssl_add_def ssl_fits_def take_Suc_conv_app_nth)
qed (simp_all add: ssl_fits_move ssl_fits_add)

lemma ssl_shape_fits:
  "ssl_shape s st \<Longrightarrow> ssl_fits st \<and> length (ssl_fds st) = snd (snd st) \<and> length (ssl_handles st) = snd (snd st)"
  by (auto simp: ssl_shape_def ssl_fits_def poll_used_def split: prod.splits)

lemma ssl_move_free:
  assumes "ssl_shape s (fds, arr, n)" and "i < n" and "n - 1 \<le> k" and "k < 100"
  shows "p_fd (fst (ssl_move i (fds, arr, n)) ! k) = - 1 \<and> fst (snd (ssl_move i (fds, arr, n))) ! k = 0"
  using assms by (cases "k = n - 1") (auto simp: ssl_shape_def ssl_move_def Let_def nth_list_update)

lemma ssl_shape_move:
  assumes sh: "ssl_shape s st" and i: "1 \<le> i" "i < snd (snd st)"
  shows "ssl_shape s (ssl_move i st)" and "set (ssl_fds (ssl_move i st)) = set (ssl_fds st) - {ssl_fds st ! i}"
    and "set (ssl_handles (ssl_move i st)) = set (ssl_handles st) - {ssl_handles st ! i}"
proof -
  obtain fds arr n where st: "st = (fds, arr, n)" by (cases st)
  have d: "distinct (ssl_fds st)" "distinct (ssl_handles st)" "hd (ssl_fds st) = s" "0 \<notin> set (ssl_handles st)"
    using sh by (auto simp: ssl_shape_def st)
  have slot: "ssl_fits st" "i < length (ssl_fds st)" "i < length (ssl_handles st)" using ssl_shape_fits [OF sh] i(2) by auto
  show fds: "set (ssl_fds (ssl_move i st)) = set (ssl_fds st) - {ssl_fds st ! i}"
    by (rule ssl_fd.move_set [OF slot(1,2) d(1)])
  show hs: "set (ssl_handles (ssl_move i st)) = set (ssl_handles st) - {ssl_handles st ! i}"
    by (rule ssl_handle.move_set [OF slot(1,3) d(2)])
  have "snd (snd (ssl_move i st)) = n - 1" by (simp add: st ssl_move_def Let_def)
  then show "ssl_shape s (ssl_move i st)"
    using ssl_fits_move [OF slot(1), of i] ssl_fd.move_distinct [OF slot(1,2) d(1)] ssl_fd.move_hd [OF slot(1,2) d(1)]
      ssl_handle.move_distinct [OF slot(1,3) d(2)] hs d(3,4) i slot(1) ssl_move_free [OF sh [unfolded st], of i]
    unfolding ssl_shape_def ssl_fits_def by (auto simp: st split: prod.split)
qed

lemma wp_ssl_drop:
  assumes inv: "ssl_inv info s ctx (fds, arr, n) h" and i: "1 \<le> i" "i < n"
  shows "wp (ssl_drop i (fds, arr, n)) (\<lambda>st h'. ssl_inv info s ctx st h') E os h"
proof -
  let ?st = "(fds, arr, n)" and ?f = "p_fd (fds ! i)" and ?p = "arr ! i"
  note e = ssl_entry [OF inv i(2)]
  have sh: "ssl_shape s ?st" and own: "\<forall>f \<in> set (ssl_fds ?st). 0 \<le> f" "disciplined h"
      "Fd ` set (ssl_fds ?st) \<union> Ssl ` set (ssl_handles ?st) \<union> {Info info, Ctx ctx} \<subseteq> live h"
    using inv by (auto simp: ssl_inv_def)
  have "ssl_fds ?st ! i = ?f" "ssl_handles ?st ! i = ?p"
    using i ssl_shape_fits [OF sh] by (simp_all add: poll_used_def ssl_fits_def)
  then have sets: "set (ssl_fds (ssl_move i ?st)) = set (ssl_fds ?st) - {?f}"
    "set (ssl_handles (ssl_move i ?st)) = set (ssl_handles ?st) - {?p}"
    using ssl_shape_move(2,3) [OF sh i(1)] i(2) by simp_all
  have inv2: "ssl_inv info s ctx (ssl_move i ?st) ((SslFree ?p, c) # (Close ?f, b) # (Out t, a) # h)" (is "ssl_inv _ _ _ _ ?h") for a b c t
  proof -
    have l: "live ?h = live h - {Fd ?f, Ssl ?p}" and d: "disciplined ?h" using e own(2) by (auto simp: res_simps)
    have "Fd ` (set (ssl_fds ?st) - {?f}) \<union> Ssl ` (set (ssl_handles ?st) - {?p}) \<union> {Info info, Ctx ctx} \<subseteq> live ?h"
      unfolding l using own(3) by blast
    moreover have "\<forall>f \<in> set (ssl_fds ?st) - {?f}. 0 \<le> f" using own(1) by blast
    ultimately show ?thesis unfolding ssl_inv_def sets using ssl_shape_move(1) [OF sh i(1)] i(2) d by simp
  qed
  show ?thesis
    unfolding ssl_drop_def prod.case wp_thenp wp_sys wp_ret wp_put_out using inv2 by blast
qed

lemma ssl_shape_add:
  assumes sh: "ssl_shape s st" and n: "snd (snd st) < 100" and c: "c \<notin> set (ssl_fds st)"
    and p: "p \<notin> set (ssl_handles st)" "p \<noteq> 0"
  shows "ssl_shape s (ssl_add c p st)"
    and "set (ssl_fds (ssl_add c p st)) = insert c (set (ssl_fds st))"
    and "set (ssl_handles (ssl_add c p st)) = insert p (set (ssl_handles st))"
proof -
  obtain fds arr m where st: "st = (fds, arr, m)" by (cases st)
  have d: "distinct (ssl_fds st)" "distinct (ssl_handles st)" "hd (ssl_fds st) = s" "ssl_fds st \<noteq> []" "0 \<notin> set (ssl_handles st)"
    using sh ssl_shape_fits [OF sh] by (auto simp: ssl_shape_def st)
  have slot: "ssl_fits st" "snd (snd st) < MAX_CONNECTION" using ssl_shape_fits [OF sh] n by auto
  show "set (ssl_fds (ssl_add c p st)) = insert c (set (ssl_fds st))" by (rule ssl_fd.add_set [OF slot])
  show hs: "set (ssl_handles (ssl_add c p st)) = insert p (set (ssl_handles st))" by (rule ssl_handle.add_set [OF slot])
  have "p_fd (fst (ssl_add c p st) ! k) = - 1 \<and> fst (snd (ssl_add c p st)) ! k = 0" if "m + 1 \<le> k" "k < 100" for k
    using sh that by (auto simp: ssl_shape_def ssl_add_def st)
  then show "ssl_shape s (ssl_add c p st)"
    using ssl_fits_add [OF slot, of c p] ssl_fd.add_distinct [OF slot d(1) c, of p] ssl_fd.add_hd [OF slot d(4), of c p]
      ssl_handle.add_distinct [OF slot d(2) p(1), of c] hs d(3,5) p(2)
    unfolding ssl_shape_def ssl_fits_def by (auto simp: st ssl_add_def)
qed

lemma ssl_shape_reset:
  assumes "ssl_shape s (fds, arr, n)" and "n < 100" and "p_fd q = - 1"
  shows "ssl_shape s (fds[n := q], arr[n := 0], n)"
  using assms by (auto simp: ssl_shape_def poll_used_def nth_list_update)

text \<open>Handles do not run out.\<close>

definition ssl_memory_ok :: "os \<Rightarrow> bool" where
  "ssl_memory_ok os \<longleftrightarrow> (\<forall>h c. a_ptr (os h (SslNew c)) \<noteq> 0)"

lemma wp_ssl_handshake:
  assumes inv: "ssl_inv info s ctx st h" and law: "lawful os" and mem: "ssl_memory_ok os"
    and n: "snd (snd st) < 100" and c: "0 \<le> c" "Fd c \<in> live h" "c \<notin> set (ssl_fds st)"
  shows "wp (ssl_handshake ctx c st) (\<lambda>st h'. ssl_inv info s ctx st h') E os h"
proof -
  obtain fds arr m where st: "st = (fds, arr, m)" by (cases st)
  have sh: "ssl_shape s (fds, arr, m)" and own: "\<forall>f \<in> set (poll_used (fds, m)). 0 \<le> f"
      "Fd ` set (poll_used (fds, m)) \<union> Ssl ` set (take m arr) \<union> {Info info, Ctx ctx} \<subseteq> live h" "disciplined h"
    using inv by (auto simp: ssl_inv_def st)
  have m: "m < 100" and c': "c \<notin> set (poll_used (fds, m))" using n c(3) by (simp_all add: st)
  have good: "ssl_inv info s ctx (ssl_add c p (fds, arr, m)) h'"
    if "live h' = insert (Ssl p) (live h)" "disciplined h'" "p \<noteq> 0" "Ssl p \<notin> live h" for p h'
  proof -
    have p: "p \<notin> set (ssl_handles (fds, arr, m))" using that(4) own(2) by auto
    have "ssl_shape s (ssl_add c p (fds, arr, m))"
      and "set (ssl_fds (ssl_add c p (fds, arr, m))) = insert c (set (poll_used (fds, m)))"
      and "set (ssl_handles (ssl_add c p (fds, arr, m))) = insert p (set (take m arr))"
      using ssl_shape_add [OF sh _ _ p that(3), of c] m c' by simp_all
    then show ?thesis unfolding ssl_inv_def using that own c(1,2) by auto
  qed
  have bad: "ssl_inv info s ctx (fds[m := (fds ! m)\<lparr>p_fd := - 1, p_events := POLLIN\<rparr>], arr[m := 0], m) h'"
    if "live h' = live h - {Fd c}" "disciplined h'" for h'
    using ssl_shape_reset [OF sh m, of "(fds ! m)\<lparr>p_fd := - 1, p_events := POLLIN\<rparr>"] that own c' m
    by (auto simp: ssl_inv_def poll_used_def)
  show ?thesis
    unfolding st ssl_handshake_def prod.case wp_bindp [of "sys c" for c] wp_thenp [of "sys c" for c] wp_sys
  proof (intro allI impI, goal_cases)
    case (1 p x rc)
    have p: "a_ptr p \<noteq> 0" using 1(1) mem by (auto simp: ssl_memory_ok_def answers_def)
    from fresh_ssl(2) [OF law p 1(1)] have new: "Ssl (a_ptr p) \<notin> live h" .
    let ?h = "(SslAccept (a_ptr p), rc) # (SslSetFd (a_ptr p) c, x) # (SslNew ctx, p) # h"
    have l: "live ?h = insert (Ssl (a_ptr p)) (live h)" "disciplined ?h"
      using p own c by (auto simp: acquires_def releases_def needs_def)
    have "wp (thenp (sys (Close c)) (thenp (sys (SslFree (a_ptr p)))
        (ret (fds[m := (fds ! m)\<lparr>p_fd := - 1, p_events := POLLIN\<rparr>], arr[m := 0], m)))) (\<lambda>st h'. ssl_inv info s ctx st h') E os h1"
      if "live h1 = live ?h" "disciplined h1" for h1
      unfolding wp_thenp wp_sys wp_ret
      by (intro allI impI bad) (use that l p c new in \<open>auto simp: acquires_def releases_def needs_def\<close>)
    then have fail: "wp (thenp (ssl_report ''Server SSL_accept() failed'') (thenp print_errors (thenp (sys (Close c)) (thenp (sys (SslFree (a_ptr p)))
        (ret (fds[m := (fds ! m)\<lparr>p_fd := - 1, p_events := POLLIN\<rparr>], arr[m := 0], m)))))) (\<lambda>st h'. ssl_inv info s ctx st h') E os ?h"
      by (rule wp_ssl_abandon [OF l(2)])
    have ok: "wp (thenp (ssl_set_non_blocking c) (ret (ssl_add c (a_ptr p) (fds, arr, m))))
        (\<lambda>st h'. ssl_inv info s ctx st h') E os ?h"
      unfolding wp_thenp
    proof (rule quietD [OF quiet_ssl_set_non_blocking], goal_cases)
      case (4 u h1)
      then show ?case unfolding wp_ret using good [of h1 "a_ptr p"] l p new by simp
    qed (use l c in simp_all)
    from fail ok show ?case by simp
  qed
qed

text \<open>A comparison that ends inside the array, whatever the array holds.\<close>

lemma wp_c_streq_any:
  assumes "length lit < length buf" and "\<And>b. Q b h"
  shows "wp (c_streq buf lit) Q E os h"
  using assms streq_None [of buf lit] by (cases "streq buf lit") (auto simp: c_streq_def wp_getp)

lemma wp_ssl_answer:
  assumes law: "lawful os" and p: "Ssl p \<in> live h" and d: "disciplined h" and t: "terminated req"
    and post: "\<And>h'. live h' = live h \<Longrightarrow> disciplined h' \<Longrightarrow> Q () h'"
  shows "wp (ssl_answer fd p req) Q E os h"
proof -
  have str: "cstr (overlay (zeros 1024) 0 (''Server time: '' @ dec (a_ret t) @ [NUL])) = ''Server time: '' @ dec (a_ret t)"
    "terminated (overlay (zeros 1024) 0 (''Server time: '' @ dec (a_ret t) @ [NUL]))"
    "length (dec (a_ret t)) + 13 < 1024"
    if "answers os h' TimeCall t" for h' t
    using time_text_fits [OF time_law [OF law that]] cstr_overlay [of "''Server time: '' @ dec (a_ret t)" "zeros 1024"]
      terminated_overlay [of "''Server time: '' @ dec (a_ret t)" "zeros 1024"]
    by simp_all
  show ?thesis
    using p d t str
    by (auto simp: ssl_answer_def ssl_report_def wp_simps res_simps intro!: post)
qed

lemma wp_ssl_serve:
  assumes inv: "ssl_inv info s ctx (fds, arr, n) h" and i: "1 \<le> i" "i < n" and law: "lawful os"
  shows "wp (ssl_serve i (fds, arr, n)) (\<lambda>st h'. ssl_inv info s ctx st h') (\<lambda>e h. stop_ok e h \<and> e \<noteq> Unfinished) os h"
  unfolding ssl_serve_def prod.case of_nat_numeral wp_bindp [of "sys c" for c] wp_sys
proof (intro allI impI, goal_cases)
  case (1 a)
  let ?c = "SslRead (arr ! i) 1024"
  note e = ssl_entry [OF inv i(2)]
  have full: "reads_full ?c" by (simp add: reads_full_def)
  note law' = full_read_law [OF law 1 full]
  have log: "live ((?c, a) # h) = live h" "disciplined ((?c, a) # h)"
    using law' e inv by (simp_all add: needs_def ssl_inv_def)
  have inv1: "ssl_inv info s ctx (fds, arr, n) ((?c, a) # h)" by (rule ssl_inv_log [OF inv log])
  have len: "length (received a) = 1024" using law' by (auto simp: received_def)
  have drop: "wp (ssl_drop i (fds, arr, n)) (\<lambda>st h'. ssl_inv info s ctx st h') (\<lambda>e h. stop_ok e h \<and> e \<noteq> Unfinished) os ((?c, a) # h)"
    by (rule wp_ssl_drop [OF inv1 i])
  have over: "stop_ok (Fault Out_Of_Bounds) ((?c, a) # h)" if "a_ret a = 1024"
    using overrunI [OF full that] log(2) by (simp add: stop_ok_def)
  have answer: "wp (thenp (ssl_answer (p_fd (fds ! i)) (arr ! i) ((received a)[nat (a_ret a) := NUL])) (ret (fds, arr, n)))
      (\<lambda>st h'. ssl_inv info s ctx st h') (\<lambda>e h. stop_ok e h \<and> e \<noteq> Unfinished) os ((?c, a) # h)"
    if "0 < a_ret a" "a_ret a < 1024"
  proof -
    have t: "terminated ((received a)[nat (a_ret a) := NUL])"
      using that len by (auto simp: terminated_def intro: set_update_memI)
    show ?thesis
      unfolding wp_thenp
    proof (rule wp_ssl_answer [OF law _ log(2) t], goal_cases)
      case 1
      then show ?case using e log by simp
    next
      case (2 h1)
      then show ?case unfolding wp_ret by (intro ssl_inv_log [OF inv]) (use log in simp_all)
    qed
  qed
  have lit: "length ''quit'' < length (received a)" "length ''exit'' < length (received a)" by (simp_all add: len)
  show ?case
    unfolding wp_bindp [of "c_streq b c" for b c] wp_bindp [of "if b then x else y" for b x y] wp_if [of _ "ret True"] wp_ret
    using drop over answer len law'
    by (auto intro!: wp_c_streq_any [OF lit(1)] wp_c_streq_any [OF lit(2)] simp: terminate_request_def wp_bindp wp_poke)
qed

lemma quiet_ssl_greet: "disciplined h \<Longrightarrow> quiet (ssl_greet a) os h"
  by (auto simp: quiet_def ssl_greet_def wp_simps res_simps)

lemma wp_ssl_accept_client:
  assumes inv: "ssl_inv info s ctx st h" and law: "lawful os" and mem: "ssl_memory_ok os"
  shows "wp (ssl_accept_client s ctx st) (\<lambda>st h'. ssl_inv info s ctx st h') (\<lambda>e h. stop_ok e h \<and> e \<noteq> Unfinished) os h"
  unfolding ssl_accept_client_def wp_bindp [of "sys c" for c] wp_sys
proof (intro allI impI, goal_cases)
  case (1 a)
  obtain fds arr n where st: "st = (fds, arr, n)" by (cases st)
  have "0 < n" using inv by (auto simp: ssl_inv_def ssl_shape_def st)
  from ssl_entry [OF inv [unfolded st] this] have s: "0 \<le> s" "Fd s \<in> live h" by auto
  have d: "disciplined ((Accept s, a) # h)" using inv s by (simp add: ssl_inv_def res_simps)
  show ?case
  proof (cases "0 < a_ret a")
    case False
    then have "live h \<subseteq> live ((Accept s, a) # h)" by (auto simp: res_simps)
    then have "ssl_inv info s ctx st ((Accept s, a) # h)" using inv d by (auto simp: ssl_inv_def)
    with False show ?thesis by (simp add: wp_ret)
  next
    case True
    then have new: "Fd (a_ret a) \<notin> live h" using fresh_accept [OF law 1] by simp
    have l: "live ((Accept s, a) # h) = insert (Fd (a_ret a)) (live h)" using True by (auto simp: res_simps)
    have inv1: "ssl_inv info s ctx st h1" if "live h1 = live ((Accept s, a) # h)" "disciplined h1" for h1
      using inv that unfolding l by (auto simp: ssl_inv_def)
    have "wp (if snd (snd st) < 100 then ssl_handshake ctx (a_ret a) st else ret st) (\<lambda>st h'. ssl_inv info s ctx st h')
        (\<lambda>e h. stop_ok e h \<and> e \<noteq> Unfinished) os h1" if h1: "live h1 = live ((Accept s, a) # h)" "disciplined h1" for h1
    proof (cases "snd (snd st) < 100")
      case lt: True
      have "a_ret a \<notin> set (ssl_fds st)" using inv new by (auto simp: ssl_inv_def)
      then have "wp (ssl_handshake ctx (a_ret a) st) (\<lambda>st h'. ssl_inv info s ctx st h') (\<lambda>e h. stop_ok e h \<and> e \<noteq> Unfinished) os h1"
        by (intro wp_ssl_handshake [OF inv1 [OF h1] law mem lt]) (use True h1(1) l in auto)
      with lt show ?thesis by simp
    qed (use inv1 [OF h1] in \<open>simp add: wp_ret\<close>)
    then have "wp (thenp (ssl_greet a) (if snd (snd st) < 100 then ssl_handshake ctx (a_ret a) st else ret st))
        (\<lambda>st h'. ssl_inv info s ctx st h') (\<lambda>e h. stop_ok e h \<and> e \<noteq> Unfinished) os ((Accept s, a) # h)"
      unfolding wp_thenp by (rule quietD [OF quiet_ssl_greet [OF d]])
    with True show ?thesis by (simp only: if_True)
  qed
qed

lemma wp_ssl_scan:
  assumes inv: "ssl_inv info s ctx st h" and law: "lawful os" and mem: "ssl_memory_ok os"
  shows "wp (ssl_scan s ctx st) (\<lambda>st h'. ssl_inv info s ctx st h') (\<lambda>e h. stop_ok e h \<and> e \<noteq> Unfinished) os h"
  unfolding ssl_scan_def
proof (rule wp_loop_total [where I = "\<lambda>s'. case s' of (i, st) \<Rightarrow> ssl_inv info s ctx st" and mu = "\<lambda>(i, st). 100 - i"], goal_cases)
  case (1 x h0)
  obtain i fds arr n where x: "x = (i, fds, arr, n)" by (cases x)
  have inv0: "ssl_inv info s ctx (fds, arr, n) h0" using 1 by (simp add: x)
  then have n: "n \<le> 100" by (simp add: ssl_inv_def ssl_shape_def)
  show ?case
  proof (cases "i < n")
    case False
    with inv0 show ?thesis by (simp add: x ssl_step_def wp_ret)
  next
    case True
    note e = ssl_entry [OF inv0 True]
    have serve: "wp (ssl_serve i (fds, arr, n)) (\<lambda>st h'. ssl_inv info s ctx st h') (\<lambda>e h. stop_ok e h \<and> e \<noteq> Unfinished) os h0"
      if "p_fd (fds ! i) \<noteq> s"
      by (rule wp_ssl_serve [OF inv0 _ True law]) (use e that in auto)
    have "wp (if readable (fds ! i)
              then if p_fd (fds ! i) = s then ssl_accept_client s ctx (fds, arr, n) else ssl_serve i (fds, arr, n)
              else ret (fds, arr, n)) (\<lambda>st h'. ssl_inv info s ctx st h') (\<lambda>e h. stop_ok e h \<and> e \<noteq> Unfinished) os h0"
      using wp_ssl_accept_client [OF inv0 law mem] serve inv0 by (simp add: wp_ret)
    then have "wp (bindp (if readable (fds ! i)
              then if p_fd (fds ! i) = s then ssl_accept_client s ctx (fds, arr, n) else ssl_serve i (fds, arr, n)
              else ret (fds, arr, n)) (\<lambda>st'. ret (Again (i + 1, st')))) (\<lambda>r h'. case r of
          Again s' \<Rightarrow> (case s' of (i, st) \<Rightarrow> ssl_inv info s ctx st) h' \<and> (case s' of (i, st) \<Rightarrow> 100 - i) < (case x of (i, st) \<Rightarrow> 100 - i)
        | Leave b \<Rightarrow> ssl_inv info s ctx b h') (\<lambda>e h. stop_ok e h \<and> e \<noteq> Unfinished) os h0"
      unfolding wp_bindp by (rule wp_mono) (use True n in \<open>auto simp: wp_ret x\<close>)
    then show ?thesis
      by (simp only: x ssl_step_def prod.case fst_conv snd_conv True if_True wp_bindp [of "entry a b" for a b] wp_entry e(8))
  qed
qed (use inv in auto)

lemma ssl_poll_needs:
  assumes "ssl_inv info s ctx (fds, arr, n) h"
  shows "needs (PollCall (map (\<lambda>p. (p_fd p, p_events p)) fds) t) \<subseteq> live h"
proof -
  have "fd_res (p_fd p) \<subseteq> live h" if p: "p \<in> set fds" for p
  proof -
    obtain k where k: "k < length fds" "p = fds ! k" using p by (metis in_set_conv_nth)
    show ?thesis
    proof (cases "k < n")
      case True
      from ssl_entry [OF assms this] k show ?thesis by simp
    next
      case False
      then have "p_fd p = - 1" using assms k by (auto simp: ssl_inv_def ssl_shape_def)
      then show ?thesis by simp
    qed
  qed
  then show ?thesis by (auto simp: needs_def)
qed

lemma wp_ssl_wait:
  assumes inv: "ssl_inv info s ctx st h" and law: "lawful os"
    and post: "\<And>r fds' h'. ssl_inv info s ctx (fds', snd st) h' \<Longrightarrow>
      r = a_ret (os h (PollCall (map (\<lambda>p. (p_fd p, p_events p)) (fst st)) (- 1))) \<Longrightarrow> Q (r, fds') h'"
  shows "wp (ssl_wait (fst st)) Q E os h"
proof -
  obtain fds arr n where st: "st = (fds, arr, n)" by (cases st)
  let ?c = "PollCall (map (\<lambda>p. (p_fd p, p_events p)) fds) (- 1)"
  have inv1: "ssl_inv info s ctx (fds, arr, n) ((?c, a) # h)" for a
    by (rule ssl_inv_log [OF inv [unfolded st]])
      (use ssl_poll_needs [OF inv [unfolded st], of "- 1"] inv in \<open>auto simp: ssl_inv_def acquires_def releases_def\<close>)
  have upd: "ssl_inv info s ctx (map2 (\<lambda>p r. p\<lparr>p_revents := r\<rparr>) fds (a_flags a), arr, n) ((?c, a) # h)"
    if a: "answers os h ?c a" "0 \<le> a_ret a" for a
  proof -
    let ?fds = "map2 (\<lambda>p r. p\<lparr>p_revents := r\<rparr>) fds (a_flags a)"
    have len: "length fds = length (a_flags a)" using poll_law [OF law a] by simp
    have "map p_fd ?fds = map p_fd fds" by (rule map_fd_revents [OF len])
    moreover have "length ?fds = length fds" using len by simp
    ultimately have "length ?fds = length fds" "\<And>k. map p_fd (take k ?fds) = map p_fd (take k fds)"
      "\<And>k. k < length fds \<Longrightarrow> p_fd (?fds ! k) = p_fd (fds ! k)"
      by (metis, metis take_map, metis nth_map)
    then show ?thesis using inv1 [of a] by (auto simp: ssl_inv_def ssl_shape_def poll_used_def)
  qed
  show ?thesis
    using inv1 upd by (auto simp: st ssl_wait_def wp_bindp wp_sys wp_ret answers_def not_less intro!: post)
qed

text \<open>What the loop's round does: it goes on with the invariant, or leaves because \<open>poll\<close>
  failed.\<close>

definition polls_ok :: "os \<Rightarrow> bool" where
  "polls_ok os \<longleftrightarrow> (\<forall>h fs t. 0 < a_ret (os h (PollCall fs t)))"

lemma wp_ssl_round:
  assumes inv: "ssl_inv info s ctx st h" and law: "lawful os" and mem: "ssl_memory_ok os"
  shows "wp (ssl_round s ctx st) (\<lambda>r h'. case r of Again st' \<Rightarrow> ssl_inv info s ctx st' h'
      | Leave st' \<Rightarrow> ssl_inv info s ctx st' h' \<and> \<not> polls_ok os)
    (\<lambda>e h. stop_ok e h \<and> e \<noteq> Unfinished) os h"
  unfolding ssl_round_def wp_bindp [of "ssl_wait fds" for fds]
proof (rule wp_ssl_wait [OF inv law], goal_cases)
  case (1 r fds h1)
  show ?case
  proof (cases "r \<le> 0")
    case True
    then have bad: "\<not> polls_ok os" using 1(2) by (auto simp: polls_ok_def not_less)
    have "wp (thenp (ssl_report ''Server poll() failed'') (ret (Leave (fds, snd st) :: (ssl_state, ssl_state) iter)))
        (\<lambda>r h'. case r of Again st' \<Rightarrow> ssl_inv info s ctx st' h'
          | Leave st' \<Rightarrow> ssl_inv info s ctx st' h' \<and> \<not> polls_ok os) (\<lambda>e h. stop_ok e h \<and> e \<noteq> Unfinished) os h1"
      unfolding wp_thenp wp_ret iter.case
      by (rule wp_ssl_report) (use 1(1) bad in \<open>auto simp: ssl_inv_def intro: ssl_inv_log\<close>)
    with True show ?thesis by simp
  next
    case False
    have "wp (bindp (ssl_scan s ctx (fds, snd st)) (\<lambda>st'. ret (Again st' :: (ssl_state, ssl_state) iter)))
        (\<lambda>r h'. case r of Again st' \<Rightarrow> ssl_inv info s ctx st' h'
          | Leave st' \<Rightarrow> ssl_inv info s ctx st' h' \<and> \<not> polls_ok os) (\<lambda>e h. stop_ok e h \<and> e \<noteq> Unfinished) os h1"
      unfolding wp_bindp wp_ret iter.case by (rule wp_ssl_scan [OF 1(1) law mem])
    with False show ?thesis by simp
  qed
qed

lemma take_1_update: "xs \<noteq> [] \<Longrightarrow> take (Suc 0) (xs[0 := x]) = [x]"
  by (cases xs) auto

lemma ssl_start_inv:
  assumes "p \<noteq> 0" and "0 \<le> s" and "{Fd s, Ssl p, Info info, Ctx ctx} \<subseteq> live h" and "disciplined h"
  shows "ssl_inv info s ctx (ssl_start s p) h"
proof -
  have "poll_used (fst (ssl_start s p), 1) = [s]" "take 1 (fst (snd (ssl_start s p))) = [p]"
    by (simp_all add: ssl_start_def poll_used_def take_1_update del: replicate.simps)
  moreover have "snd (snd (ssl_start s p)) = 1" by (simp add: ssl_start_def)
  moreover have "p_fd (fst (ssl_start s p) ! k) = - 1 \<and> fst (snd (ssl_start s p)) ! k = 0" if "1 \<le> k" "k < 100" for k
    using that by (simp add: ssl_start_def)
  moreover have "length (fst (ssl_start s p)) = 100" "length (fst (snd (ssl_start s p))) = 100"
    by (simp_all add: ssl_start_def)
  ultimately show ?thesis
    using assms by (cases "ssl_start s p") (simp add: ssl_inv_def ssl_shape_def)
qed

lemma wp_ssl_run_server:
  assumes law: "lawful os" and mem: "ssl_memory_ok os" and polls: "polls_ok os"
  shows "wp (ssl_run_server n) (\<lambda>_ h. live h = {Fd 0, Fd 1, Fd 2} \<and> disciplined h) stop_ok os []"
  unfolding ssl_run_server_def wp_bindp [of ssl_open_server]
proof (rule wp_ssl_open_server [OF law], goal_cases)
  case (3 i s h)
  show ?case
    unfolding option.case prod.case wp_bindp [of "ssl_server_context a b" for a b]
  proof (rule wp_ssl_server_context [OF law, where L = "{Fd 0, Fd 1, Fd 2}"], goal_cases)
    case (7 ctx h1)
    show ?case
      unfolding option.case wp_bindp [of "sys c" for c] wp_thenp [of "sys c" for c] wp_sys
    proof (intro allI impI, goal_cases)
      case (1 p x)
      have p: "a_ptr p \<noteq> 0" using 1(1) mem by (auto simp: ssl_memory_ok_def answers_def)
      let ?h = "(SslSetFd (a_ptr p) s, x) # (SslNew ctx, p) # h1"
      have l: "live ?h = insert (Ssl (a_ptr p)) (live h1)" "disciplined ?h"
        using p 3 7 by (auto simp: acquires_def releases_def needs_def)
      have start: "ssl_inv i s ctx (ssl_start s (a_ptr p)) ?h"
        by (rule ssl_start_inv [OF p]) (use 3 7 l in auto)
      have "wp (loop n (ssl_round s ctx) (ssl_start s (a_ptr p))) (\<lambda>_ _. False) stop_ok os ?h"
      proof (rule wp_loop [where I = "ssl_inv i s ctx"], goal_cases)
        case (1 st h2)
        show ?case
          by (rule wp_mono [OF wp_ssl_round [OF 1 law mem]]) (use polls in \<open>auto split: iter.splits\<close>)
      next
        case (2 st h2)
        then show ?case by (simp add: ssl_inv_def)
      qed (rule start)
      then show ?case unfolding wp_bindp by (rule wp_mono) auto
    qed
  qed (use 3 in \<open>auto simp: wp_ret\<close>)
qed (simp_all add: wp_ret)

section \<open>Properties\<close>

text \<open>
  C25: The TLS server, in every environment that behaves as documented, has memory for its
  handles and in which \<open>poll\<close> does not fail, uses and frees every descriptor, context and
  handle only while it is live, whatever its clients do and however handshakes fail; a
  message of 1024 bytes is the only way into undefined behaviour; and it returns only if its
  setup failed, with everything given back.
\<close>

theorem ssl_server_ok:
  assumes "lawful os" and "ssl_memory_ok os" and "polls_ok os"
  shows "ok_run (ssl_run_server n os []) \<and> returns_clean (ssl_run_server n os [])"
  by (rule ok_cleanI [OF wp_ssl_run_server [OF assms]])

lemma ssl_memory_ok_sim_os: "ssl_memory_ok (sim_os msgs)"
proof -
  have "next_val h \<noteq> 0" for h
    using next_val_gt [of h] by simp
  then show ?thesis by (simp add: ssl_memory_ok_def sim_os_def)
qed

theorem ssl_server_ok_witness:
  "ok_run (ssl_run_server 4 (sim_os [''hello'', ''quit'']) []) \<and> returns_clean (ssl_run_server 4 (sim_os [''hello'', ''quit'']) [])"
  by (rule ssl_server_ok [OF lawful_sim_os ssl_memory_ok_sim_os]) (simp add: polls_ok_def sim_os_def)

text \<open>
  C26: A round of the TLS server keeps the two arrays, the count and the live resources in
  agreement, and its loop over the entries ends: the entries in use have different open
  descriptors and different live handles, the free ones have none.
\<close>

theorem ssl_round_invariant:
  assumes "ssl_inv info s ctx st h" and "lawful os" and "ssl_memory_ok os"
  shows "wp (ssl_round s ctx st) (\<lambda>r h'. ssl_inv info s ctx (case r of Again st' \<Rightarrow> st' | Leave st' \<Rightarrow> st') h')
    (\<lambda>e h. stop_ok e h \<and> e \<noteq> Unfinished) os h"
  by (rule wp_mono [OF wp_ssl_round [OF assms]]) (auto split: iter.splits)

definition ssl_demo_log :: log where
  "ssl_demo_log = [(SslSetFd 5 3, plain 1), (SslNew 4, (plain 0)\<lparr>a_ptr := 5\<rparr>), (SslCtxNew ''TLS_server_method'', (plain 0)\<lparr>a_ptr := 4\<rparr>),
     (Socket 2 1 6, plain 3), (GetAddrInfo (Some ''localhost'') ''4443'' (tcp_hints 1 6), (plain 0)\<lparr>a_ptr := 9\<rparr>)]"

lemma ssl_demo_inv: "ssl_inv 9 3 4 (ssl_start 3 5) ssl_demo_log"
  by (rule ssl_start_inv) (auto simp: ssl_demo_log_def res_simps)

theorem ssl_round_invariant_witness:
  "wp (ssl_round 3 4 (ssl_start 3 5)) (\<lambda>r h'. ssl_inv 9 3 4 (case r of Again st' \<Rightarrow> st' | Leave st' \<Rightarrow> st') h')
    (\<lambda>e h. stop_ok e h \<and> e \<noteq> Unfinished) (sim_os [''hello'', ''quit'']) ssl_demo_log"
  by (rule ssl_round_invariant [OF ssl_demo_inv lawful_sim_os ssl_memory_ok_sim_os])

lemma disciplined_append: "disciplined (evs @ h) \<Longrightarrow> disciplined h"
  by (induction evs) auto

lemma grows_close_all: "grows (ssl_close_all es)"
  by (induction es rule: ssl_close_all.induct) (auto simp: whenp_def intro!: grows_intros)

lemma close_all_returns: "\<exists>h'. ssl_close_all es os h = (Done (), h')"
  by (induction es arbitrary: h rule: ssl_close_all.induct)
    (auto simp: prog_defs Let_def)

text \<open>
  C27: After a failed \<open>poll\<close> the TLS server's clean-up closes the listening socket twice: once
  by name, and once more as the descriptor of entry 0, which by then may belong to somebody
  else.
\<close>

theorem ssl_double_close:
  assumes "ssl_inv info s ctx st h" and "0 < s"
  shows "\<exists>h'. ssl_cleanup info s ctx st os h = (Done (), h') \<and> \<not> disciplined h'"
proof -
  obtain fds arr n where st: "st = (fds, arr, n)" by (cases st)
  have n: "0 < n" "length fds = 100" "length arr = 100" using assms(1) by (auto simp: ssl_inv_def ssl_shape_def st)
  then obtain p ps q qs where l: "fds = p # ps" "arr = q # qs" by (cases fds; cases arr) auto
  from ssl_entry(7) [OF assms(1) [unfolded st] n(1)] have p: "p_fd p = s" by (simp add: l)
  let ?cs = "thenp (whenp (q \<noteq> 0) (thenp (sys (SslShutdown q)) (thenp (sys (SslFree q)) (ret ()))))
     (ssl_close_all (zip (map p_fd ps) qs))"
  obtain h1 where h1: "ssl_cleanup info s ctx st os h = ?cs os h1" "\<not> disciplined h1"
  proof
    let ?c = "\<lambda>c h. (c, os h c) # h"
    show "ssl_cleanup info s ctx st os h =
        ?cs os (?c (Close s) (?c (SslCtxFree ctx) (?c (Close s) (?c (FreeAddrInfo info) h))))"
      using assms(2) by (simp add: ssl_cleanup_def st l p prog_defs Let_def)
    show "\<not> disciplined (?c (Close s) (?c (SslCtxFree ctx) (?c (Close s) (?c (FreeAddrInfo info) h))))"
      using assms(2) by (simp add: res_simps)
  qed
  have "grows ?cs" by (auto simp: whenp_def intro!: grows_intros grows_close_all)
  then obtain evs where "snd (?cs os h1) = evs @ h1" by (auto simp: grows_def)
  moreover have "\<exists>h'. ?cs os h1 = (Done (), h')"
    using close_all_returns by (auto simp: prog_defs Let_def)
  ultimately show ?thesis
    using h1 disciplined_append by (metis snd_conv)
qed

theorem ssl_double_close_witness:
  "\<exists>h'. ssl_cleanup 9 3 4 (ssl_start 3 5) (sim_os []) ssl_demo_log = (Done (), h') \<and> \<not> disciplined h'"
  by (rule ssl_double_close [OF ssl_demo_inv]) simp

end
