(* ===== verification/Tut_Main.thy ===== *)
theory Tut_Main
  imports Select_Server Datagram Nonblock Ssl_Server
begin

text \<open>
  The \<open>main\<close> functions of the programs that are a server and a client in one: files 08 to 13
  of \<open>00_tutorials\<close> and \<open>ssl_client_server.c\<close>. The first argument after the program's name
  says which of the two runs; anything else prints the usage.
\<close>

definition print_usage :: "bytes \<Rightarrow> unit prog" where
  "print_usage program_name = put_err (fmt [''Usage: '', program_name, '' <client|server>'', [LF]])"

text \<open>The arguments are strings, so \<open>strcmp\<close> compares them as such. A process that is started
  with no arguments at all has no \<open>argv[0]\<close>.\<close>

definition tut_main :: "unit prog \<Rightarrow> unit prog \<Rightarrow> bytes list \<Rightarrow> int prog" where
  "tut_main server client argv =
     (let usage = bindp (getp Null_Deref (case argv of [] \<Rightarrow> None | p # _ \<Rightarrow> Some p))
        (\<lambda>program_name. thenp (print_usage program_name) (ret (- 1)))
      in if length argv \<noteq> 2 then usage
         else if argv ! 1 = ''server'' then thenp server (ret 0)
         else if argv ! 1 = ''client'' then thenp client (ret 0)
         else usage)"






definition poll_main :: "nat \<Rightarrow> bytes list \<Rightarrow> int prog" where
  "poll_main n = tut_main (poll_run_server n) (poll_run_client n)"


section \<open>Properties\<close>

lemma tut_main_cases:
  assumes "argv \<noteq> []"
  shows "tut_main server client argv =
    (if argv = [hd argv, ''server''] then thenp server (ret 0)
     else if argv = [hd argv, ''client''] then thenp client (ret 0)
     else thenp (print_usage (hd argv)) (ret (- 1)))"
proof -
  consider p where "argv = [p]" | p q where "argv = [p, q]" | p q r rs where "argv = p # q # r # rs"
    using assms by (metis list.exhaust)
  then show ?thesis by cases (auto simp: tut_main_def getp_def)
qed

text \<open>
  What the arguments select. With the program's name and \<open>server\<close> or \<open>client\<close>, \<open>main\<close>
  runs exactly that function and returns 0 if it returns; with any other arguments it prints
  one line to the standard error, makes no other call, and returns -1.
\<close>

theorem main_dispatch:
  assumes "argv \<noteq> []"
  shows "poll_main n argv os [] =
    (if argv = [hd argv, ''server'']
     then (case poll_run_server n os [] of (Done _, h) \<Rightarrow> (Done 0, h) | (Stop s, h) \<Rightarrow> (Stop s, h))
     else if argv = [hd argv, ''client'']
     then (case command_run_client n os [] of (Done _, h) \<Rightarrow> (Done 0, h) | (Stop s, h) \<Rightarrow> (Stop s, h))
     else (Done (- 1), [(Err (''Usage: '' @ hd argv @ '' <client|server>'' @ [LF]),
             os [] (Err (''Usage: '' @ hd argv @ '' <client|server>'' @ [LF])))]))"
  unfolding poll_main_def tut_main_cases [OF assms]
  by (simp add: thenp_def bindp_def ret_def sys_def print_usage_def put_err_def fmt_def Let_def poll_run_client_def
      split: prod.split outcome.split)

theorem main_dispatch_witness:
  "poll_main 2 [''prog'', ''-h''] (sim_os []) [] =
    (Done (- 1), [(Err (''Usage: prog <client|server>'' @ [LF]), plain 0)])"
  using main_dispatch [of "[''prog'', ''-h'']" 2 "sim_os []"] by (simp add: sim_os_def)





end
