(* ===== verification/Broadcast.thy ===== *)
theory Broadcast
  imports Tut_Clients
begin

text \<open>
  The broadcasting chat of \<open>00_tutorials/14_broadcasting.c\<close>: one thread announces the user's
  nickname every second in a datagram of 1024 bytes, another prints what it hears, and the
  main thread waits for the user to leave. A thread is a program of its own; the threads
  share nothing but the process.

  A receiver prints its buffer as a string without terminating it. The theorems say that
  what the program's own sender sends never runs past the buffer, and that a nickname of
  1014 bytes or more does, in the sender.
\<close>

section \<open>Definitions\<close>

abbreviation (input) BROADCAST_PORT :: "16 word" where "BROADCAST_PORT \<equiv> 5555"

record broadcast_t =
  bc_fd :: int
  bc_addr :: sockaddr
  bc_len :: int

text \<open>A zeroed \<open>struct broadcast_t\<close>\<close>

definition no_broadcast :: broadcast_t where
  "no_broadcast = \<lparr>bc_fd = 0, bc_addr = zero_sockaddr, bc_len = 0\<rparr>"

definition broadcast_addr :: "bytes \<Rightarrow> sockaddr" where
  "broadcast_addr ip = \<lparr>sa_family = AF_INET, sin_port = htons BROADCAST_PORT, sin_addr = ip\<rparr>"

definition setup_broadcast_receiver :: "broadcast_t \<Rightarrow> (int \<times> broadcast_t) prog" where
  "setup_broadcast_receiver info = bindp (sys (Socket AF_INET SOCK_DGRAM 0)) (\<lambda>s.
     let info1 = info\<lparr>bc_fd := a_ret s\<rparr>
     in if a_ret s < 0 then thenp (report_error ''socket() failed for receiver'') (ret (- 1, info1))
     else bindp (sys (SetSockOpt (a_ret s) SOL_SOCKET SO_REUSEADDR)) (\<lambda>rc.
     if a_ret rc \<noteq> 0 then thenp (report_error ''setsockopt(SO_REUSEADDR) failed'') (ret (- 1, info1))
     else let info2 = info1\<lparr>bc_addr := broadcast_addr ''0.0.0.0'', bc_len := 16\<rparr>
     in bindp (sys (Bind (bc_fd info2) (bc_addr info2) (bc_len info2))) (\<lambda>rc.
     if a_ret rc < 0 then thenp (report_error ''bind() failed for receiver'') (ret (- 1, info2))
     else ret (0, info2))))"

definition setup_broadcast_sender :: "broadcast_t \<Rightarrow> (int \<times> broadcast_t) prog" where
  "setup_broadcast_sender info = bindp (sys (Socket AF_INET SOCK_DGRAM 0)) (\<lambda>s.
     let info1 = info\<lparr>bc_fd := a_ret s\<rparr>
     in if a_ret s < 0 then thenp (report_error ''socket() failed for sender'') (ret (- 1, info1))
     else bindp (sys (SetSockOpt (a_ret s) SOL_SOCKET SO_BROADCAST)) (\<lambda>rc.
     if a_ret rc \<noteq> 0 then thenp (report_error ''setsockopt(SO_BROADCAST) failed'') (ret (- 1, info1))
     else ret (0, info1\<lparr>bc_addr := broadcast_addr ''255.255.255.255'', bc_len := 16\<rparr>)))"

text \<open>\<open>recvfrom\<close> stores the sender's address in the structure.\<close>

definition heard_from :: "answer \<Rightarrow> broadcast_t \<Rightarrow> broadcast_t" where
  "heard_from a info = (if a_ret a < 0 then info else info\<lparr>bc_addr := a_peer a\<rparr>)"

definition receiver_round :: "broadcast_t \<Rightarrow> (broadcast_t, unit) iter prog" where
  "receiver_round info = bindp (sys (RecvFrom (bc_fd info) (int MESSAGE_SIZE) 0)) (\<lambda>a.
     if a_ret a \<le> 0
     then thenp (report_error ''Broadcast receiver recvfrom() failed'') (ret (Again (heard_from a info)))
     else bindp (c_string (received a)) (\<lambda>text.
       thenp (put_out (fmt [''Received broadcast message: '', text, [LF]])) (ret (Again (heard_from a info)))))"

text \<open>\<open>calloc\<close> is an allocation; its result is not checked.\<close>

definition broadcast_receiver_thread_func :: "nat \<Rightarrow> unit prog" where
  "broadcast_receiver_thread_func n = bindp (sys (Malloc 24)) (\<lambda>p.
     thenp (guardp Null_Deref (a_ptr p \<noteq> 0))
     (bindp (setup_broadcast_receiver no_broadcast) (\<lambda>(rc, info).
      if rc \<noteq> 0 then report_error ''setup_broadcast_receiver() failed''
      else thenp (put_out (fmt [''Start to listen broadcast messages'', [LF]]))
        (bindp (loop n receiver_round info) (\<lambda>_.
         thenp (sys (Close (bc_fd info))) (thenp (sys (Free (a_ptr p))) (ret ())))))))"

definition sender_round :: "bytes \<Rightarrow> broadcast_t \<Rightarrow> unit \<Rightarrow> (unit, unit) iter prog" where
  "sender_round nick_name info u =
     bindp (sprintf_to (zeros MESSAGE_SIZE) (nick_name @ '' is active'')) (\<lambda>broadcast_message.
     bindp (sys (SendTo (bc_fd info) broadcast_message 0 (bc_addr info) (bc_len info))) (\<lambda>sent_bytes.
     thenp (whenp (a_ret sent_bytes \<le> 0) (report_error ''Send broadcast message failed''))
     (thenp (sys (SleepCall 1)) (ret (Again ())))))"

definition broadcast_sender_thread_func :: "nat \<Rightarrow> bytes \<Rightarrow> unit prog" where
  "broadcast_sender_thread_func n nick_name = bindp (sys (Malloc 24)) (\<lambda>p.
     thenp (guardp Null_Deref (a_ptr p \<noteq> 0))
     (bindp (setup_broadcast_sender no_broadcast) (\<lambda>(rc, info).
      if rc \<noteq> 0 then report_error ''setup_broadcast_sender() failed''
      else bindp (loop n (sender_round nick_name info) ()) (\<lambda>_.
         thenp (sys (Close (bc_fd info))) (thenp (sys (Free (a_ptr p))) (ret ()))))))"

definition broadcast_input :: "unit \<Rightarrow> (unit, unit) iter prog" where
  "broadcast_input u = thenp (put_out ''User input: '')
     (bindp read_line (\<lambda>line.
      bindp (chop_line [CR, LF] line) (\<lambda>buffer.
      bindp (c_streq buffer ''exit'') (\<lambda>ex.
      bindp (if ex then ret True else c_streq buffer ''quit'') (\<lambda>bye.
      ret (if bye then Leave () else Again ()))))))"

text \<open>\<open>main\<close>; the argument of the sender thread is the address of \<open>argv[1]\<close>, given as 1.\<close>

definition broadcast_main :: "nat \<Rightarrow> bytes list \<Rightarrow> int prog" where
  "broadcast_main n argv =
     (if length argv \<noteq> 2
      then bindp (getp Null_Deref (case argv of [] \<Rightarrow> None | p # _ \<Rightarrow> Some p)) (\<lambda>program_name.
        thenp (put_err (fmt [''Usage: '', program_name, '' <your_nickname>'', [LF]])) (ret (- 1)))
      else thenp (sys (PthreadCreate ''broadcast_receiver_thread_func'' 0)) (thenp (sys PthreadDetach)
        (thenp (sys (PthreadCreate ''broadcast_sender_thread_func'' 1)) (thenp (sys PthreadDetach)
        (bindp (loop n broadcast_input ()) (\<lambda>_. ret 0))))))"

section \<open>The threads\<close>

lemma wp_setup:
  assumes law: "lawful os" and d: "disciplined h"
    and post: "\<And>rc i h'. disciplined h' \<Longrightarrow> live h \<subseteq> live h' \<Longrightarrow> rc = 0 \<longrightarrow> 0 \<le> bc_fd i \<and> Fd (bc_fd i) \<in> live h' \<Longrightarrow> Q (rc, i) h'"
  shows "wp (setup_broadcast_receiver info) Q E os h" and "wp (setup_broadcast_sender info) Q E os h"
  using d by (auto simp: setup_broadcast_receiver_def setup_broadcast_sender_def wp_simps res_simps Let_def intro!: post)

lemma wp_receiver_round:
  assumes law: "lawful os" and s: "0 \<le> bc_fd i" "Fd (bc_fd i) \<in> live h" and d: "disciplined h"
    and post: "\<And>i' h'. live h' = live h \<Longrightarrow> disciplined h' \<Longrightarrow> bc_fd i' = bc_fd i \<Longrightarrow> Q (Again i') h'"
    and over: "\<And>e h'. overrun e h' \<Longrightarrow> disciplined h' \<Longrightarrow> E e h'"
  shows "wp (receiver_round i) Q E os h"
  unfolding receiver_round_def of_nat_numeral
  by (rule wp_shown [OF law _ d])
    (use s in \<open>auto simp: reads_full_def needs_def wp_thenp wp_ret heard_from_def intro!: wp_print post over overrunI\<close>)

lemma wp_receiver_thread:
  assumes law: "lawful os" and mem: "memory_ok os"
  shows "wp (broadcast_receiver_thread_func n) (\<lambda>_. disciplined) stop_ok os []"
proof -
  have main: "wp (if rc \<noteq> 0 then report_error m
      else thenp (put_out t) (bindp (loop n receiver_round i) (\<lambda>_. tail))) (\<lambda>_. disciplined) stop_ok os h"
    if h: "disciplined h" "rc = 0 \<longrightarrow> 0 \<le> bc_fd i \<and> Fd (bc_fd i) \<in> live h" for rc i m t h tail
  proof (cases "rc = 0")
    case False
    with h show ?thesis by (auto intro!: wp_print)
  next
    case True
    have "wp (loop n receiver_round i) (\<lambda>_ h'. wp tail (\<lambda>_. disciplined) stop_ok os h') stop_ok os h1"
      if "live h1 = live h" "disciplined h1" for h1
    proof (rule wp_loop [where I = "\<lambda>i' h'. bc_fd i' = bc_fd i \<and> live h' = live h \<and> disciplined h'"], goal_cases)
      case (1 i' h')
      then show ?case
        using True h by (intro wp_receiver_round [OF law]) (auto simp: stop_ok_def overrun_def)
    qed (use that in auto)
    with True h show ?thesis by (auto simp: wp_thenp wp_bindp intro!: wp_print)
  qed
  have ptr: "a_ptr p \<noteq> 0" if "answers os h (Malloc 24) p" for p h
    using mem that by (auto simp: memory_ok_def answers_def)
  show ?thesis
    unfolding broadcast_receiver_thread_func_def wp_bindp [of "sys c" for c] wp_sys wp_thenp wp_guardp
      wp_bindp [of "setup_broadcast_receiver i" for i]
    by (auto dest: ptr intro!: wp_setup(1) [OF law] main [simplified wp_thenp wp_bindp] simp: res_simps wp_bindp wp_thenp)
qed

text \<open>What the sender sends: the text and zeros, 1024 bytes.\<close>

definition announcement :: "bytes \<Rightarrow> bytes" where
  "announcement nick_name = (nick_name @ '' is active'') @ replicate (1014 - length nick_name) NUL"

lemma announcement_facts:
  assumes "length nick_name < 1014"
  shows "sprintf_to (zeros 1024) (nick_name @ '' is active'') = ret (announcement nick_name)"
    and "length (announcement nick_name) = 1024"
    and "terminated (announcement nick_name)"
    and "NUL \<notin> set nick_name \<Longrightarrow> cstr (announcement nick_name) = nick_name @ '' is active''"
proof -
  have n: "1014 - length nick_name = Suc (1013 - length nick_name)" using assms by simp
  have "overlay (zeros 1024) 0 ((nick_name @ '' is active'') @ [NUL]) = announcement nick_name"
    using assms unfolding announcement_def zeros_def n by (subst overlay_replicate) simp_all
  then show "sprintf_to (zeros 1024) (nick_name @ '' is active'') = ret (announcement nick_name)"
    using assms by (simp add: sprintf_to_def)
  show "length (announcement nick_name) = 1024" using assms by (simp add: announcement_def)
  show "terminated (announcement nick_name)" unfolding announcement_def n by simp
  show "cstr (announcement nick_name) = nick_name @ '' is active''" if "NUL \<notin> set nick_name"
    using that cstr_stored [of "nick_name @ '' is active''" "replicate (1013 - length nick_name) NUL"]
    unfolding announcement_def n by simp
qed

lemma wp_sender_round:
  assumes "0 \<le> bc_fd i" "Fd (bc_fd i) \<in> live h" and "disciplined h" and n: "length nick_name < 1014"
  shows "wp (sender_round nick_name i u) (\<lambda>r h'. r = Again () \<and> live h' = live h \<and> disciplined h') clean_stop os h"
  using assms(1-3) by (auto simp: sender_round_def announcement_facts [OF n] wp_simps res_simps)

lemma wp_sender_thread:
  assumes law: "lawful os" and mem: "memory_ok os" and n: "length nick_name < 1014"
  shows "wp (broadcast_sender_thread_func k nick_name) (\<lambda>_. disciplined) clean_stop os []"
proof -
  have main: "wp (if rc \<noteq> 0 then report_error m
      else bindp (loop k (sender_round nick_name i) ()) (\<lambda>_ :: unit. thenp (sys (Close (bc_fd i))) tail))
      (\<lambda>_. disciplined) clean_stop os h"
    if h: "disciplined h" "rc = 0 \<longrightarrow> 0 \<le> bc_fd i \<and> Fd (bc_fd i) \<in> live h" for rc i m h tail
  proof (cases "rc = 0")
    case False
    with h show ?thesis by (auto intro!: wp_print)
  next
    case True
    have "wp (loop k (sender_round nick_name i) ()) (\<lambda>_ _. False) clean_stop os h"
    proof (rule wp_loop [where I = "\<lambda>_ h'. live h' = live h \<and> disciplined h'"], goal_cases)
      case (1 u h')
      show ?case
        by (rule wp_mono [OF wp_sender_round]) (use 1 True h n in auto)
    qed (use h in auto)
    with True show ?thesis by (auto simp: wp_bindp elim!: wp_mono)
  qed
  have ptr: "a_ptr p \<noteq> 0" if "answers os h (Malloc 24) p" for p h
    using mem that by (auto simp: memory_ok_def answers_def)
  show ?thesis
    unfolding broadcast_sender_thread_func_def wp_bindp [of "sys c" for c] wp_sys wp_thenp wp_guardp
      wp_bindp [of "setup_broadcast_sender i" for i]
    by (auto dest: ptr intro!: wp_setup(2) [OF law] main [simplified wp_thenp wp_bindp] simp: res_simps wp_bindp wp_thenp)
qed

section \<open>Properties\<close>

text \<open>
  The threads, in every environment that behaves as documented and has memory, never use
  or close a descriptor that is not open and never free memory twice. With a nickname of
  fewer than 1014 bytes the sender has no undefined behaviour at all; the receiver's only
  one is a message of 1024 bytes.
\<close>

theorem broadcast_threads_ok:
  assumes "lawful os" and "memory_ok os" and "length nick_name < 1014"
  shows "ok_run (broadcast_receiver_thread_func n os []) \<and> safe_run (broadcast_sender_thread_func k nick_name os [])"
  using assms by (simp add: ok_runI safe_runI wp_receiver_thread wp_sender_thread)

theorem broadcast_threads_ok_witness:
  "ok_run (broadcast_receiver_thread_func 3 (sim_os [''ann is active'']) []) \<and>
    safe_run (broadcast_sender_thread_func 4 ''ann'' (sim_os [''ann is active'']) [])"
  by (rule broadcast_threads_ok [OF lawful_sim_os memory_ok_sim_os]) simp

text \<open>Every datagram of the sender is its announcement.\<close>

lemma sender_sends:
  assumes n: "length nick_name < 1014"
  shows "traced os (\<lambda>_ c. case c of SendTo _ m _ _ _ \<Rightarrow> m = announcement nick_name | _ \<Rightarrow> True)
    (broadcast_sender_thread_func k nick_name)"
  unfolding broadcast_sender_thread_func_def setup_broadcast_sender_def sender_round_def of_nat_numeral
    announcement_facts [OF n] bindp_ret report_error_def put_err_def
  by (intro traced_intros) auto

text \<open>
  C24: What one user's sender broadcasts, another user's receiver shows: every datagram of the
  sender is 1024 bytes long, and a receiver that gets it whole prints the nickname and goes
  on, without running past its buffer, although it does not terminate it.
\<close>

theorem broadcast_roundtrip:
  assumes "length nick_name < 1014" and "NUL \<notin> set nick_name"
    and "(SendTo f message fl to len, e) \<in> set (snd (broadcast_sender_thread_func k nick_name os' []))"
    and "a_ret (os h (RecvFrom (bc_fd info) 1024 0)) = int (length message)"
    and "a_buf (os h (RecvFrom (bc_fd info) 1024 0)) = message"
  shows "wp (receiver_round info) (\<lambda>r h'. (\<exists>info'. r = Again info') \<and>
      fst (hd h') = Out (''Received broadcast message: '' @ nick_name @ '' is active'' @ [LF])) (\<lambda>_ _. False) os h"
proof -
  have m: "message = announcement nick_name"
    using trace_ok_member [OF traced_run [OF sender_sends [OF assms(1)]] assms(3)] by simp
  note f = announcement_facts [OF assms(1)]
  have "overlay (zeros 1024) 0 message = message" using f(2) m by (simp add: overlay_def)
  with assms(4,5) f m show ?thesis
    by (auto simp: receiver_round_def wp_simps answers_def received_def fmt_def assms(2))
qed

theorem broadcast_roundtrip_witness:
  "wp (receiver_round \<lparr>bc_fd = 3, bc_addr = zero_sockaddr, bc_len = 16\<rparr>) (\<lambda>r h'. (\<exists>info'. r = Again info') \<and>
      fst (hd h') = Out (''Received broadcast message: ann is active'' @ [LF])) (\<lambda>_ _. False)
    (sim_os [announcement ''ann'']) []"
proof -
  have a: "length (announcement ''ann'') = 1024" by (simp add: announcement_def)
  have "(SendTo 3 (announcement ''ann'') 0 (broadcast_addr ''255.255.255.255'') 16, plain 1024)
      \<in> set (snd (broadcast_sender_thread_func 1 ''ann'' (\<lambda>h c. if c = Malloc 24 then (plain 0)\<lparr>a_ptr := 7\<rparr>
          else case c of Socket _ _ _ \<Rightarrow> plain 3 | SendTo _ _ _ _ _ \<Rightarrow> plain 1024 | _ \<Rightarrow> plain 0) []))"
    by (simp add: broadcast_sender_thread_func_def setup_broadcast_sender_def sender_round_def announcement_facts(1) [of "''ann''", simplified]
        prog_defs no_broadcast_def Let_def)
  from broadcast_roundtrip [OF _ _ this, of "sim_os [announcement ''ann'']" "[]" "\<lparr>bc_fd = 3, bc_addr = zero_sockaddr, bc_len = 16\<rparr>"]
  show ?thesis by (simp add: sim_os_def sim_read_def a)
qed

text \<open>
  A nickname of 1014 bytes or more, taken from the command line, makes the sender write
  past its message buffer as soon as its socket is set up.
\<close>

theorem nickname_overflow:
  assumes "1014 \<le> length nick_name" and "memory_ok os"
    and "\<And>h. 0 \<le> a_ret (os h (Socket 2 2 0))" and "\<And>h f. a_ret (os h (SetSockOpt f 1 6)) = 0"
  shows "fst (broadcast_sender_thread_func (Suc k) nick_name os []) = Stop (Fault Out_Of_Bounds)"
  using assms(1,2,4) assms(3) [folded not_less] by (simp add: broadcast_sender_thread_func_def setup_broadcast_sender_def sender_round_def
      sprintf_to_def memory_ok_def prog_defs Let_def)

theorem nickname_overflow_witness:
  "fst (broadcast_sender_thread_func (Suc 4) (replicate 1014 CHR ''x'') (sim_os []) []) = Stop (Fault Out_Of_Bounds)"
proof -
  have "0 \<le> next_val h" for h using next_val_gt [of h] by linarith
  then show ?thesis by (intro nickname_overflow memory_ok_sim_os) (simp_all add: sim_os_def)
qed

end
