(* ===== verification/Http_Io.thy ===== *)
theory Http_Io
  imports Time_Service
begin

text \<open>
  Sending and receiving a whole message, as the HTTP programs do it
  (\<open>00_tutorials/06_receive_http_response.c\<close>, \<open>07_http_redirection.c\<close> and
  \<open>01_networking_libraries/openssl/src/https_client.c\<close>): a request goes out in as many pieces
  as \<open>send\<close> makes of it, a response comes in piece by piece until the end of the stream or
  until the buffer is full.

  The specification speaks about the bytes a history has received (\<open>got\<close>) and sent (\<open>put\<close>):
  the buffer holds exactly the former, and the latter are a prefix of the request, all of it
  when the loop says so. Both loops end: the one because a full buffer reads nothing more,
  the other because every round sends something.
\<close>

section \<open>What a history has received and sent\<close>

fun got :: "log \<Rightarrow> bytes" where
  "got [] = []"
| "got ((c, a) # h) = got h @ (case c of
      Recv _ _ _ \<Rightarrow> if 0 < a_ret a then a_buf a else []
    | SslRead _ _ \<Rightarrow> if 0 < a_ret a then a_buf a else []
    | _ \<Rightarrow> [])"

fun put :: "log \<Rightarrow> bytes" where
  "put [] = []"
| "put ((c, a) # h) = put h @ (case c of
      Send _ b _ \<Rightarrow> take (nat (a_ret a)) b
    | SslWrite _ b \<Rightarrow> take (nat (a_ret a)) b
    | _ \<Rightarrow> [])"

text \<open>The sockets a history has opened.\<close>

fun sockets :: "log \<Rightarrow> nat" where
  "sockets [] = 0"
| "sockets ((c, a) # h) = sockets h + (case c of Socket _ _ _ \<Rightarrow> if 0 \<le> a_ret a then 1 else 0 | _ \<Rightarrow> 0)"

section \<open>Receiving\<close>

text \<open>The two calls a response is read with: the next piece goes to the rest of the buffer.\<close>

datatype source = From_Socket int | From_Ssl int

definition read_call :: "source \<Rightarrow> int \<Rightarrow> call" where
  "read_call s n = (case s of From_Socket f \<Rightarrow> Recv f n 0 | From_Ssl p \<Rightarrow> SslRead p n)"

definition source_res :: "source \<Rightarrow> res" where
  "source_res s = (case s of From_Socket f \<Rightarrow> Fd f | From_Ssl p \<Rightarrow> Ssl p)"

definition read_piece :: "source \<Rightarrow> (int \<Rightarrow> unit prog) \<Rightarrow> nat \<Rightarrow> bytes \<times> nat \<Rightarrow> (bytes \<times> nat, bytes \<times> nat) iter prog" where
  "read_piece s note limit st = (case st of (buf, filled) \<Rightarrow>
     bindp (sys (read_call s (int limit - int filled))) (\<lambda>a.
     if a_ret a \<le> 0 then ret (Leave (buf, filled))
     else thenp (note (a_ret a)) (ret (Again (overlay buf filled (a_buf a), filled + nat (a_ret a))))))"

text \<open>Every piece but the last has a byte, so that \<open>limit + 1\<close> rounds are enough.\<close>

definition read_all :: "source \<Rightarrow> (int \<Rightarrow> unit prog) \<Rightarrow> nat \<Rightarrow> bytes \<Rightarrow> (bytes \<times> nat) prog" where
  "read_all s note limit buf = loop (limit + 2) (read_piece s note limit) (buf, 0)"

lemma read_call_law:
  assumes "lawful os" and "answers os h (read_call s n) a" and "0 \<le> n"
  shows "a_ret a \<le> n \<and> (0 \<le> a_ret a \<longrightarrow> length (a_buf a) = nat (a_ret a)) \<and>
    acquires (read_call s n) a = {} \<and> releases (read_call s n) a = {}"
  using lawfulD [OF assms(1,2)] assms(3)
  by (cases s) (auto simp: read_call_def answer_ok_def sane_read_def sane_count_def acquires_def releases_def)

lemma overlay_append:
  "length w + length x \<le> length buf \<Longrightarrow> overlay (overlay buf 0 w) (length w) x = overlay buf 0 (w @ x)"
  by (simp add: overlay_def add.commute)

text \<open>A note that only prints.\<close>

definition quiet_note :: "(int \<Rightarrow> unit prog) \<Rightarrow> os \<Rightarrow> bool" where
  "quiet_note note os \<longleftrightarrow> (\<forall>n h Q E. disciplined h \<longrightarrow>
     (\<forall>h'. live h' = live h \<and> disciplined h' \<and> got h' = got h \<and> put h' = put h \<and> sockets h' = sockets h \<longrightarrow> Q () h') \<longrightarrow> wp (note n) Q E os h)"

lemma quiet_noteD:
  "quiet_note note os \<Longrightarrow> disciplined h \<Longrightarrow>
   (\<And>h'. live h' = live h \<Longrightarrow> disciplined h' \<Longrightarrow> got h' = got h \<Longrightarrow> put h' = put h \<Longrightarrow> sockets h' = sockets h \<Longrightarrow> Q () h') \<Longrightarrow> wp (note n) Q E os h"
  by (auto simp: quiet_note_def)

lemma quiet_note_print [simp]: "quiet_note (\<lambda>n. put_out (t n)) os" "quiet_note (\<lambda>n. ret ()) os"
  by (auto simp: quiet_note_def wp_simps res_simps)

lemma wp_read_all:
  assumes law: "lawful os" and s: "source_res s \<in> live h" and d: "disciplined h"
    and pos: "case s of From_Socket f \<Rightarrow> 0 \<le> f | _ \<Rightarrow> True"
    and nt: "quiet_note note os" and limit: "limit \<le> length buf"
    and post: "\<And>w h'. length w \<le> limit \<Longrightarrow> live h' = live h \<Longrightarrow> disciplined h' \<Longrightarrow> got h' = got h @ w \<Longrightarrow> put h' = put h \<Longrightarrow> sockets h' = sockets h \<Longrightarrow>
      Q (overlay buf 0 w, length w) h'"
  shows "wp (read_all s note limit buf) Q E os h"
  unfolding read_all_def
proof (rule wp_loop_total [where I = "\<lambda>st h'. \<exists>w. st = (overlay buf 0 w, length w) \<and> length w \<le> limit \<and>
      live h' = live h \<and> disciplined h' \<and> got h' = got h @ w \<and> put h' = put h \<and> sockets h' = sockets h" and mu = "\<lambda>st. Suc limit - snd st"], goal_cases)
  case (1 st h1)
  then obtain w where st: "st = (overlay buf 0 w, length w)" and w: "length w \<le> limit"
    and h1: "live h1 = live h" "disciplined h1" "got h1 = got h @ w" "put h1 = put h" "sockets h1 = sockets h" by blast
  let ?c = "read_call s (int limit - int (length w))"
  show ?case
    unfolding st read_piece_def prod.case wp_bindp [of "sys c" for c] wp_sys
  proof (intro allI impI, goal_cases)
    case (1 a)
    have n: "0 \<le> int limit - int (length w)" using w by simp
    note law' = read_call_law [OF law 1 n]
    have need: "needs ?c \<subseteq> live h1"
      using s h1(1) pos by (cases s) (auto simp: read_call_def source_res_def needs_def)
    have log: "live ((?c, a) # h1) = live h" "disciplined ((?c, a) # h1)" "put ((?c, a) # h1) = put h" "sockets ((?c, a) # h1) = sockets h"
      using law' need h1 by (auto simp: read_call_def split: source.split)
    show ?case
    proof (cases "a_ret a \<le> 0")
      case True
      then have "got ((?c, a) # h1) = got h @ w"
        using h1(3) by (cases s) (simp_all add: read_call_def)
      with True w log show ?thesis by (auto simp: wp_ret intro!: post)
    next
      case False
      then have len: "length (a_buf a) = nat (a_ret a)" "length (w @ a_buf a) \<le> limit" using law' by auto
      have g: "got ((?c, a) # h1) = got h @ w @ a_buf a"
        using False h1(3) by (cases s) (simp_all add: read_call_def)
      have o: "overlay (overlay buf 0 w) (length w) (a_buf a) = overlay buf 0 (w @ a_buf a)"
        using len limit by (intro overlay_append) simp
      have "wp (thenp (note (a_ret a)) (ret (Again (overlay (overlay buf 0 w) (length w) (a_buf a), length w + nat (a_ret a)))))
          (\<lambda>r h'. case r of Again s' \<Rightarrow> (\<exists>w. s' = (overlay buf 0 w, length w) \<and> length w \<le> limit \<and>
              live h' = live h \<and> disciplined h' \<and> got h' = got h @ w \<and> put h' = put h \<and> sockets h' = sockets h) \<and> Suc limit - snd s' < Suc limit - length w
            | Leave b \<Rightarrow> Q b h') E os ((?c, a) # h1)"
        unfolding wp_thenp wp_ret iter.case o
        by (rule quiet_noteD [OF nt log(2)]) (use len g log False in \<open>auto intro!: exI [of _ "w @ a_buf a"]\<close>)
      then show ?thesis unfolding snd_conv using False by (simp only: if_False)
    qed
  qed
next
  case 2
  show ?case by (rule exI [of _ "[]"]) (simp add: overlay_def d)
qed simp

section \<open>Sending\<close>

text \<open>The rest of the request goes out again until everything is sent. A round that sends
  nothing ends the loop.\<close>

definition send_rest :: "int \<Rightarrow> (int \<Rightarrow> unit prog) \<Rightarrow> bytes \<Rightarrow> nat \<Rightarrow> (nat, nat) iter prog" where
  "send_rest f note req sent =
     (if sent < length req
      then bindp (sys (Send f (drop sent req) 0)) (\<lambda>a.
        if a_ret a \<le> 0 then ret (Leave sent)
        else thenp (note (a_ret a)) (ret (Again (sent + nat (a_ret a)))))
      else ret (Leave sent))"

definition send_all :: "int \<Rightarrow> (int \<Rightarrow> unit prog) \<Rightarrow> bytes \<Rightarrow> nat prog" where
  "send_all f note req = loop (length req + 1) (send_rest f note req) 0"

lemma wp_send_all:
  assumes law: "lawful os" and s: "0 \<le> f" "Fd f \<in> live h" and d: "disciplined h" and nt: "quiet_note note os"
    and post: "\<And>n h'. n \<le> length req \<Longrightarrow> live h' = live h \<Longrightarrow> disciplined h' \<Longrightarrow> put h' = put h @ take n req \<Longrightarrow>
      got h' = got h \<Longrightarrow> sockets h' = sockets h \<Longrightarrow> Q n h'"
  shows "wp (send_all f note req) Q E os h"
  unfolding send_all_def
proof (rule wp_loop_total [where I = "\<lambda>n h'. n \<le> length req \<and> live h' = live h \<and> disciplined h' \<and>
      put h' = put h @ take n req \<and> got h' = got h \<and> sockets h' = sockets h" and mu = "\<lambda>n. length req - n"], goal_cases)
  case (1 n h1)
  show ?case
  proof (cases "n < length req")
    case False
    with 1 show ?thesis by (simp add: send_rest_def wp_ret post)
  next
    case True
    let ?c = "Send f (drop n req) 0"
    have "wp (if a_ret a \<le> 0 then ret (Leave n) else thenp (note (a_ret a)) (ret (Again (n + nat (a_ret a)))))
        (\<lambda>r h'. case r of Again s' \<Rightarrow> (s' \<le> length req \<and> live h' = live h \<and> disciplined h' \<and>
            put h' = put h @ take s' req \<and> got h' = got h \<and> sockets h' = sockets h) \<and> length req - s' < length req - n
          | Leave b \<Rightarrow> Q b h') E os ((?c, a) # h1)" if a: "answers os h1 ?c a" for a
    proof -
      have log: "live ((?c, a) # h1) = live h" "disciplined ((?c, a) # h1)" "got ((?c, a) # h1) = got h" "sockets ((?c, a) # h1) = sockets h"
        using 1 s by (auto simp: res_simps)
      have le: "a_ret a \<le> int (length req) - int n" using send_law [OF law a] True by auto
      show ?thesis
      proof (cases "a_ret a \<le> 0")
        case True
        then have "put ((?c, a) # h1) = put h @ take n req" using 1 by simp
        with True 1 log show ?thesis by (simp add: wp_ret post)
      next
        case False
        then have p: "put ((?c, a) # h1) = put h @ take (n + nat (a_ret a)) req"
          using 1 by (simp add: take_add)
        have "wp (thenp (note (a_ret a)) (ret (Again (n + nat (a_ret a)))))
            (\<lambda>r h'. case r of Again s' \<Rightarrow> (s' \<le> length req \<and> live h' = live h \<and> disciplined h' \<and>
                put h' = put h @ take s' req \<and> got h' = got h \<and> sockets h' = sockets h) \<and> length req - s' < length req - n
              | Leave b \<Rightarrow> Q b h') E os ((?c, a) # h1)"
          unfolding wp_thenp wp_ret iter.case
          by (rule quiet_noteD [OF nt log(2)]) (use p log False le True in auto)
        with False show ?thesis by simp
      qed
    qed
    with True show ?thesis by (simp add: send_rest_def wp_bindp wp_sys)
  qed
qed (use d in auto)

end
