(* ===== verification/Http.thy ===== *)
theory Http
  imports Http_Io
begin

text \<open>
  The HTTP clients of the tutorials: \<open>05_send_first_http_request.c\<close>,
  \<open>06_receive_http_response.c\<close> and \<open>07_http_redirection.c\<close>. The last follows redirections by
  calling itself, at most five times deep, with the host it finds in the \<open>Location\<close> of the
  response.

  A response that fills the buffer of 1024 bytes leaves no room for a NUL; searching or
  printing it is then undefined behaviour. A followed redirection never gives back the
  socket and the address list of the request before it; \<open>http_redirect_leaks\<close> counts them.
\<close>

section \<open>Resolving\<close>

abbreviation (input) CPP_HOSTNAME :: bytes where "CPP_HOSTNAME \<equiv> ''httpstat.us''"

text \<open>The three calls with what is done when one of them fails. The name of the protocol entry
  is its official one, \<open>tcp\<close>; the port is \<open>ntohs\<close> of the low 16 bits of \<open>s_port\<close>.\<close>

definition http_resolve :: "unit prog \<Rightarrow> unit prog \<Rightarrow> unit prog \<Rightarrow> bytes \<Rightarrow> (int \<times> addrinfo list) option prog" where
  "http_resolve no_proto no_service no_host host =
     bindp (sys (GetProtoByName ''tcp'')) (\<lambda>proto.
     if a_ptr proto = 0 then thenp no_proto (ret None)
     else bindp (sys (GetServByName ''http'' ''tcp'')) (\<lambda>service.
     if a_ptr service = 0 then thenp no_service (ret None)
     else bindp (port_text (uint (ntohs (word_of_int (a_ret service))))) (\<lambda>port.
     bindp (c_string port) (\<lambda>port_s.
     bindp (sys (GetAddrInfo (Some host) port_s (inet_hints 0 SOCK_STREAM (a_ret proto)))) (\<lambda>r.
     if a_ret r \<noteq> 0 then thenp no_host (ret None) else ret (Some (a_ptr r, a_infos r)))))))"

text \<open>\<open>res->...\<close>: the first address of the list\<close>

definition first_addr :: "addrinfo list \<Rightarrow> addrinfo prog" where
  "first_addr infos = getp Null_Deref (case infos of [] \<Rightarrow> None | p # _ \<Rightarrow> Some p)"

definition open_socket :: "addrinfo \<Rightarrow> answer prog" where
  "open_socket p = sys (Socket (ai_family p) (ai_socktype p) (ai_protocol p))"

definition http_request_text :: "bytes \<Rightarrow> bytes \<Rightarrow> bytes" where
  "http_request_text path host = fmt [''GET '', path, '' HTTP/1.1'', [CR, LF], ''Host: '', host, [CR, LF],
     ''Connection: close'', [CR, LF, CR, LF]]"

section \<open>Following redirections\<close>

text \<open>The host a redirection names, with its \<open>strncpy\<close> into an array of 1024 bytes.\<close>

definition redirect_host :: "bytes \<Rightarrow> bytes option prog" where
  "redirect_host response = bindp (c_strstr response ''301 Moved Permanently'') (\<lambda>moved.
     if moved = None then ret None
     else thenp (put_out (fmt [''HTTP is redirected'', [LF, LF]]))
     (bindp (c_strstr response ''Location: '') (\<lambda>location. case location of None \<Rightarrow> ret None
       | Some i \<Rightarrow> let location_start = drop (i + 10) response in
          bindp (c_strstr location_start [CR, LF]) (\<lambda>location_end. case location_end of None \<Rightarrow> ret None
          | Some len \<Rightarrow> thenp (guardp Out_Of_Bounds (len < MESSAGE_SIZE)) (ret (Some (take len location_start)))))))"

text \<open>The request and its answer: \<open>None\<close> when the request did not go out completely,
  otherwise the response buffer and the number of its bytes.\<close>

definition http_exchange :: "int \<Rightarrow> bytes \<Rightarrow> bytes \<Rightarrow> (bytes \<times> nat) option prog" where
  "http_exchange s path host =
     bindp (sprintf_to (zeros MESSAGE_SIZE) (http_request_text path host)) (\<lambda>request.
     bindp (c_string request) (\<lambda>request_s.
     thenp (put_out (fmt [''HTTP request:'', [LF], request_s, [LF]]))
     (bindp (send_all s (\<lambda>n. put_out (fmt [''http sent '', dec n, '' bytes'', [LF]])) request_s) (\<lambda>sent.
      if sent < length request_s
      then thenp (report_error ''Can not send a complete http request'') (ret None)
      else bindp (read_all (From_Socket s) (\<lambda>n. ret ()) MESSAGE_SIZE (zeros MESSAGE_SIZE)) (\<lambda>(response, n).
        thenp (put_out (fmt [''HTTP received '', dec (int n), '' bytes'', [LF, LF]]))
          (ret (Some (response, n))))))))"

text \<open>\<open>setup\<close> of one request: the address list, the socket and the connection.\<close>

definition http_connect :: "bytes \<Rightarrow> (int \<times> int) option prog" where
  "http_connect host =
     bindp (http_resolve (report_error ''TCP protocol is not supported'') (report_error ''HTTP service is not available'')
       (bindp (sprintf_to (zeros MESSAGE_SIZE) (''Failed to resolve hostname: '' @ host)) (\<lambda>http_temp.
        bindp (c_string http_temp) report_error)) host) (\<lambda>r. case r of None \<Rightarrow> ret None
     | Some (info, infos) \<Rightarrow> bindp (first_addr infos) (\<lambda>p.
     bindp (open_socket p) (\<lambda>s.
     if a_ret s < 0
     then thenp (report_error ''socket() failed'') (thenp (sys (FreeAddrInfo info)) (ret None))
     else bindp (sys (Connect (a_ret s) (ai_addr p) 16)) (\<lambda>c.
     if a_ret c \<noteq> 0
     then thenp (report_error ''connect() failed'') (thenp (give_up False (a_ret s) info) (ret None))
     else ret (Some (info, a_ret s))))))"

text \<open>
  \<open>perform_http_request\<close> with \<open>k\<close> calls left: \<open>redirect_count\<close> is \<open>6 - k\<close>, and with none left
  it exceeds \<open>MAX_REDIRECTION\<close>. The result is the code and the caller's response array.
\<close>

abbreviation (input) HTTP_UNKNOWN :: int where "HTTP_UNKNOWN \<equiv> - 1"
abbreviation (input) HTTP_SUCCESSUL :: int where "HTTP_SUCCESSUL \<equiv> 200"
abbreviation (input) HTTP_NOT_FOUND :: int where "HTTP_NOT_FOUND \<equiv> 404"

primrec perform_http_request :: "nat \<Rightarrow> bytes \<Rightarrow> bytes \<Rightarrow> bytes \<Rightarrow> (int \<times> bytes) prog" where
  "perform_http_request 0 host_name path response = ret (HTTP_NOT_FOUND, response)"
| "perform_http_request (Suc k) host_name path response =
     bindp (http_connect host_name) (\<lambda>r. case r of None \<Rightarrow> ret (HTTP_UNKNOWN, response)
     | Some (info, s) \<Rightarrow> bindp (http_exchange s path host_name) (\<lambda>x. case x of
         None \<Rightarrow> thenp (give_up False s info) (ret (HTTP_UNKNOWN, response))
       | Some (http_response, n) \<Rightarrow>
         thenp (guardp Out_Of_Bounds (n \<le> length response))
         (let response = overlay response 0 (take n http_response) in
          bindp (redirect_host http_response) (\<lambda>host. case host of
            Some new_http_host \<Rightarrow> perform_http_request k new_http_host ''/'' response
          | None \<Rightarrow> thenp (give_up False s info) (ret (HTTP_SUCCESSUL, response))))))"

fun http_redirection_calls :: "bytes list \<Rightarrow> bytes \<Rightarrow> unit prog" where
  "http_redirection_calls [] response = ret ()"
| "http_redirection_calls (path # paths) response =
     bindp (perform_http_request 6 CPP_HOSTNAME path response) (\<lambda>(rc, response).
     bindp (c_string response) (\<lambda>text.
     thenp (put_out (fmt [text, [LF]])) (http_redirection_calls paths response)))"

definition http_redirection_main :: "int prog" where
  "http_redirection_main =
     thenp (http_redirection_calls [''/200'', ''/301'', ''/403'', ''/404''] (zeros MESSAGE_SIZE)) (ret 0)"

section \<open>One request\<close>

text \<open>What the traffic-free calls leave alone.\<close>

abbreviation traffic :: "log \<Rightarrow> bytes \<times> bytes \<times> nat" where
  "traffic h \<equiv> (got h, put h, sockets h)"

lemma wp_http_resolve:
  assumes law: "lawful os" and d: "disciplined h"
    and fails: "\<And>m h1 Q'. m \<in> {no_proto, no_service, no_host} \<Longrightarrow> live h1 = live h \<Longrightarrow> disciplined h1 \<Longrightarrow> traffic h1 = traffic h \<Longrightarrow>
      (\<And>h2. live h2 = live h \<Longrightarrow> disciplined h2 \<Longrightarrow> traffic h2 = traffic h \<Longrightarrow> Q' () h2) \<Longrightarrow> wp m Q' E os h1"
    and none: "\<And>h'. live h' = live h \<Longrightarrow> disciplined h' \<Longrightarrow> traffic h' = traffic h \<Longrightarrow> Q None h'"
    and some: "\<And>i ps h'. Info i \<notin> live h \<Longrightarrow> ps \<noteq> [] \<Longrightarrow> live h' = insert (Info i) (live h) \<Longrightarrow> disciplined h' \<Longrightarrow>
      traffic h' = traffic h \<Longrightarrow> Q (Some (i, ps)) h'"
  shows "wp (http_resolve no_proto no_service no_host host) Q E os h"
proof -
  have leave: "wp (thenp m (ret None)) Q E os h1"
    if "m \<in> {no_proto, no_service, no_host}" "live h1 = live h" "disciplined h1" "traffic h1 = traffic h" for m h1
    unfolding wp_thenp by (rule fails [OF that]) (simp add: wp_ret none)
  show ?thesis
    unfolding http_resolve_def wp_bindp [of "sys c" for c] wp_sys
  proof (intro allI impI, goal_cases)
    case (1 proto)
    let ?h1 = "(GetProtoByName ''tcp'', proto) # h"
    have l1: "live ?h1 = live h" "disciplined ?h1" "traffic ?h1 = traffic h" using d by (simp_all add: res_simps)
    have "wp (if a_ptr service = 0 then thenp no_service (ret None)
        else bindp (port_text (uint (ntohs (word_of_int (a_ret service))))) (\<lambda>port.
          bindp (c_string port) (\<lambda>port_s.
          bindp (sys (GetAddrInfo (Some host) port_s (inet_hints 0 SOCK_STREAM (a_ret proto)))) (\<lambda>r.
          if a_ret r \<noteq> 0 then thenp no_host (ret None) else ret (Some (a_ptr r, a_infos r)))))) Q E os
        ((GetServByName ''http'' ''tcp'', service) # ?h1)" for service
    proof -
      let ?h2 = "(GetServByName ''http'' ''tcp'', service) # ?h1"
      let ?w = "ntohs (word_of_int (a_ret service))"
      have l2: "live ?h2 = live h" "disciplined ?h2" "traffic ?h2 = traffic h" using d by (simp_all add: res_simps)
      have port: "0 \<le> uint ?w" "uint ?w < 10 ^ 5" using uint_lt2p [of ?w] by simp_all
      have "wp (if a_ret r \<noteq> 0 then thenp no_host (ret None) else ret (Some (a_ptr r, a_infos r))) Q E os ((GetAddrInfo (Some host) p hi, r) # ?h2)"
        if r: "answers os ?h2 (GetAddrInfo (Some host) p hi) r" for r p hi
      proof (cases "a_ret r = 0")
        case True
        from fresh_info [OF law r this] have "Info (a_ptr r) \<notin> live h" "a_infos r \<noteq> []" unfolding l2(1) by simp_all
        with True l2 show ?thesis by (simp add: wp_ret some res_simps)
      next
        case False
        with leave [of no_host "(GetAddrInfo (Some host) p hi, r) # ?h2"] l2 show ?thesis by (simp add: res_simps)
      qed
      then show ?thesis
        using leave [of no_service, OF _ l2] port
        by (simp add: wp_if wp_bindp [of "port_text c" for c] wp_bindp [of "c_string c" for c] wp_c_string wp_port_text
            wp_bindp [of "sys c" for c] wp_sys)
    qed
    with leave [of no_proto, OF _ l1] show ?case by (simp add: wp_bindp [of "sys c" for c] wp_sys)
  qed
qed

lemma wp_http_connect:
  assumes law: "lawful os" and d: "disciplined h"
    and none: "\<And>h'. live h' = live h \<Longrightarrow> disciplined h' \<Longrightarrow> sockets h \<le> sockets h' \<Longrightarrow> sockets h' \<le> sockets h + 1 \<Longrightarrow>
      got h' = got h \<Longrightarrow> put h' = put h \<Longrightarrow> Q None h'"
    and some: "\<And>i s h'. Info i \<notin> live h \<Longrightarrow> Fd s \<notin> live h \<Longrightarrow> 0 \<le> s \<Longrightarrow> live h' = insert (Fd s) (insert (Info i) (live h)) \<Longrightarrow>
      disciplined h' \<Longrightarrow> sockets h' = sockets h + 1 \<Longrightarrow> got h' = got h \<Longrightarrow> put h' = put h \<Longrightarrow> Q (Some (i, s)) h'"
    and over: "\<And>h'. live h' = live h \<Longrightarrow> disciplined h' \<Longrightarrow> got h' = got h \<Longrightarrow> 996 \<le> length host \<Longrightarrow> E (Fault Out_Of_Bounds) h'"
  shows "wp (http_connect host) Q E os h"
  unfolding http_connect_def wp_bindp [of "http_resolve a b c d" for a b c d]
proof (rule wp_http_resolve [OF law d], goal_cases)
  case (1 m h1 Q')
  consider t where "m = report_error t" | "m = bindp (sprintf_to (zeros 1024) (''Failed to resolve hostname: '' @ host))
      (\<lambda>http_temp. bindp (c_string http_temp) report_error)"
    using 1(1) by auto
  then show ?case
  proof cases
    case t: (1 t)
    have "Q' () ((Err r, a) # h1)" for r a
      by (rule 1(5)) (use 1(2-4) in \<open>simp_all add: acquires_def releases_def needs_def\<close>)
    then show ?thesis unfolding t wp_report_error by blast
  next
    case 2
    have "Q' () ((Err t, a) # h1)" for t a
      by (rule 1(5)) (use 1(2-4) in \<open>simp_all add: res_simps\<close>)
    moreover have "terminated (overlay (zeros 1024) 0 ((''Failed to resolve hostname: '' @ host) @ [NUL]))"
      if "length (''Failed to resolve hostname: '' @ host) < 1024" using that by (intro terminated_overlay) simp
    ultimately show ?thesis
      unfolding 2 using over 1(2-4) by (simp add: wp_bindp wp_sprintf_to wp_c_string wp_report_error)
  qed
next
  case (2 h1)
  then show ?case by (simp add: wp_ret none)
next
  case (3 i ps h1)
  then obtain p qs where ps: "ps = p # qs" by (cases ps) auto
  have stop: "wp (thenp (report_error m) (thenp (sys (FreeAddrInfo i)) (ret None))) Q E os ((Socket x y z, a) # h1)"
    if "a_ret a < 0" for a m x y z
    unfolding wp_thenp wp_report_error wp_sys wp_ret
    by (intro allI impI none) (use that 3(1,3,4,5) in \<open>simp_all add: acquires_def releases_def needs_def\<close>)
  have drop: "wp (thenp (report_error m) (thenp (give_up False s i) (ret None))) Q E os h2"
    if "live h2 = insert (Fd s) (live h1)" "disciplined h2" "0 \<le> s" "Fd s \<notin> live h1" "sockets h2 = sockets h + 1"
      "got h2 = got h" "put h2 = put h" for s h2 m
    unfolding give_up_def if_False wp_thenp wp_report_error wp_sys wp_ret
    by (intro allI impI none) (use that 3(1,3) in \<open>auto simp: acquires_def releases_def needs_def\<close>)
  show ?case
    unfolding option.case prod.case ps first_addr_def list.case open_socket_def wp_bindp [of "getp e x" for e x] wp_getp
      wp_bindp [of "sys c" for c] wp_sys
  proof (intro allI impI, goal_cases)
    case (1 a)
    let ?h2 = "(Socket (ai_family p) (ai_socktype p) (ai_protocol p), a) # h1"
    show ?case
    proof (cases "a_ret a < 0")
      case True
      with stop show ?thesis by simp
    next
      case False
      with fresh_socket [OF law 1] have new: "Fd (a_ret a) \<notin> live h1" by simp
      let ?h3 = "\<lambda>c. (Connect (a_ret a) (ai_addr p) 16, c) # ?h2"
      have l3: "live (?h3 c) = insert (Fd (a_ret a)) (live h1)" "disciplined (?h3 c)" "sockets (?h3 c) = sockets h + 1"
          "got (?h3 c) = got h" "put (?h3 c) = put h" for c
        using False 3(3-5) by (auto simp: acquires_def releases_def needs_def)
      have "wp (thenp (report_error ''connect() failed'') (thenp (give_up False (a_ret a) i) (ret None))) Q E os (?h3 c)" for c
        using drop [OF l3(1,2) _ new l3(3-5)] False by simp
      moreover have "Q (Some (i, a_ret a)) (?h3 c)" for c
        by (rule some) (use new l3 False 3(1,3) in \<open>auto simp del: live.simps disciplined.simps sockets.simps got.simps put.simps\<close>)
      ultimately show ?thesis using False by (simp add: wp_bindp wp_sys wp_ret)
    qed
  qed
qed

end
