(* ===== verification/Http_Redirect.thy ===== *)
theory Http_Redirect
  imports Http
begin

text \<open>
  What \<open>perform_http_request\<close> of \<open>07_http_redirection.c\<close> does, by induction on the calls it has
  left: it ends, it overruns an array only for texts or responses that are too long for it, it
  delivers the response, and it leaves two resources behind for every
  redirection it follows.
\<close>

text \<open>The pieces of a search keep NULs out of the host.\<close>

lemma wp_strstr:
  assumes "\<And>r. (\<And>i. r = Some i \<Longrightarrow> i + length pat \<le> length (cstr buf)) \<Longrightarrow> Q r h"
    and "\<not> terminated buf \<Longrightarrow> E (Fault Out_Of_Bounds) h"
  shows "wp (c_strstr buf pat) Q E os h"
  using assms strstr_at_Some [of "cstr buf" pat] by (auto simp: c_strstr_def wp_ret wp_halt split: option.split)

lemma cstr_drop_take:
  assumes "i + n \<le> length (cstr buf)"
  shows "NUL \<notin> set (take n (drop i buf))"
proof -
  obtain rest where b: "buf = cstr buf @ rest" unfolding cstr_def by (metis takeWhile_dropWhile_id)
  have "take n (drop i (cstr buf @ rest)) = take n (drop i (cstr buf))" using assms by simp
  then have "set (take n (drop i (cstr buf @ rest))) \<subseteq> set (cstr buf)"
    by (metis set_drop_subset set_take_subset subset_trans)
  with b cstr_no_NUL [of buf] show ?thesis by auto
qed

lemma wp_redirect_host:
  assumes d: "disciplined h" and len: "length response \<le> MESSAGE_SIZE"
    and post: "\<And>r h'. live h' = live h \<Longrightarrow> disciplined h' \<Longrightarrow> traffic h' = traffic h \<Longrightarrow>
      (\<And>host. r = Some host \<Longrightarrow> NUL \<notin> set host \<and> length host \<le> length (cstr response)) \<Longrightarrow> Q r h'"
    and over: "\<And>h'. disciplined h' \<Longrightarrow> got h' = got h \<Longrightarrow> \<not> terminated response \<Longrightarrow> E (Fault Out_Of_Bounds) h'"
  shows "wp (redirect_host response) Q E os h"
  unfolding redirect_host_def wp_bindp [of "c_strstr a b" for a b]
proof (rule wp_strstr, goal_cases)
  case (1 moved)
  have "wp (c_strstr response ''Location: '') (\<lambda>location h1. wp (case location of None \<Rightarrow> ret None
       | Some i \<Rightarrow> let location_start = drop (i + 10) response in
          bindp (c_strstr location_start [CR, LF]) (\<lambda>location_end. case location_end of None \<Rightarrow> ret None
          | Some len \<Rightarrow> thenp (guardp Out_Of_Bounds (len < MESSAGE_SIZE)) (ret (Some (take len location_start))))) Q E os h1) E os h1"
    if h1: "live h1 = live h" "disciplined h1" "traffic h1 = traffic h" for h1
  proof (rule wp_strstr, goal_cases)
    case (1 location)
    show ?case
    proof (cases location)
      case None
      then show ?thesis using post [of h1 None] h1 by (simp add: wp_ret)
    next
      case (Some i)
      with 1 [OF Some] have c: "i + 10 \<le> length (cstr response)" by simp
      with length_cstr_le [of response] len have i: "i + 10 \<le> MESSAGE_SIZE" by simp
      show ?thesis
        unfolding Some option.case Let_def wp_bindp
      proof (rule wp_strstr, goal_cases)
        case (1 location_end)
        have "NUL \<notin> set (take n (drop (i + 10) response)) \<and> n < MESSAGE_SIZE \<and> n \<le> length (cstr response)" if "location_end = Some n" for n
          using 1 [OF that] cstr_drop_take [of 0 n "drop (i + 10) response"] length_cstr_le [of response] len cstr_drop [OF c] by simp linarith
        then show ?case
          using h1 by (auto simp: wp_thenp wp_guardp wp_ret intro!: post split: option.split)
      qed (use h1 over terminated_drop [OF _ c] in auto)
    qed
  qed (use h1 over in auto)
  then show ?case using d post [of h None] by (auto simp: wp_ret wp_thenp wp_put_out wp_bindp res_simps)
qed (use d over in simp)

lemma wp_http_exchange:
  assumes law: "lawful os" and d: "disciplined h" and s: "0 \<le> s" "Fd s \<in> live h"
    and host: "NUL \<notin> set host" "NUL \<notin> set path"
    and failed: "\<And>h'. live h' = live h \<Longrightarrow> disciplined h' \<Longrightarrow> sockets h' = sockets h \<Longrightarrow> Q None h'"
    and some: "\<And>w h'. length w \<le> MESSAGE_SIZE \<Longrightarrow> live h' = live h \<Longrightarrow> disciplined h' \<Longrightarrow> sockets h' = sockets h \<Longrightarrow>
      got h' = got h @ w \<Longrightarrow> put h' = put h @ http_request_text path host \<Longrightarrow> Q (Some (overlay (zeros MESSAGE_SIZE) 0 w, length w)) h'"
    and over: "980 \<le> length path + length host \<Longrightarrow> E (Fault Out_Of_Bounds) h"
  shows "wp (http_exchange s path host) Q E os h"
proof -
  let ?t = "http_request_text path host"
  have length_text: "length ?t = 44 + (length path + length host)" by (simp add: http_request_text_def fmt_def)
  have no: "NUL \<notin> set ?t" using host by (auto simp: http_request_text_def fmt_def)
  let ?rest = "\<lambda>sent. if sent < length ?t
      then thenp (report_error ''Can not send a complete http request'') (ret None)
      else bindp (read_all (From_Socket s) (\<lambda>n. ret ()) MESSAGE_SIZE (zeros MESSAGE_SIZE)) (\<lambda>(response, n).
        thenp (put_out (fmt [''HTTP received '', dec (int n), '' bytes'', [LF, LF]])) (ret (Some (response, n))))"
  have rest: "wp (?rest sent) Q E os h1"
    if h1: "live h1 = live h" "disciplined h1" "sockets h1 = sockets h" "got h1 = got h" "put h1 = put h @ take sent ?t" for sent h1
  proof (cases "sent < length ?t")
    case True
    have "wp (thenp (report_error t) (ret None)) Q E os h1" for t
      unfolding wp_thenp wp_report_error wp_ret by (intro allI impI failed) (use h1 in \<open>simp_all add: res_simps\<close>)
    with True show ?thesis by simp
  next
    case False
    have "wp (read_all (From_Socket s) (\<lambda>n. ret ()) MESSAGE_SIZE (zeros MESSAGE_SIZE)) (\<lambda>x h'. wp (case x of (response, n) \<Rightarrow>
        thenp (put_out (fmt [''HTTP received '', dec (int n), '' bytes'', [LF, LF]])) (ret (Some (response, n)))) Q E os h') E os h1"
    proof (rule wp_read_all [OF law _ h1(2)], goal_cases)
      case (5 w h2)
      have "Q (Some (overlay (zeros MESSAGE_SIZE) 0 w, length w)) ((Out t, a) # h2)" for t a
        by (rule some) (use 5 h1 False in \<open>simp_all add: res_simps\<close>)
      then show ?case by (simp add: wp_thenp wp_put_out wp_ret)
    qed (use s h1 in \<open>simp_all add: source_res_def\<close>)
    with False show ?thesis by (simp add: wp_bindp)
  qed
  have send: "wp (send_all s (\<lambda>n. put_out (fmt [''http sent '', dec n, '' bytes'', [LF]])) ?t) (\<lambda>sent h'. wp (?rest sent) Q E os h') E os ((Out t, a) # h)" for t a
  proof (rule wp_send_all [OF law s(1)], goal_cases)
    case (4 sent h1)
    then show ?case by (intro rest) (simp_all add: res_simps)
  qed (use s d in \<open>simp_all add: res_simps\<close>)
  show ?thesis
    unfolding http_exchange_def wp_bindp [of "sprintf_to a b" for a b] wp_sprintf_to wp_bindp [of "c_string a" for a] wp_c_string
    using send over length_text no
    by (auto simp: wp_thenp [of "put_out a" for a] wp_put_out wp_bindp [of "send_all a b c" for a b c] cstr_overlay terminated_overlay)
qed

section \<open>Following redirections\<close>

text \<open>What a run of \<open>perform_http_request\<close> with \<open>k\<close> calls left comes to: the code it returns, the
  sockets it has opened and the resources it has left behind.\<close>

definition http_outcome :: "nat \<Rightarrow> log \<Rightarrow> int \<Rightarrow> log \<Rightarrow> bool" where
  "http_outcome k h rc h' \<longleftrightarrow> disciplined h' \<and> (\<exists>n. sockets h' = sockets h + n \<and> n \<le> k \<and>
     (\<exists>L. live h' = L \<union> live h \<and> L \<inter> live h = {} \<and> finite L \<and>
       (rc = 200 \<and> 0 < n \<and> card L = 2 * (n - 1) \<or> rc = 404 \<and> n = k \<and> card L = 2 * n \<or>
        rc = - 1 \<and> card L \<le> 2 * n)))"

definition http_delivered :: "bytes \<Rightarrow> bytes \<Rightarrow> bytes \<Rightarrow> log \<Rightarrow> int \<times> bytes \<Rightarrow> log \<Rightarrow> bool" where
  "http_delivered host path buf h r h' \<longleftrightarrow> (fst r = 200 \<and> sockets h' = sockets h + 1 \<longrightarrow>
     put h' = put h @ http_request_text path host \<and>
     (\<exists>w. length w \<le> MESSAGE_SIZE \<and> got h' = got h @ w \<and> snd r = overlay buf 0 w))"

lemma http_outcome_leak:
  assumes "http_outcome k h1 rc h'" and "sockets h1 = sockets h + 1" and "live h1 = insert (Fd s) (insert (Info i) (live h))"
    and "Fd s \<notin> live h" and "Info i \<notin> live h"
  shows "http_outcome (Suc k) h rc h'"
proof -
  from assms(1) obtain n L where n: "disciplined h'" "sockets h' = sockets h1 + n" "n \<le> k" "live h' = L \<union> live h1"
      "L \<inter> live h1 = {}" "finite L"
    and rc: "rc = 200 \<and> 0 < n \<and> card L = 2 * (n - 1) \<or> rc = 404 \<and> n = k \<and> card L = 2 * n \<or> rc = - 1 \<and> card L \<le> 2 * n"
    by (auto simp: http_outcome_def)
  let ?L = "insert (Fd s) (insert (Info i) L)"
  have "Fd s \<notin> L" "Info i \<notin> L" using n(5) unfolding assms(3) by auto
  then have c: "card ?L = 2 + card L" using n(6) by simp
  have "live h' = ?L \<union> live h" "?L \<inter> live h = {}" using n(4,5) assms(4,5) unfolding assms(3) by auto
  moreover have "sockets h' = sockets h + Suc n" "Suc n \<le> Suc k" using n assms(2) by simp_all
  moreover have "rc = 200 \<and> 0 < Suc n \<and> card ?L = 2 * (Suc n - 1) \<or> rc = 404 \<and> Suc n = Suc k \<and> card ?L = 2 * Suc n \<or>
      rc = - 1 \<and> card ?L \<le> 2 * Suc n" using rc c by auto
  ultimately show ?thesis unfolding http_outcome_def using n(1,6) by (meson finite_insert)
qed

lemma http_outcome_single:
  assumes "live h' = live h" and "disciplined h'" and "sockets h' = sockets h + n" and "n \<le> Suc k" and "rc = - 1 \<or> rc = 200 \<and> n = 1"
  shows "http_outcome (Suc k) h rc h'"
  unfolding http_outcome_def using assms
  by (intro conjI exI [of _ n] exI [of _ "{}"]) auto

lemma wp_hang_up:
  assumes "live h1 = insert (Fd s) (insert (Info i) L)" and "Fd s \<notin> L" and "Info i \<notin> L" and "0 \<le> s" and "disciplined h1"
    and "\<And>h'. live h' = L \<Longrightarrow> disciplined h' \<Longrightarrow> traffic h' = traffic h1 \<Longrightarrow> Q r h'"
  shows "wp (thenp (give_up False s i) (ret r)) Q E os h1"
  unfolding give_up_def if_False wp_thenp wp_sys wp_ret
  by (intro allI impI assms(6)) (use assms(1-5) in \<open>auto simp: res_simps\<close>)

lemma http_step:
  assumes out: "http_outcome k h3 (fst r) h'" and h3: "live h3 = insert (Fd s) (insert (Info i) (live h))" "sockets h3 = sockets h + 1"
    and "Fd s \<notin> live h" and "Info i \<notin> live h"
  shows "http_outcome (Suc k) h (fst r) h' \<and> http_delivered host path buf h r h'"
proof
  show "http_outcome (Suc k) h (fst r) h'" using assms by (intro http_outcome_leak [of k h3])
  from out obtain n where "sockets h' = sockets h3 + n" "fst r = 200 \<longrightarrow> 0 < n" by (auto simp: http_outcome_def)
  with h3 show "http_delivered host path buf h r h'" by (auto simp: http_delivered_def)
qed

text \<open>How a run may end in undefined behaviour: the texts it was given were too long for an array,
  or it has received enough to fill one.\<close>

definition http_overrun :: "bytes \<Rightarrow> bytes \<Rightarrow> log \<Rightarrow> stop \<Rightarrow> log \<Rightarrow> bool" where
  "http_overrun host path h e h' \<longleftrightarrow> e = Fault Out_Of_Bounds \<and> disciplined h' \<and> length (got h) \<le> length (got h') \<and>
     (980 \<le> length path + length host \<or> length (got h) + 979 \<le> length (got h'))"

lemma wp_perform_http_request:
  assumes law: "lawful os"
  shows "disciplined h \<Longrightarrow> length response = MESSAGE_SIZE \<Longrightarrow> NUL \<notin> set host \<Longrightarrow> NUL \<notin> set path \<Longrightarrow>
    wp (perform_http_request k host path response)
      (\<lambda>r h'. http_outcome k h (fst r) h' \<and> length (snd r) = MESSAGE_SIZE \<and> http_delivered host path response h r h')
      (http_overrun host path h) os h"
proof (induction k arbitrary: h response host path)
  case 0
  then show ?case by (auto simp: wp_ret http_outcome_def http_delivered_def intro!: exI [of _ "{}"])
next
  case (Suc k)
  let ?Q = "\<lambda>r h'. http_outcome (Suc k) h (fst r) h' \<and> length (snd r) = MESSAGE_SIZE \<and> http_delivered host path response h r h'"
  let ?E = "http_overrun host path h"
  show ?case
    unfolding perform_http_request.simps wp_bindp [of "http_connect a" for a]
  proof (rule wp_http_connect [OF law Suc.prems(1)], goal_cases)
    case (1 h')
    then have "http_outcome (Suc k) h (- 1) h'"
      by (intro http_outcome_single [where n = "sockets h' - sockets h"]) auto
    with Suc.prems(2) show ?case by (simp add: wp_ret http_delivered_def)
  next
    case (2 i s h1)
    have new: "Fd s \<notin> live h" "Info i \<notin> live h" "0 \<le> s" using 2 by simp_all
    show ?case
      unfolding option.case prod.case wp_bindp [of "http_exchange a b c" for a b c]
    proof (rule wp_http_exchange [OF law 2(5) new(3) _ Suc.prems(3,4)], goal_cases)
      case (2 h2)
      have "http_outcome (Suc k) h (- 1) h'" if "live h' = live h" "disciplined h'" "traffic h' = traffic h2" for h'
        by (rule http_outcome_single [where n = 1]) (use that 2 \<open>sockets h1 = sockets h + 1\<close> in auto)
      then show ?case
        unfolding option.case
        by (intro wp_hang_up [where L = "live h"]) (use 2 new \<open>live h1 = _\<close> Suc.prems(2) in \<open>simp_all add: http_delivered_def\<close>)
    next
      case (3 w h2)
      have h2: "live h2 = insert (Fd s) (insert (Info i) (live h))" "sockets h2 = sockets h + 1"
          "got h2 = got h @ w" "put h2 = put h @ http_request_text path host"
        using 3 2 by simp_all
      have b: "take (length w) (overlay (zeros MESSAGE_SIZE) 0 w) = w"
          "length (overlay (zeros MESSAGE_SIZE) 0 w) \<le> MESSAGE_SIZE" "length (overlay response 0 w) = MESSAGE_SIZE"
        using 3(1) Suc.prems(2) by (simp_all add: overlay_def)
      have host_len: "length (cstr (overlay (zeros MESSAGE_SIZE) 0 w)) \<le> length w"
        using 3(1) length_cstr_le [of w] by (simp add: cstr_received)
      have "wp (redirect_host (overlay (zeros MESSAGE_SIZE) 0 w)) (\<lambda>r h'. wp (case r of
            Some new_http_host \<Rightarrow> perform_http_request k new_http_host ''/'' (overlay response 0 w)
          | None \<Rightarrow> thenp (give_up False s i) (ret (HTTP_SUCCESSUL, overlay response 0 w))) ?Q ?E os h') ?E os h2"
      proof (rule wp_redirect_host [OF 3(3) b(2)], goal_cases)
        case (1 r h3)
        have l3: "live h3 = insert (Fd s) (insert (Info i) (live h))" "sockets h3 = sockets h + 1" using 1 h2 by simp_all
        show ?case
        proof (cases r)
          case None
          have "?Q (HTTP_SUCCESSUL, overlay response 0 w) h'" if "live h' = live h" "disciplined h'" "traffic h' = traffic h3" for h'
            using that 1 h2 b 3(1) http_outcome_single [of h' h 1 k 200] by (auto simp: http_delivered_def)
          with None show ?thesis
            by (auto intro!: wp_hang_up [OF l3(1) new \<open>disciplined h3\<close>])
        next
          case (Some new_host)
          show ?thesis
            unfolding Some option.case
            by (rule wp_mono [OF Suc.IH [OF 1(2) b(3)]])
              (use 1(3) 1(4) [OF Some] h2(3) host_len http_step [OF _ l3 new(1,2)] in \<open>auto simp: http_overrun_def\<close>)
        qed
      qed (use 3(1) h2(3) in \<open>simp add: http_overrun_def\<close>)
      with b 3(1) Suc.prems(2) show ?case
        unfolding option.case prod.case wp_thenp [of "guardp e c" for e c] wp_guardp Let_def wp_bindp [of "redirect_host c" for c] b(1)
        by simp
    qed (use 2 in \<open>simp_all add: http_overrun_def\<close>)
  qed (simp add: http_overrun_def)
qed

section \<open>Properties\<close>

text \<open>
  C32: In every environment that behaves as documented, a request with \<open>k\<close> calls left ends,
  whatever the servers redirect to: with one of its three codes, after at most \<open>k\<close> sockets and
  without using anything that is not open. It never loops. It has undefined behaviour only when
  the path and the host it is given have 980 bytes or more, so that the request does not fit its
  array of 1024 bytes, or after it has received 979 bytes or more: a response that fills the
  array, or one that names a host as long as that.
\<close>

theorem http_request_ends:
  assumes "lawful os" and "length response = 1024" and "NUL \<notin> set host" and "NUL \<notin> set path"
  shows "wp (perform_http_request k host path response)
    (\<lambda>(rc, buf) h. rc \<in> {- 1, 200, 404} \<and> sockets h \<le> k \<and> disciplined h \<and> length buf = 1024)
    (\<lambda>e h. e = Fault Out_Of_Bounds \<and> disciplined h \<and> (980 \<le> length path + length host \<or> 979 \<le> length (got h))) os []"
  by (rule wp_mono [OF wp_perform_http_request [OF assms(1)]]) (use assms in \<open>auto simp: http_outcome_def http_overrun_def\<close>)

theorem http_request_ends_witness:
  "wp (perform_http_request 6 ''httpstat.us'' ''/301'' (zeros 1024))
    (\<lambda>(rc, buf) h. rc \<in> {- 1, 200, 404} \<and> sockets h \<le> 6 \<and> disciplined h \<and> length buf = 1024)
    (\<lambda>e h. e = Fault Out_Of_Bounds \<and> disciplined h \<and> (980 \<le> length ''/301'' + length ''httpstat.us'' \<or> 979 \<le> length (got h)))
    (sim_os [''HTTP/1.1 301 Moved Permanently'']) []"
  by (rule http_request_ends [OF lawful_sim_os]) simp_all

text \<open>
  C38: A successful request that was not redirected has sent exactly the HTTP request for its
  path and host, in however many pieces, and the caller's buffer starts with exactly the
  bytes received.
\<close>

theorem http_response_delivered:
  assumes "lawful os" and "length response = 1024" and "NUL \<notin> set host" and "NUL \<notin> set path"
    and "perform_http_request k host path response os [] = (Done (200, buf), h)" and "sockets h = 1"
  shows "put h = http_request_text path host \<and> length (got h) \<le> 1024 \<and> buf = overlay response 0 (got h)"
  using wp_Done [OF wp_perform_http_request [OF assms(1) _ assms(2-4)] assms(5)] assms(6)
  by (auto simp: http_delivered_def)

lemma delivered_demo:
  "case perform_http_request 1 ''h'' ''/'' (zeros 1024) (sim_os [''OK'']) [] of
     (Done (rc, buf), h) \<Rightarrow> rc = 200 \<and> sockets h = 1 | _ \<Rightarrow> False"
  by code_simp

theorem http_response_delivered_witness:
  "\<exists>buf h. perform_http_request 1 ''h'' ''/'' (zeros 1024) (sim_os [''OK'']) [] = (Done (200, buf), h) \<and>
     put h = http_request_text ''/'' ''h'' \<and> buf = overlay (zeros 1024) 0 (got h)"
proof -
  from delivered_demo obtain buf h where
    run: "perform_http_request 1 ''h'' ''/'' (zeros 1024) (sim_os [''OK'']) [] = (Done (200, buf), h)" and n: "sockets h = 1"
    by (auto split: prod.splits outcome.splits)
  from http_response_delivered [OF lawful_sim_os length_zeros _ _ run n] run show ?thesis by auto
qed

text \<open>
  A redirection that is followed gives nothing back: after a success with \<open>n\<close> sockets
  opened, the \<open>n - 1\<close> sockets and address lists of the redirected requests are still live, and
  when the limit is reached, all of them.
\<close>

theorem http_redirect_leaks:
  assumes "lawful os" and "length response = 1024" and "NUL \<notin> set host" and "NUL \<notin> set path"
    and "perform_http_request k host path response os [] = (Done (rc, buf), h)" and "rc \<noteq> - 1"
  shows "card (live h) = 3 + 2 * (if rc = 200 then sockets h - 1 else k)"
proof -
  from wp_Done [OF wp_perform_http_request [OF assms(1) _ assms(2-4)] assms(5)]
  obtain n L where n: "sockets h = n" "live h = L \<union> {Fd 0, Fd 1, Fd 2}" "L \<inter> {Fd 0, Fd 1, Fd 2} = {}" "finite L"
    and rc: "rc = 200 \<and> 0 < n \<and> card L = 2 * (n - 1) \<or> rc = 404 \<and> n = k \<and> card L = 2 * n"
    using assms(6) by (auto simp: http_outcome_def)
  have "card (live h) = card L + card {Fd 0, Fd 1, Fd 2}" unfolding n(2) using n(3,4) by (intro card_Un_disjoint) auto
  with rc n(1) show ?thesis by auto
qed

lemma redirect_demo:
  "case perform_http_request 1 ''h'' ''/'' (zeros 1024)
       (sim_os [''301 Moved Permanently'' @ [CR, LF] @ ''Location: x'' @ [CR, LF]]) [] of
     (Done (rc, buf), h) \<Rightarrow> rc = 404 | _ \<Rightarrow> False"
  by code_simp

theorem http_redirect_leaks_witness:
  "\<exists>buf h. perform_http_request 1 ''h'' ''/'' (zeros 1024)
       (sim_os [''301 Moved Permanently'' @ [CR, LF] @ ''Location: x'' @ [CR, LF]]) [] = (Done (404, buf), h) \<and> card (live h) = 5"
proof -
  from redirect_demo obtain buf h where
    run: "perform_http_request 1 ''h'' ''/'' (zeros 1024)
       (sim_os [''301 Moved Permanently'' @ [CR, LF] @ ''Location: x'' @ [CR, LF]]) [] = (Done (404, buf), h)"
    by (auto split: prod.splits outcome.splits)
  from http_redirect_leaks [OF lawful_sim_os length_zeros _ _ run] have "card (live h) = 5" by simp
  with run show ?thesis by blast
qed

end
