(* ===== verification/Http_First.thy ===== *)
theory Http_First
  imports Http Request_Server
begin

text \<open>
  The two earlier HTTP programs: \<open>05_send_first_http_request.c\<close> sends a request and reads
  nothing, \<open>06_receive_http_response.c\<close> prints the response. Both have a send loop of their
  own. That of 06 fails on a negative result; that of 05 looks at the wrong variable, and it
  sends the request from its start in every round, so that a partial send delivers its
  beginning twice.
\<close>

section \<open>06: receiving the response\<close>

definition on_func_failure :: "bytes \<Rightarrow> 'a prog" where
  "on_func_failure message = thenp (report_error message) (halt (Exit 1))"

definition receive_send_round :: "int \<Rightarrow> int \<Rightarrow> bytes \<Rightarrow> nat \<Rightarrow> (nat, unit) iter prog" where
  "receive_send_round s info req sent =
     (if sent < length req
      then bindp (sys (Send s (drop sent req) 0)) (\<lambda>a.
        if a_ret a < 0
        then thenp (sys (Close s)) (thenp (sys (FreeAddrInfo info)) (on_func_failure ''send() failed''))
        else thenp (put_out (fmt [''sent '', dec (a_ret a), '' bytes'', [LF]])) (ret (Again (sent + nat (a_ret a)))))
      else ret (Leave ()))"

definition receive_show :: "int \<Rightarrow> int \<Rightarrow> int prog" where
  "receive_show s info =
     bindp (read_all (From_Socket s) (\<lambda>n. put_out (fmt [''Received '', dec n, '' bytes'', [LF]])) MESSAGE_SIZE (zeros MESSAGE_SIZE))
       (\<lambda>(response, received_bytes).
     if received_bytes = 0
     then thenp (sys (Close s)) (thenp (sys (FreeAddrInfo info)) (on_func_failure ''recv() failed''))
     else bindp (c_string response) (\<lambda>text.
       thenp (put_out (fmt [''HTTP Response:'', [LF], text, [LF]]))
       (thenp (sys (Close s)) (thenp (sys (FreeAddrInfo info)) (ret 0)))))"

text \<open>The address, the socket and the connection: the error paths do not return.\<close>

definition receive_connect :: "(int \<times> int) prog" where
  "receive_connect =
     bindp (http_resolve (on_func_failure ''TCP protocol is not available'') (on_func_failure ''HTTP service is not available'')
       (on_func_failure ''Failed to resolve hostname'') CPP_HOSTNAME) (\<lambda>r. case r of None \<Rightarrow> halt (Exit 1)
     | Some (info, infos) \<Rightarrow> bindp (first_addr infos) (\<lambda>p.
     bindp (open_socket p) (\<lambda>s.
     if a_ret s < 0 then thenp (sys (FreeAddrInfo info)) (on_func_failure ''socket() failed'')
     else bindp (sys (Connect (a_ret s) (ai_addr p) 16)) (\<lambda>c.
     if a_ret c \<noteq> 0 then thenp (sys (FreeAddrInfo info)) (on_func_failure ''connect() failed'')
     else ret (info, a_ret s)))))"

definition receive_main :: "nat \<Rightarrow> int prog" where
  "receive_main n = bindp receive_connect (\<lambda>(info, s).
     bindp (sprintf_to (zeros MESSAGE_SIZE) (http_request_text ''/200'' CPP_HOSTNAME)) (\<lambda>request.
     bindp (c_string request) (\<lambda>request_s.
     bindp (loop n (receive_send_round s info request_s) 0) (\<lambda>_.
     receive_show s info))))"

section \<open>05: sending a request\<close>

text \<open>The test of the loop is on \<open>rc\<close>, the result of \<open>connect\<close>. The value tells whether the
  loop was left by its condition or by the error path, which returns -1.\<close>

definition first_send_round :: "int \<Rightarrow> int \<Rightarrow> bytes \<Rightarrow> int \<Rightarrow> (int, bool) iter prog" where
  "first_send_round s rc request sent_bytes =
     (if sent_bytes < int (length request)
      then bindp (sys (Send s request 0)) (\<lambda>sent.
        if rc < 0
        then thenp (report_error ''send() failed'') (thenp (sys (Close s)) (ret (Leave False)))
        else thenp (put_out (fmt [''sent '', dec32 (sent_bytes + a_ret sent), '' bytes'', [LF]]))
          (ret (Again (sent_bytes + a_ret sent))))
      else ret (Leave True))"

definition send_main :: "nat \<Rightarrow> int prog" where
  "send_main n =
     bindp (http_resolve (report_error ''TCP protocol is not available'') (report_error ''HTTP service is not available'')
       (report_error (''Can not resolve hostname '' @ CPP_HOSTNAME)) CPP_HOSTNAME) (\<lambda>r. case r of None \<Rightarrow> ret (- 1)
     | Some (info, infos) \<Rightarrow> bindp (first_addr infos) (\<lambda>p.
     bindp (open_socket p) (\<lambda>s.
     if a_ret s < 0 then thenp (report_error ''socket() failed'') (ret (- 1))
     else bindp (sys (Connect (a_ret s) (ai_addr p) 16)) (\<lambda>rc.
     if a_ret rc \<noteq> 0 then thenp (report_error ''connect() failed'') (ret (- 1))
     else bindp (sprintf_to (zeros 1024) (http_request_text ''/'' CPP_HOSTNAME)) (\<lambda>request.
     bindp (c_string request) (\<lambda>request_s.
     bindp (loop n (first_send_round (a_ret s) (a_ret rc) request_s) 0) (\<lambda>ok.
     if \<not> ok then ret (- 1)
     else thenp (sys (Close (a_ret s))) (thenp (sys (FreeAddrInfo info)) (ret 0)))))))))"

section \<open>What they do\<close>

text \<open>How 06 may stop: by its own \<open>exit\<close>, in its send loop, or by printing a full buffer.\<close>

definition receive_stop :: "stop \<Rightarrow> log \<Rightarrow> bool" where
  "receive_stop e h \<longleftrightarrow> disciplined h \<and>
     (e = Exit 1 \<or> e = Unfinished \<or> e = Fault Out_Of_Bounds \<and> length (got h) = MESSAGE_SIZE)"

lemma wp_on_func_failure:
  "disciplined h \<Longrightarrow> wp (on_func_failure m) Q receive_stop os h"
  by (auto simp: on_func_failure_def wp_simps res_simps receive_stop_def)

lemma wp_receive_connect:
  assumes law: "lawful os"
    and post: "\<And>i s h'. Fd s \<notin> {Fd 0, Fd 1, Fd 2} \<Longrightarrow> 0 \<le> s \<Longrightarrow> live h' = insert (Fd s) (insert (Info i) {Fd 0, Fd 1, Fd 2}) \<Longrightarrow>
      disciplined h' \<Longrightarrow> got h' = [] \<Longrightarrow> put h' = [] \<Longrightarrow> Q (i, s) h'"
  shows "wp receive_connect Q receive_stop os []"
  unfolding receive_connect_def wp_bindp [of "http_resolve a b c d" for a b c d]
proof (rule wp_http_resolve [OF law], goal_cases)
  case (2 m h1 Q')
  then show ?case by (auto intro!: wp_on_func_failure)
next
  case (3 h1)
  then show ?case by (simp add: wp_halt receive_stop_def)
next
  case (4 i ps h1)
  then obtain p qs where ps: "ps = p # qs" by (cases ps) auto
  have stop: "wp (thenp (sys (FreeAddrInfo i)) (on_func_failure m)) Q receive_stop os h2"
    if "Info i \<in> live h2" "disciplined h2" for m h2
    unfolding wp_thenp wp_sys by (intro allI impI wp_on_func_failure) (use that in \<open>simp add: res_simps\<close>)
  show ?case
    unfolding option.case prod.case ps first_addr_def list.case open_socket_def wp_bindp [of "getp e x" for e x] wp_getp
      wp_bindp [of "sys c" for c] wp_sys
  proof (intro allI impI, goal_cases)
    case (1 a)
    let ?h2 = "(Socket (ai_family p) (ai_socktype p) (ai_protocol p), a) # h1"
    show ?case
    proof (cases "a_ret a < 0")
      case True
      then have "wp (thenp (sys (FreeAddrInfo i)) (on_func_failure ''socket() failed'')) Q receive_stop os ?h2"
        by (intro stop) (use 4 in \<open>simp_all add: res_simps\<close>)
      with True show ?thesis by simp
    next
      case False
      have h1: "live h1 = insert (Info i) {Fd 0, Fd 1, Fd 2}" "disciplined h1" "got h1 = []" "put h1 = []" using 4 by simp_all
      from fresh_socket [OF law 1] False have new: "Fd (a_ret a) \<notin> {Fd 0, Fd 1, Fd 2}" "0 \<le> a_ret a" by (simp_all add: h1)
      let ?h3 = "\<lambda>c. (Connect (a_ret a) (ai_addr p) 16, c) # ?h2"
      have l3: "live (?h3 c) = insert (Fd (a_ret a)) (insert (Info i) {Fd 0, Fd 1, Fd 2})" "disciplined (?h3 c)"
          "got (?h3 c) = []" "put (?h3 c) = []" for c
        using new h1 by (auto simp: acquires_def releases_def needs_def)
      have "wp (thenp (sys (FreeAddrInfo i)) (on_func_failure ''connect() failed'')) Q receive_stop os (?h3 c)" for c
        by (rule stop [OF _ l3(2)]) (unfold l3(1), simp)
      moreover have "Q (i, a_ret a) (?h3 c)" for c
        by (rule post [OF new l3])
      ultimately show ?thesis using False by (simp add: wp_bindp wp_sys wp_ret)
    qed
  qed
qed simp

text \<open>The send loop sends the request once, in order.\<close>

lemma wp_receive_sending:
  assumes law: "lawful os" and s: "0 \<le> s" "live h = insert (Fd s) (insert (Info i) L)" and d: "disciplined h"
    and post: "\<And>h'. live h' = live h \<Longrightarrow> disciplined h' \<Longrightarrow> put h' = put h @ req \<Longrightarrow> got h' = got h \<Longrightarrow> Q () h'"
  shows "wp (loop n (receive_send_round s i req) 0) Q receive_stop os h"
proof (rule wp_loop [where I = "\<lambda>sent h'. live h' = live h \<and> disciplined h' \<and> sent \<le> length req \<and>
      put h' = put h @ take sent req \<and> got h' = got h"], goal_cases)
  case (1 sent h1)
  show ?case
  proof (cases "sent < length req")
    case False
    with 1 show ?thesis by (simp add: receive_send_round_def wp_ret post)
  next
    case True
    let ?c = "Send s (drop sent req) 0"
    have "wp (if a_ret a < 0
        then thenp (sys (Close s)) (thenp (sys (FreeAddrInfo i)) (on_func_failure ''send() failed''))
        else thenp (put_out (fmt [''sent '', dec (a_ret a), '' bytes'', [LF]])) (ret (Again (sent + nat (a_ret a)))))
      (\<lambda>r h'. case r of Again s' \<Rightarrow> live h' = live h \<and> disciplined h' \<and> s' \<le> length req \<and>
          put h' = put h @ take s' req \<and> got h' = got h | Leave b \<Rightarrow> Q b h') receive_stop os ((?c, a) # h1)"
      if a: "answers os h1 ?c a" for a
    proof -
      have log: "live ((?c, a) # h1) = live h" "disciplined ((?c, a) # h1)" "got ((?c, a) # h1) = got h"
        using 1 s by (auto simp: acquires_def releases_def needs_def)
      have p: "put ((?c, a) # h1) = put h @ take (sent + nat (a_ret a)) req" using 1 by (simp add: take_add)
      have le: "a_ret a \<le> int (length req) - int sent" using send_law [OF law a] True by auto
      have "wp (thenp (sys (Close s)) (thenp (sys (FreeAddrInfo i)) (on_func_failure m))) R receive_stop os ((?c, a) # h1)" for m R
        unfolding wp_thenp wp_sys
        by (intro allI impI wp_on_func_failure) (use log s d in \<open>auto simp: needs_def acquires_def releases_def simp del: got.simps put.simps\<close>)
      moreover have "live ((Out t, x) # (?c, a) # h1) = live h" "disciplined ((Out t, x) # (?c, a) # h1)"
          "got ((Out t, x) # (?c, a) # h1) = got h" "put ((Out t, x) # (?c, a) # h1) = put h @ take (sent + nat (a_ret a)) req" for t x
        using log p by (simp_all add: acquires_def releases_def needs_def)
      moreover have "sent + nat (a_ret a) \<le> length req" using le True by linarith
      ultimately show ?thesis
        by (cases "a_ret a < 0") (simp_all add: wp_thenp [of "put_out t" for t] wp_put_out wp_ret del: got.simps put.simps live.simps disciplined.simps)
    qed
    with True show ?thesis by (simp add: receive_send_round_def wp_bindp wp_sys)
  qed
next
  case (2 sent h1)
  then show ?case by (simp add: receive_stop_def)
qed (use d in simp)

lemma wp_receive_show:
  assumes law: "lawful os" and s: "0 \<le> s" "live h = insert (Fd s) (insert (Info i) L)" "Fd s \<notin> L" "Info i \<notin> L"
    and d: "disciplined h" and g: "got h = []"
    and post: "\<And>h'. got h' \<noteq> [] \<Longrightarrow> live h' = L \<Longrightarrow> disciplined h' \<Longrightarrow> put h' = put h \<Longrightarrow>
      Out (''HTTP Response:'' @ [LF] @ cstr (got h') @ [LF]) \<in> fst ` set h' \<Longrightarrow> Q 0 h'"
  shows "wp (receive_show s i) Q receive_stop os h"
  unfolding receive_show_def wp_bindp [of "read_all a b c d" for a b c d]
proof (rule wp_read_all [OF law _ d], goal_cases)
  case (5 w h1)
  let ?r = "overlay (zeros MESSAGE_SIZE) 0 w"
  have got: "got h1 = w" using 5 g by simp
  have r: "terminated ?r \<longleftrightarrow> length w < 1024 \<or> NUL \<in> set w" "cstr ?r = cstr w" using 5(1) by (simp_all add: cstr_received)
  have fail: "wp (thenp (sys (Close s)) (thenp (sys (FreeAddrInfo i)) (on_func_failure m))) Q receive_stop os h1" for m
    unfolding wp_thenp wp_sys
    by (intro allI impI wp_on_func_failure) (use 5 s in \<open>auto simp: needs_def acquires_def releases_def\<close>)
  have "Q 0 ((FreeAddrInfo i, x) # (Close s, y) # (Out (''HTTP Response:'' @ [LF] @ cstr w @ [LF]), z) # h1)" if "w \<noteq> []" for x y z
    by (rule post) (use 5 s got that in \<open>auto simp: needs_def acquires_def releases_def\<close>)
  then have show_it: "wp (thenp (put_out (fmt [''HTTP Response:'', [LF], cstr w, [LF]]))
      (thenp (sys (Close s)) (thenp (sys (FreeAddrInfo i)) (ret 0)))) Q receive_stop os h1" if "w \<noteq> []"
    using that by (simp add: wp_thenp wp_put_out wp_sys wp_ret fmt_def)
  have "receive_stop (Fault Out_Of_Bounds) h1" if "\<not> terminated ?r"
    using that r 5(1) got \<open>disciplined h1\<close> by (simp add: receive_stop_def)
  with show_it fail r show ?case by (simp add: wp_bindp wp_c_string)
qed (use s in \<open>simp_all add: source_res_def\<close>)

lemma request_text: "length (http_request_text ''/200'' CPP_HOSTNAME) < 1024" "NUL \<notin> set (http_request_text ''/200'' CPP_HOSTNAME)"
  by (simp_all add: http_request_text_def fmt_def)

lemma wp_receive_main:
  assumes "lawful os"
  shows "wp (receive_main n) (\<lambda>rc h. rc = 0 \<and> live h = {Fd 0, Fd 1, Fd 2} \<and> disciplined h \<and>
      put h = http_request_text ''/200'' ''httpstat.us'' \<and> got h \<noteq> [] \<and>
      Out (''HTTP Response:'' @ [LF] @ cstr (got h) @ [LF]) \<in> fst ` set h) receive_stop os []"
  unfolding receive_main_def wp_bindp [of receive_connect]
proof (rule wp_receive_connect [OF assms], goal_cases)
  case (1 i s h1)
  let ?Q = "\<lambda>rc h. rc = 0 \<and> live h = {Fd 0, Fd 1, Fd 2} \<and> disciplined h \<and>
      put h = http_request_text ''/200'' ''httpstat.us'' \<and> got h \<noteq> [] \<and>
      Out (''HTTP Response:'' @ [LF] @ cstr (got h) @ [LF]) \<in> fst ` set h"
  have show_it: "wp (receive_show s i) ?Q receive_stop os h2"
    if "live h2 = live h1" "disciplined h2" "put h2 = put h1 @ http_request_text ''/200'' CPP_HOSTNAME" "got h2 = got h1" for h2
    by (rule wp_receive_show [OF assms 1(2)]) (use that 1 in simp_all)
  have "wp (loop n (receive_send_round s i (http_request_text ''/200'' CPP_HOSTNAME)) 0)
      (\<lambda>_. wp (receive_show s i) ?Q receive_stop os) receive_stop os h1"
    by (rule wp_receive_sending [OF assms 1(2,3,4)]) (rule show_it)
  then show ?case
    using request_text by (simp add: wp_bindp wp_sprintf_to wp_c_string cstr_overlay terminated_overlay)
qed

section \<open>Properties\<close>

text \<open>
  C40: The program that prints an HTTP response, in every environment that behaves as
  documented: when it returns, it has sent exactly its request, printed what it received up
  to the first NUL, which is not nothing, and given everything back; otherwise it exits with
  code 1, is still sending, or has received a response that fills its buffer.
\<close>

theorem http_response_printed:
  assumes "lawful os"
  shows "case receive_main n os [] of
      (Done rc, h) \<Rightarrow> rc = 0 \<and> live h = {Fd 0, Fd 1, Fd 2} \<and> disciplined h \<and>
        put h = http_request_text ''/200'' ''httpstat.us'' \<and> got h \<noteq> [] \<and>
        Out (''HTTP Response:'' @ [LF] @ cstr (got h) @ [LF]) \<in> fst ` set h
    | (Stop e, h) \<Rightarrow> disciplined h \<and> (e = Exit 1 \<or> e = Unfinished \<or> e = Fault Out_Of_Bounds \<and> length (got h) = 1024)"
  using wp_receive_main [OF assms, of n] unfolding wp_def receive_stop_def by (simp split: prod.splits outcome.splits)

theorem http_response_printed_witness:
  "case receive_main 2 (sim_os [''HTTP/1.1 200 OK'']) [] of
      (Done rc, h) \<Rightarrow> rc = 0 \<and> live h = {Fd 0, Fd 1, Fd 2} \<and> disciplined h \<and>
        put h = http_request_text ''/200'' ''httpstat.us'' \<and> got h \<noteq> [] \<and>
        Out (''HTTP Response:'' @ [LF] @ cstr (got h) @ [LF]) \<in> fst ` set h
    | (Stop e, h) \<Rightarrow> disciplined h \<and> (e = Exit 1 \<or> e = Unfinished \<or> e = Fault Out_Of_Bounds \<and> length (got h) = 1024)"
  by (rule http_response_printed [OF lawful_sim_os])

text \<open>
  The send loop of the first HTTP program restarts: when \<open>send\<close> takes only the first \<open>m\<close>
  bytes of the request and then as many as are missing, the loop ends and counts the request
  as sent, but the server has received its first \<open>m\<close> bytes and then its beginning again.
\<close>

theorem partial_send_repeats:
  assumes "a_ret (os h (Send s request 0)) = int m" and "0 < m" and "m < length request"
    and "\<And>h' a b. h' = a # b # h \<Longrightarrow> a_ret (os h' (Send s request 0)) = int (length request) - int m"
  shows "\<exists>h'. loop (Suc (Suc (Suc k))) (first_send_round s 0 request) 0 os h = (Done True, h') \<and>
    put h' = put h @ take m request @ take (length request - m) request"
proof -
  have "nat (int (length request) - int m) = length request - m" by simp
  with assms show ?thesis
    by (simp add: first_send_round_def prog_defs put_out_def Let_def)
qed

theorem partial_send_repeats_witness:
  "\<exists>h'. loop 3 (first_send_round 4 0 ''GET /'') 0 (\<lambda>h c. plain (if h = [] then 2 else 3)) [] = (Done True, h') \<and>
    put h' = ''GEGET''"
  using partial_send_repeats [of "\<lambda>h c. plain (if h = [] then 2 else 3)" "[]" 4 "''GET /''" 2 0]
  by (simp add: numeral_3_eq_3)

end
