(* ===== verification/Https_Client.thy ===== *)
theory Https_Client
  imports Ssl_Common Http_Io
begin

text \<open>
  \<open>01_networking_libraries/openssl/src/https_client.c\<close>: one HTTPS request. The response goes
  into an array of 4097 bytes of which the loop fills at most 4096, so that the terminating
  NUL always has room. The program always ends; its only undefined behaviour is a host name that
  does not fit the request, and it leaves something open only where its set-up fails.
  \<open>https_shuts_down_late\<close> says where it calls \<open>SSL_shutdown\<close>: after the socket has been closed.
\<close>

abbreviation (input) REQUEST_SIZE :: nat where "REQUEST_SIZE \<equiv> 1024"
abbreviation (input) RESPONSE_SIZE :: nat where "RESPONSE_SIZE \<equiv> 4096"

section \<open>The program\<close>

definition https_usage :: "bytes \<Rightarrow> unit prog" where
  "https_usage program_name = put_err (fmt [''Usage: '', program_name, '' <hostname> <port>'', [LF]])"

definition https_print_sockaddr_info :: "sockaddr \<Rightarrow> unit prog" where
  "https_print_sockaddr_info sa =
     (if sa_family sa = AF_INET \<or> sa_family sa = AF_INET6
      then put_out (fmt [sin_addr sa, '':'', dec (uint (ntohs (sin_port sa))), [LF]])
      else report_error ''Unknown address family'')"

fun https_connect_all :: "int \<Rightarrow> addrinfo list \<Rightarrow> int \<Rightarrow> int prog" where
  "https_connect_all s [] rc = ret rc"
| "https_connect_all s (p # ps) rc = thenp (https_print_sockaddr_info (ai_addr p))
     (bindp (sys (Connect s (ai_addr p) (ai_addrlen p))) (\<lambda>a.
      if a_ret a = 0 then ret 0 else https_connect_all s ps (a_ret a)))"

text \<open>The address list and the connected socket. The error paths give nothing back.\<close>

definition https_connect :: "bytes \<Rightarrow> bytes \<Rightarrow> (int \<times> int) option prog" where
  "https_connect hostname port =
     bindp (sys (GetProtoByName ''tcp'')) (\<lambda>proto.
     if a_ptr proto = 0 then thenp (report_error ''TCP protocol is not supported'') (ret None)
     else bindp (sys (GetAddrInfo (Some hostname) port (inet_hints 0 SOCK_STREAM (a_ret proto)))) (\<lambda>r.
     if a_ret r \<noteq> 0 then thenp (report_error ''Resolve address failed'') (ret None)
     else bindp (getp Null_Deref (case a_infos r of [] \<Rightarrow> None | p # _ \<Rightarrow> Some p)) (\<lambda>p.
     bindp (sys (Socket (ai_family p) (ai_socktype p) (ai_protocol p))) (\<lambda>s.
     if a_ret s < 0 then thenp (report_error ''socket() failed'') (ret None)
     else bindp (https_connect_all (a_ret s) (a_infos r) 0) (\<lambda>rc.
     if rc \<noteq> 0 then thenp (report_error ''connect() failed'') (ret None)
     else ret (Some (a_ptr r, a_ret s)))))))"

definition https_handshake :: "int \<Rightarrow> int \<Rightarrow> (int \<times> int) option prog" where
  "https_handshake info s =
     thenp (sys SslInit)
     (bindp (sys (SslCtxNew ''TLS_client_method'')) (\<lambda>ctx.
      if a_ptr ctx = 0
      then thenp (report_error ''Unable to create SSL context'') (thenp (give_up False s info) (ret None))
      else bindp (sys (SslNew (a_ptr ctx))) (\<lambda>ssl.
      if a_ptr ssl = 0
      then thenp (report_error ''SSL_new() failed'') (thenp (give_up False s info)
        (thenp (sys (SslCtxFree (a_ptr ctx))) (ret None)))
      else thenp (sys (SslSetFd (a_ptr ssl) s))
      (bindp (sys (SslConnect (a_ptr ssl))) (\<lambda>rc.
      if a_ret rc \<le> 0
      then thenp (report_error ''SSL_connect() failed'') (thenp print_errors
        (thenp (tls_teardown info s (a_ptr ctx) (a_ptr ssl)) (ret None)))
      else ret (Some (a_ptr ctx, a_ptr ssl)))))))"

text \<open>The array is not zeroed as a whole: its last byte, here \<open>junk\<close>, is whatever the stack
  held.\<close>

definition https_response :: "int \<Rightarrow> char \<Rightarrow> unit prog" where
  "https_response ssl junk =
     bindp (read_all (From_Ssl ssl) (\<lambda>n. put_out (fmt [''Received '', dec n, '' bytes'', [LF]])) RESPONSE_SIZE
       (zeros RESPONSE_SIZE @ [junk])) (\<lambda>(http_response, total_received_bytes).
     bindp (poke http_response (int total_received_bytes) NUL) (\<lambda>http_response.
     bindp (c_string http_response) (\<lambda>text. put_out (fmt [text, [LF]]))))"

definition https_exchange :: "int \<Rightarrow> bytes \<Rightarrow> char \<Rightarrow> unit prog" where
  "https_exchange ssl hostname junk =
     bindp (sys (SslGetCipher ssl)) (\<lambda>cipher.
     thenp (put_out (fmt [''SSL connection is done with cipher suite '', a_buf cipher, [LF]]))
     (bindp (sprintf_to (zeros REQUEST_SIZE) (fmt [''GET / HTTP/1.1'', [CR, LF], ''Host: '', hostname, [CR, LF],
        ''Connection: close'', [CR, LF, CR, LF]])) (\<lambda>http_request.
      bindp (c_string http_request) (\<lambda>request_s.
      bindp (sys (SslWrite ssl request_s)) (\<lambda>rc.
      if a_ret rc \<le> 0 then thenp (report_error ''SSL_write() failed'') print_errors
      else https_response ssl junk)))))"

text \<open>Both ends of the function, after a failed write and after the response, give back
  everything in the same order.\<close>

definition perform_https_request :: "char \<Rightarrow> bytes \<Rightarrow> bytes \<Rightarrow> unit prog" where
  "perform_https_request junk hostname port =
     bindp (https_connect hostname port) (\<lambda>r. case r of None \<Rightarrow> ret ()
     | Some (info, s) \<Rightarrow> bindp (https_handshake info s) (\<lambda>t. case t of None \<Rightarrow> ret ()
     | Some (ctx, ssl) \<Rightarrow> thenp (https_exchange ssl hostname junk) (tls_teardown info s ctx ssl)))"

definition https_main :: "char \<Rightarrow> bytes list \<Rightarrow> int prog" where
  "https_main junk argv =
     (if length argv \<noteq> 3
      then bindp (getp Null_Deref (case argv of [] \<Rightarrow> None | p # _ \<Rightarrow> Some p)) (\<lambda>program_name.
        thenp (https_usage program_name) (ret (- 1)))
      else thenp (perform_https_request junk (argv ! 1) (argv ! 2)) (ret 0))"

section \<open>What it does\<close>

text \<open>What is left open after a failed set-up: the address list, and the socket if there is one.\<close>

definition socket_failed :: "log \<Rightarrow> bool" where
  "socket_failed h \<longleftrightarrow> (\<exists>i d t p a. live h = {Info i} \<union> {Fd 0, Fd 1, Fd 2} \<and> (Socket d t p, a) \<in> set h \<and> a_ret a < 0)"

definition connect_failed :: "log \<Rightarrow> bool" where
  "connect_failed h \<longleftrightarrow> (\<exists>i s x l a. live h = {Fd s, Info i} \<union> {Fd 0, Fd 1, Fd 2} \<and> (Connect s x l, a) \<in> set h \<and> a_ret a \<noteq> 0)"

definition https_leak :: "log \<Rightarrow> bool" where
  "https_leak h \<longleftrightarrow> socket_failed h \<or> connect_failed h"

lemma https_leak_report [simp]: "https_leak ((Err m, a) # h) = https_leak h"
  by (simp add: https_leak_def socket_failed_def connect_failed_def res_simps)

lemma wp_https_connect_all:
  assumes "0 \<le> s" and "Fd s \<in> live h" and "disciplined h" and "rc = 0 \<or> (\<exists>x l a. (Connect s x l, a) \<in> set h \<and> a_ret a \<noteq> 0)"
    and post: "\<And>rc h'. live h' = live h \<Longrightarrow> disciplined h' \<Longrightarrow> got h' = got h \<Longrightarrow>
      rc = 0 \<or> (\<exists>x l a. (Connect s x l, a) \<in> set h' \<and> a_ret a \<noteq> 0) \<Longrightarrow> Q rc h'"
  shows "wp (https_connect_all s ps rc) Q E os h"
  using assms(2-)
proof (induction ps arbitrary: rc h)
  case Nil
  then show ?case by (simp add: wp_ret)
next
  case (Cons p ps)
  have one: "wp (bindp (sys (Connect s x l)) (\<lambda>a. if a_ret a = 0 then ret 0 else https_connect_all s ps (a_ret a))) Q E os ((e, y) # h)"
    if "case e of Out _ \<Rightarrow> True | Err _ \<Rightarrow> True | _ \<Rightarrow> False" for e y x l
    unfolding wp_bindp wp_sys
  proof (intro allI impI)
    fix a
    let ?h = "(Connect s x l, a) # (e, y) # h"
    have l: "live ?h = live h" "disciplined ?h" "got ?h = got h"
      using that Cons.prems(1,2) assms(1) by (auto simp: acquires_def releases_def needs_def split: call.splits)
    show "wp (if a_ret a = 0 then ret 0 else https_connect_all s ps (a_ret a)) Q E os ?h"
    proof (cases "a_ret a = 0")
      case True
      with Cons.prems(4) [OF l] show ?thesis by (simp add: wp_ret)
    next
      case False
      then have "\<exists>x l a. (Connect s x l, a) \<in> set ?h \<and> a_ret a \<noteq> 0" by auto
      then have "wp (https_connect_all s ps (a_ret a)) Q E os ?h"
        using Cons.prems l by (intro Cons.IH) (simp_all del: live.simps disciplined.simps got.simps)
      with False show ?thesis by simp
    qed
  qed
  show ?case
    unfolding https_connect_all.simps wp_thenp
    using one by (auto simp: https_print_sockaddr_info_def wp_put_out wp_report_error)
qed

lemma wp_https_connect:
  assumes law: "lawful os"
    and none: "\<And>h'. live h' = {Fd 0, Fd 1, Fd 2} \<or> https_leak h' \<Longrightarrow> disciplined h' \<Longrightarrow> got h' = [] \<Longrightarrow> Q None h'"
    and some: "\<And>i s h'. live h' = {Fd s, Info i} \<union> {Fd 0, Fd 1, Fd 2} \<Longrightarrow> 0 \<le> s \<Longrightarrow> Fd s \<notin> {Fd 0, Fd 1, Fd 2} \<Longrightarrow>
      disciplined h' \<Longrightarrow> got h' = [] \<Longrightarrow> Q (Some (i, s)) h'"
  shows "wp (https_connect hostname port) Q E os []"
  unfolding https_connect_def wp_bindp [of "sys c" for c] wp_sys
proof (intro allI impI, goal_cases)
  case (1 proto)
  let ?h1 = "[(GetProtoByName ''tcp'', proto)]"
  have leave: "wp (thenp (report_error m) (ret None)) Q E os h1"
    if "live h1 = {Fd 0, Fd 1, Fd 2} \<or> https_leak h1" "disciplined h1" "got h1 = []" for m h1
    unfolding wp_thenp wp_report_error wp_ret by (intro allI impI none) (use that in \<open>simp_all add: res_simps\<close>)
  have l1: "live ?h1 = {Fd 0, Fd 1, Fd 2}" "disciplined ?h1" "got ?h1 = []" by (simp_all add: res_simps)
  let ?c = "GetAddrInfo (Some hostname) port (inet_hints 0 SOCK_STREAM (a_ret proto))"
  have "wp (if a_ret r \<noteq> 0 then thenp (report_error ''Resolve address failed'') (ret None)
     else bindp (getp Null_Deref (case a_infos r of [] \<Rightarrow> None | p # _ \<Rightarrow> Some p)) (\<lambda>p.
     bindp (sys (Socket (ai_family p) (ai_socktype p) (ai_protocol p))) (\<lambda>s.
     if a_ret s < 0 then thenp (report_error ''socket() failed'') (ret None)
     else bindp (https_connect_all (a_ret s) (a_infos r) 0) (\<lambda>rc.
     if rc \<noteq> 0 then thenp (report_error ''connect() failed'') (ret None)
     else ret (Some (a_ptr r, a_ret s)))))) Q E os ((?c, r) # ?h1)" if r: "answers os ?h1 ?c r" for r
  proof (cases "a_ret r = 0")
    case False
    with leave [of "(?c, r) # ?h1"] l1 show ?thesis by (simp add: res_simps)
  next
    case True
    from fresh_info [OF law r this] obtain p ps where p: "a_infos r = p # ps" and i: "Info (a_ptr r) \<notin> {Fd 0, Fd 1, Fd 2}"
      by (cases "a_infos r") auto
    let ?s = "Socket (ai_family p) (ai_socktype p) (ai_protocol p)"
    let ?h2 = "(?c, r) # ?h1"
    have l2: "live ?h2 = {Info (a_ptr r)} \<union> {Fd 0, Fd 1, Fd 2}" "disciplined ?h2" "got ?h2 = []" using True l1 by (auto simp: res_simps)
    have "wp (if a_ret s < 0 then thenp (report_error ''socket() failed'') (ret None)
        else bindp (https_connect_all (a_ret s) (p # ps) 0) (\<lambda>rc.
        if rc \<noteq> 0 then thenp (report_error ''connect() failed'') (ret None) else ret (Some (a_ptr r, a_ret s)))) Q E os ((?s, s) # ?h2)"
      if s: "answers os ?h2 ?s s" for s
    proof (cases "a_ret s < 0")
      case True
      have l3: "live ((?s, s) # ?h2) = {Info (a_ptr r)} \<union> {Fd 0, Fd 1, Fd 2}" "disciplined ((?s, s) # ?h2)" "got ((?s, s) # ?h2) = []"
        using True l2 by (simp_all add: acquires_def releases_def needs_def)
      have "(?s, s) \<in> set ((?s, s) # ?h2)" by simp
      with l3(1) True have "https_leak ((?s, s) # ?h2)" unfolding https_leak_def socket_failed_def by blast
      with leave [OF _ l3(2,3)] True show ?thesis by simp
    next
      case False
      then have pos: "0 \<le> a_ret s" by simp
      from fresh_socket [OF law s pos] have new: "Fd (a_ret s) \<notin> {Fd 0, Fd 1, Fd 2}" unfolding l2(1) by simp
      have l3: "live ((?s, s) # ?h2) = {Fd (a_ret s), Info (a_ptr r)} \<union> {Fd 0, Fd 1, Fd 2}" "disciplined ((?s, s) # ?h2)" "got ((?s, s) # ?h2) = []"
        using pos l2 by (auto simp: acquires_def releases_def needs_def)
      have "wp (https_connect_all (a_ret s) (p # ps) 0) (\<lambda>rc. wp (if rc \<noteq> 0 then thenp (report_error ''connect() failed'') (ret None)
          else ret (Some (a_ptr r, a_ret s))) Q E os) E os ((?s, s) # ?h2)"
      proof (rule wp_https_connect_all [OF pos], goal_cases)
        case (4 rc h')
        then have h': "live h' = {Fd (a_ret s), Info (a_ptr r)} \<union> {Fd 0, Fd 1, Fd 2}" "disciplined h'" "got h' = []"
          using l3 by (simp_all del: live.simps)
        have "https_leak h'" if "rc \<noteq> 0" using 4(4) that h'(1) unfolding https_leak_def connect_failed_def by blast
        with leave [OF _ h'(2,3)] some [OF h'(1) pos new h'(2,3)] show ?case by (simp add: wp_ret)
      qed (use l3 in simp_all)
      with False show ?thesis by (simp add: wp_bindp)
    qed
    then have "wp (bindp (sys ?s) (\<lambda>s. if a_ret s < 0 then thenp (report_error ''socket() failed'') (ret None)
        else bindp (https_connect_all (a_ret s) (p # ps) 0) (\<lambda>rc.
        if rc \<noteq> 0 then thenp (report_error ''connect() failed'') (ret None) else ret (Some (a_ptr r, a_ret s))))) Q E os ?h2"
      unfolding wp_bindp [of "sys c" for c] wp_sys by blast
    with True show ?thesis unfolding p by (simp add: wp_bindp [of "getp e x" for e x] wp_getp del: https_connect_all.simps)
  qed
  with leave [of ?h1] l1 show ?case by (simp add: wp_bindp [of "sys c" for c] wp_sys)
qed

text \<open>The end of a connection, with what it leaves of the traffic.\<close>

lemma wp_https_teardown:
  assumes "live h = {Ssl p, Ctx c, Fd s, Info i} \<union> L" and "0 \<le> s" and "disciplined h"
    and "Ssl p \<notin> L" "Ctx c \<notin> L" "Fd s \<notin> L" "Info i \<notin> L" and "p \<noteq> 0" "c \<noteq> 0"
    and post: "\<And>h'. live h' = L \<Longrightarrow> disciplined h' \<Longrightarrow> got h' = got h \<Longrightarrow> set h \<subseteq> set h' \<Longrightarrow> Q () h'"
  shows "wp (tls_teardown i s c p) Q E os h"
  unfolding tls_teardown_def wp_thenp wp_sys wp_ret
  by (intro allI impI post) (use assms(1-9) in \<open>auto simp: acquires_def releases_def needs_def\<close>)

lemma wp_https_handshake:
  assumes law: "lawful os" and l: "live h = {Fd s, Info i} \<union> L" and s: "0 \<le> s" and d: "disciplined h" and g: "got h = []"
    and new: "Fd s \<notin> L" "Info i \<notin> L"
    and none: "\<And>h'. live h' = L \<Longrightarrow> disciplined h' \<Longrightarrow> got h' = [] \<Longrightarrow> Q None h'"
    and some: "\<And>c p h'. live h' = {Ssl p, Ctx c, Fd s, Info i} \<union> L \<Longrightarrow> disciplined h' \<Longrightarrow> got h' = [] \<Longrightarrow> p \<noteq> 0 \<Longrightarrow> c \<noteq> 0 \<Longrightarrow>
      Ssl p \<notin> L \<Longrightarrow> Ctx c \<notin> L \<Longrightarrow> Q (Some (c, p)) h'"
  shows "wp (https_handshake i s) Q E os h"
proof -
  have giving: "wp (thenp (report_error m) (thenp (give_up False s i) (ret None))) Q E os h'"
    if "live h' = {Fd s, Info i} \<union> L" "disciplined h'" "got h' = []" for h' m
    unfolding give_up_def if_False wp_thenp wp_report_error wp_sys wp_ret
    by (intro allI impI none) (use that s new in \<open>auto simp: acquires_def releases_def needs_def\<close>)
  have freeing: "wp (thenp (report_error m) (thenp (give_up False s i) (thenp (sys (SslCtxFree c)) (ret None)))) Q E os h'"
    if "live h' = {Ctx c, Fd s, Info i} \<union> L" "disciplined h'" "got h' = []" "c \<noteq> 0" "Ctx c \<notin> L" for h' c m
    unfolding give_up_def if_False wp_thenp wp_report_error wp_sys wp_ret
    by (intro allI impI none) (use that s new in \<open>auto simp: acquires_def releases_def needs_def\<close>)
  have down: "wp (thenp (report_error m) (thenp print_errors (thenp (tls_teardown i s c p) (ret None)))) Q E os h'"
    if "live h' = {Ssl p, Ctx c, Fd s, Info i} \<union> L" "disciplined h'" "got h' = []" "c \<noteq> 0" "p \<noteq> 0" "Ctx c \<notin> L" "Ssl p \<notin> L" for h' c p m
    unfolding tls_teardown_def print_errors_def wp_thenp wp_report_error wp_sys wp_ret
    by (intro allI impI none) (use that s new in \<open>auto simp: acquires_def releases_def needs_def\<close>)
  show ?thesis
    unfolding https_handshake_def wp_thenp [of "sys c" for c] wp_bindp [of "sys c" for c] wp_sys
  proof (intro allI impI, goal_cases)
    case (1 ini ctx)
    let ?h1 = "(SslCtxNew ''TLS_client_method'', ctx) # (SslInit, ini) # h"
    have d1: "disciplined ?h1" "got ?h1 = []" using d g by (simp_all add: res_simps)
    show ?case
    proof (cases "a_ptr ctx = 0")
      case True
      with l have "live ?h1 = {Fd s, Info i} \<union> L" by (simp add: res_simps)
      from giving [OF this d1] True show ?thesis by simp
    next
      case False
      with fresh_ssl(1) [OF law False 1(2)] have c: "Ctx (a_ptr ctx) \<notin> L" by (simp add: res_simps l)
      have l1: "live ?h1 = {Ctx (a_ptr ctx), Fd s, Info i} \<union> L" using False l by (auto simp: res_simps)
      let ?h2 = "\<lambda>ssl. (SslNew (a_ptr ctx), ssl) # ?h1"
      have "wp (if a_ptr ssl = 0
          then thenp (report_error ''SSL_new() failed'') (thenp (give_up False s i) (thenp (sys (SslCtxFree (a_ptr ctx))) (ret None)))
          else thenp (sys (SslSetFd (a_ptr ssl) s)) (bindp (sys (SslConnect (a_ptr ssl))) (\<lambda>rc.
            if a_ret rc \<le> 0
            then thenp (report_error ''SSL_connect() failed'') (thenp print_errors
              (thenp (tls_teardown i s (a_ptr ctx) (a_ptr ssl)) (ret None)))
            else ret (Some (a_ptr ctx, a_ptr ssl))))) Q E os (?h2 ssl)"
        if a: "answers os ?h1 (SslNew (a_ptr ctx)) ssl" for ssl
      proof (cases "a_ptr ssl = 0")
        case True
        have "live (?h2 ssl) = {Ctx (a_ptr ctx), Fd s, Info i} \<union> L" "disciplined (?h2 ssl)" "got (?h2 ssl) = []"
          using True l1 d1 by (simp_all add: acquires_def releases_def needs_def)
        from freeing [OF this False c] True show ?thesis by simp
      next
        case ok: False
        from fresh_ssl(2) [OF law ok a] have p: "Ssl (a_ptr ssl) \<notin> L" unfolding l1 by simp
        let ?h3 = "\<lambda>x y. (SslConnect (a_ptr ssl), y) # (SslSetFd (a_ptr ssl) s, x) # ?h2 ssl"
        have l3: "live (?h3 x y) = {Ssl (a_ptr ssl), Ctx (a_ptr ctx), Fd s, Info i} \<union> L" "disciplined (?h3 x y)" "got (?h3 x y) = []" for x y
          using l1 d1 ok False s by (auto simp: acquires_def releases_def needs_def)
        from down [OF l3 False ok c p] some [OF l3 ok False p c] ok show ?thesis
          by (simp add: wp_thenp [of "sys c" for c] wp_bindp [of "sys c" for c] wp_sys wp_ret)
      qed
      with False show ?thesis by (simp add: wp_bindp [of "sys c" for c] wp_sys)
    qed
  qed
qed

text \<open>The response: the array has room for its NUL, however much comes.\<close>

definition https_shown :: "log \<Rightarrow> bool" where
  "https_shown h \<longleftrightarrow> got h = [] \<or> length (got h) \<le> RESPONSE_SIZE \<and> Out (cstr (got h) @ [LF]) \<in> fst ` set h"

lemma response_array:
  assumes "length w \<le> RESPONSE_SIZE"
  shows "length (overlay (zeros RESPONSE_SIZE @ [junk]) 0 w) = RESPONSE_SIZE + 1"
    and "terminated ((overlay (zeros RESPONSE_SIZE @ [junk]) 0 w)[length w := NUL])"
    and "cstr ((overlay (zeros RESPONSE_SIZE @ [junk]) 0 w)[length w := NUL]) = cstr w"
proof -
  obtain x r where r: "drop (length w) (zeros RESPONSE_SIZE @ [junk]) = x # r"
    using assms by (cases "drop (length w) (zeros RESPONSE_SIZE @ [junk])") auto
  have o: "(overlay (zeros RESPONSE_SIZE @ [junk]) 0 w)[length w := NUL] = w @ NUL # r"
    using r by (simp add: overlay_def del: drop_append)
  show "length (overlay (zeros RESPONSE_SIZE @ [junk]) 0 w) = RESPONSE_SIZE + 1" using assms by simp
  show "terminated ((overlay (zeros RESPONSE_SIZE @ [junk]) 0 w)[length w := NUL])" unfolding o by simp
  show "cstr ((overlay (zeros RESPONSE_SIZE @ [junk]) 0 w)[length w := NUL]) = cstr w"
    unfolding o cstr_def by (cases "NUL \<in> set w") (simp_all add: takeWhile_append takeWhile_eq_all_conv [THEN iffD2])
qed

lemma wp_https_response:
  assumes law: "lawful os" and p: "Ssl p \<in> live h" and d: "disciplined h" and g: "got h = []"
    and post: "\<And>h'. live h' = live h \<Longrightarrow> disciplined h' \<Longrightarrow> https_shown h' \<Longrightarrow> Q () h'"
  shows "wp (https_response p junk) Q E os h"
  unfolding https_response_def wp_bindp [of "read_all a b c d" for a b c d]
proof (rule wp_read_all [OF law _ d], goal_cases)
  case (5 w h1)
  note r = response_array [OF 5(1), of junk]
  have "Q () ((Out (cstr w @ [LF]), a) # h1)" for a
    by (rule post) (use 5 g in \<open>auto simp: https_shown_def res_simps\<close>)
  with r 5(1) show ?case by (simp add: wp_bindp wp_poke wp_c_string wp_put_out fmt_def)
qed (use p in \<open>simp_all add: source_res_def\<close>)

lemma wp_https_exchange:
  assumes law: "lawful os" and p: "Ssl p \<in> live h" and d: "disciplined h" and g: "got h = []"
    and host: "NUL \<notin> set hostname"
    and post: "\<And>h'. live h' = live h \<Longrightarrow> disciplined h' \<Longrightarrow> https_shown h' \<Longrightarrow> Q () h'"
    and over: "\<And>h'. disciplined h' \<Longrightarrow> got h' = [] \<Longrightarrow> 979 \<le> length hostname \<Longrightarrow> E (Fault Out_Of_Bounds) h'"
  shows "wp (https_exchange p hostname junk) Q E os h"
proof -
  let ?t = "fmt [''GET / HTTP/1.1'', [CR, LF], ''Host: '', hostname, [CR, LF], ''Connection: close'', [CR, LF, CR, LF]]"
  have t: "NUL \<notin> set ?t" "length ?t = length hostname + 45" using host by (simp_all add: fmt_def)
  let ?h = "\<lambda>x y z. (SslWrite p ?t, z) # (Out (fmt [''SSL connection is done with cipher suite '', a_buf x, [LF]]), y) # (SslGetCipher p, x) # h"
  let ?g = "\<lambda>x y. (Out (fmt [''SSL connection is done with cipher suite '', a_buf x, [LF]]), y) # (SslGetCipher p, x) # h"
  have l0: "disciplined (?g x y)" "got (?g x y) = []" for x y using p d g by (simp_all add: needs_def)
  have l: "live (?h x y z) = live h" "disciplined (?h x y z)" "got (?h x y z) = []" for x y z
    using p d g by (simp_all add: acquires_def releases_def needs_def)
  have "wp (thenp (report_error m) print_errors) Q E os (?h x y z)" for x y z m
    unfolding wp_thenp wp_report_error print_errors_def wp_sys wp_ret
    by (intro allI impI post) (use l in \<open>simp_all add: https_shown_def acquires_def releases_def needs_def\<close>)
  moreover have "wp (https_response p junk) Q E os (?h x y z)" for x y z
    by (rule wp_https_response [OF law _ l(2,3)]) (use l p post in simp_all)
  ultimately show ?thesis
    unfolding https_exchange_def wp_bindp [of "sys c" for c] wp_sys wp_thenp [of "put_out c" for c] wp_put_out
      wp_bindp [of "sprintf_to a b" for a b] wp_sprintf_to wp_bindp [of "c_string c" for c] wp_c_string
    using t over l0 by (auto simp: cstr_overlay terminated_overlay simp del: live.simps disciplined.simps got.simps)
qed

section \<open>The property\<close>

lemma wp_perform_https_request:
  assumes "lawful os" and "NUL \<notin> set hostname"
  shows "wp (perform_https_request junk hostname port)
    (\<lambda>_ h. (live h = {Fd 0, Fd 1, Fd 2} \<or> https_leak h) \<and> disciplined h \<and> https_shown h)
    (\<lambda>e h. e = Fault Out_Of_Bounds \<and> 979 \<le> length hostname \<and> got h = [] \<and> disciplined h) os []"
  unfolding perform_https_request_def wp_bindp [of "https_connect a b" for a b]
proof (rule wp_https_connect [OF assms(1)], goal_cases)
  case (1 h1)
  then show ?case by (simp add: wp_ret https_shown_def)
next
  case (2 i s h1)
  then have new: "Info i \<notin> {Fd 0, Fd 1, Fd 2}" by simp
  show ?case
    unfolding option.case prod.case wp_bindp [of "https_handshake a b" for a b]
  proof (rule wp_https_handshake [OF assms(1) 2(1,2,4,5,3) new], goal_cases)
    case (1 h2)
    then show ?case by (simp add: wp_ret https_shown_def)
  next
    case h2: (2 c p h2)
    show ?case
      unfolding option.case prod.case wp_thenp
    proof (rule wp_https_exchange [OF assms(1) _ h2(2,3) assms(2)], goal_cases)
      case (2 h3)
      have l3: "live h3 = {Ssl p, Ctx c, Fd s, Info i} \<union> {Fd 0, Fd 1, Fd 2}" using 2(1) h2(1) by simp
      show ?case
        by (rule wp_https_teardown [OF l3 \<open>0 \<le> s\<close> 2(2) h2(6,7) \<open>Fd s \<notin> {Fd 0, Fd 1, Fd 2}\<close> new h2(4,5)])
          (use 2(3) in \<open>auto simp: https_shown_def\<close>)
    qed (use h2(1) in simp_all)
  qed
qed

text \<open>
  C39: The HTTPS client, in every environment that behaves as documented, for every host name
  and whatever the server sends, always ends. It returns 0, having printed the response up to its
  first NUL: no response is too long for its array. Everything is then given back, unless \<open>socket\<close>
  or \<open>connect\<close> failed: then the address list, and the socket, are left. Its only undefined
  behaviour is a host name of 979 bytes or more, which does not fit the array of the request, before
  anything was received. (The shutdown of a connection counts as a use of its handle only.)
\<close>

theorem https_client_ok:
  assumes "lawful os" and "NUL \<notin> set hostname" and "https_main junk [name, hostname, port] os [] = (r, h)"
  shows "disciplined h \<and>
    (r = Done 0 \<and> https_shown h \<and> (live h = {Fd 0, Fd 1, Fd 2} \<or> socket_failed h \<or> connect_failed h)
     \<or> r = Stop (Fault Out_Of_Bounds) \<and> 979 \<le> length hostname \<and> got h = [])"
proof -
  have "wp (https_main junk [name, hostname, port])
    (\<lambda>r h. r = 0 \<and> (live h = {Fd 0, Fd 1, Fd 2} \<or> https_leak h) \<and> disciplined h \<and> https_shown h)
    (\<lambda>e h. e = Fault Out_Of_Bounds \<and> 979 \<le> length hostname \<and> got h = [] \<and> disciplined h) os []"
    by (simp add: https_main_def wp_thenp wp_ret) (rule wp_perform_https_request [OF assms(1,2)])
  with assms(3) show ?thesis by (auto simp: wp_def https_leak_def split: outcome.splits)
qed

theorem https_client_ok_witness:
  "\<exists>h. https_main CHR ''x'' [''https_client'', ''localhost'', ''443''] (sim_os [''HTTP/1.1 200 OK'']) [] = (Done 0, h) \<and>
    disciplined h \<and> https_shown h \<and> (live h = {Fd 0, Fd 1, Fd 2} \<or> socket_failed h \<or> connect_failed h)"
proof -
  obtain r h where h: "https_main CHR ''x'' [''https_client'', ''localhost'', ''443''] (sim_os [''HTTP/1.1 200 OK'']) [] = (r, h)"
    by fastforce
  from https_client_ok [OF lawful_sim_os _ h] h show ?thesis by auto
qed

text \<open>Every shutdown comes after the socket has been closed, on every path.\<close>

theorem https_shuts_down_late: "trace_ok after_close (snd (https_main junk argv os [])) []"
proof (rule traced_run)
  have connect: "traced os after_close (https_connect_all s ps rc)" for s ps rc
    by (induction s ps rc rule: https_connect_all.induct)
      (auto simp: https_print_sockaddr_info_def report_error_def put_out_def put_err_def intro!: traced_intros)
  have response: "traced os after_close (https_exchange p hostname junk)" for p hostname
    unfolding https_exchange_def https_response_def read_all_def read_piece_def read_call_def print_errors_def report_error_def
      sprintf_to_def c_string_def poke_def put_out_def put_err_def
    by (auto intro!: traced_intros)
  show "traced os after_close (https_main junk argv)"
    unfolding https_main_def perform_https_request_def https_connect_def https_handshake_def https_usage_def give_up_def
      report_error_def print_errors_def put_err_def
    by (auto intro!: traced_intros connect response teardown_after_close)
qed

end
