(* ===== verification/Thread_Server.thy ===== *)
theory Thread_Server
  imports Posix
begin

text \<open>
  The thread pool of the multithreaded ping server
  (\<open>my_code/simple_multithreaded_tcp_client_server\<close>: \<open>server_thread.h\<close> and the accept loop of
  \<open>pong_server.c\<close>). Four workers and the accepting thread share a queue of connections, a
  mutex and a condition variable.

  A thread is at a program point; a step executes the code up to the next operation on
  shared state. \<open>worker_do\<close> and \<open>main_do\<close> say what a step does, given what the environment
  answers to its call, or \<open>None\<close> where the thread has to wait; \<open>tstep\<close> interleaves them. What
  the C code may do wrong with a task is a value of \<open>thread_fault\<close>, after which nothing
  happens any more.
\<close>

section \<open>State\<close>

text \<open>A task is the address of a heap cell that holds \<open>accepted_fd\<close>.\<close>

type_synonym task = nat

datatype tid = Main | Worker nat

text \<open>The program points of \<open>thread_func\<close>, named by what happens next.\<close>

datatype wpc = Lock_Queue | Test_Queue | Sleeping | Woken | Take_Task | Unlock_Task task
  | Receive task | Reply task | Shut task | Close_Task task | Free_Task task
  | Lock_Return task | Insert_Return task | Unlock_Return

text \<open>The program points of \<open>main\<close>, from \<open>create_threads\<close> on, with \<open>insert_task\<close> and
  \<open>wakeup_threads\<close>.\<close>

datatype mpc = Create nat | Accept_Next | Set_Timeouts int | Lock_Insert int | Alloc_Task int
  | Insert_Task task | Unlock_Insert | Lock_Signal | Signal_Cond | Unlock_Signal | Exited int

datatype thread_fault = Null_Task | Freed_Task | Closed_Fd

record pool_state =
  task_queue :: "task list"
  task_heap :: "task \<Rightarrow> int option"
  open_fds :: "int set"
  lock_holder :: "tid option"
  workers :: "nat \<Rightarrow> wpc option"
  spawned :: nat
  main_at :: mpc
  broken :: "thread_fault option"

text \<open>\<open>init_task_queue\<close>, with \<open>main\<close> about to create \<open>n\<close> threads\<close>

definition init_task_queue :: "nat \<Rightarrow> pool_state" where
  "init_task_queue n = \<lparr>task_queue = [], task_heap = (\<lambda>t. None), open_fds = {}, lock_holder = None,
     workers = (\<lambda>i. None), spawned = 0, main_at = Create n, broken = None\<rparr>"

section \<open>Operations on the shared state\<close>

definition goto :: "nat \<Rightarrow> wpc \<Rightarrow> pool_state \<Rightarrow> pool_state" where
  "goto i pc s = s\<lparr>workers := (workers s)(i := Some pc)\<rparr>"

definition main_goto :: "mpc \<Rightarrow> pool_state \<Rightarrow> pool_state" where
  "main_goto pc s = s\<lparr>main_at := pc\<rparr>"

definition break_with :: "thread_fault \<Rightarrow> pool_state \<Rightarrow> pool_state" where
  "break_with f s = s\<lparr>broken := Some f\<rparr>"

text \<open>\<open>pthread_mutex_lock\<close> waits for the mutex to be free.\<close>

definition mutex_lock :: "tid \<Rightarrow> pool_state \<Rightarrow> pool_state option" where
  "mutex_lock i s = (if lock_holder s = None then Some (s\<lparr>lock_holder := Some i\<rparr>) else None)"

definition mutex_unlock :: "pool_state \<Rightarrow> pool_state" where
  "mutex_unlock s = s\<lparr>lock_holder := None\<rparr>"

text \<open>The use of \<open>current_task->accepted_fd\<close> in a call.\<close>

definition with_fd :: "task \<Rightarrow> pool_state \<Rightarrow> (int \<Rightarrow> pool_state) \<Rightarrow> pool_state" where
  "with_fd t s f = (case task_heap s t of
      None \<Rightarrow> break_with Freed_Task s
    | Some fd \<Rightarrow> if fd \<in> open_fds s then f fd else break_with Closed_Fd s)"

text \<open>\<open>STAILQ_INSERT_TAIL\<close> writes the link of the task.\<close>

definition insert_tail :: "task \<Rightarrow> pool_state \<Rightarrow> pool_state" where
  "insert_tail t s = (if task_heap s t = None then break_with Freed_Task s
     else s\<lparr>task_queue := task_queue s @ [t]\<rparr>)"

text \<open>\<open>STAILQ_FIRST\<close> and \<open>STAILQ_REMOVE_HEAD\<close>, which dereferences the first element.\<close>

definition take_first :: "nat \<Rightarrow> pool_state \<Rightarrow> pool_state" where
  "take_first i s = (case task_queue s of
      [] \<Rightarrow> break_with Null_Task s
    | t # ts \<Rightarrow> if task_heap s t = None then break_with Freed_Task s
        else goto i (Unlock_Task t) (s\<lparr>task_queue := ts\<rparr>))"

section \<open>Steps\<close>

text \<open>\<open>thread_func\<close>. The test of the queue is an \<open>if\<close>: after the wait nothing is tested.\<close>

fun worker_do :: "nat \<Rightarrow> answer \<Rightarrow> wpc \<Rightarrow> pool_state \<Rightarrow> pool_state option" where
  "worker_do i a Lock_Queue s = map_option (goto i Test_Queue) (mutex_lock (Worker i) s)"
| "worker_do i a Test_Queue s = Some
     (if task_queue s = [] then goto i Sleeping (mutex_unlock s) else goto i Take_Task s)"
| "worker_do i a Sleeping s = None"
| "worker_do i a Woken s = map_option (goto i Take_Task) (mutex_lock (Worker i) s)"
| "worker_do i a Take_Task s = Some (take_first i s)"
| "worker_do i a (Unlock_Task t) s = Some (goto i (Receive t) (mutex_unlock s))"
| "worker_do i a (Receive t) s = Some (with_fd t s (\<lambda>fd.
     if a_ret a > 0
     then if strstr_at (cstr (a_buf a)) ''ping'' \<noteq> None then goto i (Reply t) s else goto i (Lock_Return t) s
     else goto i (Shut t) s))"
| "worker_do i a (Reply t) s = Some (with_fd t s (\<lambda>fd.
     if a_ret a > 0 then goto i (Lock_Return t) s else goto i (Shut t) s))"
| "worker_do i a (Shut t) s = Some (with_fd t s (\<lambda>fd. goto i (Close_Task t) s))"
| "worker_do i a (Close_Task t) s = Some (with_fd t s (\<lambda>fd.
     goto i (Free_Task t) (s\<lparr>open_fds := open_fds s - {fd}\<rparr>)))"
| "worker_do i a (Free_Task t) s = Some (if task_heap s t = None then break_with Freed_Task s
     else goto i Lock_Queue (s\<lparr>task_heap := (task_heap s)(t := None)\<rparr>))"
| "worker_do i a (Lock_Return t) s = map_option (goto i (Insert_Return t)) (mutex_lock (Worker i) s)"
| "worker_do i a (Insert_Return t) s = Some (goto i Unlock_Return (insert_tail t s))"
| "worker_do i a Unlock_Return s = Some (goto i Lock_Queue (mutex_unlock s))"

text \<open>\<open>pthread_cond_signal\<close>: a sleeping worker, if there is one, has to take the mutex before
  its wait returns. The choice of the worker is a parameter.\<close>

definition cond_signal :: "nat \<Rightarrow> pool_state \<Rightarrow> pool_state option" where
  "cond_signal i s =
     (if workers s i = Some Sleeping then Some (goto i Woken s)
      else if \<exists>j < spawned s. workers s j = Some Sleeping then None else Some s)"

text \<open>\<open>create_threads\<close>, and the accept loop with \<open>insert_task\<close> and \<open>wakeup_threads\<close>. A new
  descriptor is not one that is open, a new block not one that is in use.\<close>

fun main_do :: "answer \<Rightarrow> nat \<Rightarrow> mpc \<Rightarrow> pool_state \<Rightarrow> pool_state option" where
  "main_do a i (Create n) s = Some
     (if n = 0 then main_goto Accept_Next s
      else if a_ret a \<noteq> 0 then main_goto (Exited (a_ret a)) s
      else main_goto (Create (n - 1)) (goto (spawned s) Lock_Queue (s\<lparr>spawned := spawned s + 1\<rparr>)))"
| "main_do a i Accept_Next s =
     (if a_ret a = - 1 then Some (main_goto (Exited 1) s)
      else if a_ret a \<in> open_fds s then None
      else Some (main_goto (Set_Timeouts (a_ret a)) (s\<lparr>open_fds := insert (a_ret a) (open_fds s)\<rparr>)))"
| "main_do a i (Set_Timeouts fd) s = Some (main_goto (Lock_Insert fd) s)"
| "main_do a i (Lock_Insert fd) s = map_option (main_goto (Alloc_Task fd)) (mutex_lock Main s)"
| "main_do a i (Alloc_Task fd) s =
     (if a_ptr a = 0 then Some (main_goto (Exited ENOMEM) s)
      else if task_heap s (nat (a_ptr a)) \<noteq> None then None
      else Some (main_goto (Insert_Task (nat (a_ptr a)))
        (s\<lparr>task_heap := (task_heap s)(nat (a_ptr a) := Some fd)\<rparr>)))"
| "main_do a i (Insert_Task t) s = Some (main_goto Unlock_Insert (insert_tail t s))"
| "main_do a i Unlock_Insert s = Some (main_goto Lock_Signal (mutex_unlock s))"
| "main_do a i Lock_Signal s = map_option (main_goto Signal_Cond) (mutex_lock Main s)"
| "main_do a i Signal_Cond s = map_option (main_goto Unlock_Signal) (cond_signal i s)"
| "main_do a i Unlock_Signal s = Some (main_goto Accept_Next (mutex_unlock s))"
| "main_do a i (Exited code) s = None"

text \<open>A process whose \<open>main\<close> has exited, or that has crashed, does nothing more.\<close>

definition running :: "pool_state \<Rightarrow> bool" where
  "running s \<longleftrightarrow> broken s = None \<and> (case main_at s of Exited c \<Rightarrow> False | _ \<Rightarrow> True)"

text \<open>With \<open>spurious\<close>, a wait on the condition may also return without a signal, as POSIX
  allows.\<close>

inductive tstep :: "bool \<Rightarrow> pool_state \<Rightarrow> pool_state \<Rightarrow> bool" for spurious where
  Step_Worker: "running s \<Longrightarrow> workers s i = Some pc \<Longrightarrow> worker_do i a pc s = Some s' \<Longrightarrow> tstep spurious s s'"
| Step_Main: "running s \<Longrightarrow> main_do a i (main_at s) s = Some s' \<Longrightarrow> tstep spurious s s'"
| Step_Spurious: "running s \<Longrightarrow> spurious \<Longrightarrow> workers s i = Some Sleeping \<Longrightarrow> tstep spurious s (goto i Woken s)"

inductive_cases tstepE: "tstep spurious s s'"

section \<open>Ownership\<close>

text \<open>\<open>linear R A\<close>: every element of \<open>A\<close>, and nothing else, has exactly one owner.\<close>

definition linear :: "('p \<Rightarrow> 'x \<Rightarrow> bool) \<Rightarrow> 'x set \<Rightarrow> bool" where
  "linear R A \<longleftrightarrow> (\<forall>x. x \<in> A \<longleftrightarrow> (\<exists>p. R p x)) \<and> (\<forall>x p q. R p x \<longrightarrow> R q x \<longrightarrow> p = q)"

lemma linear_move:
  assumes "linear R A" and "R p x" and "\<And>q y. R' q y = (if y = x then q = p' else R q y)"
  shows "linear R' A"
  using assms unfolding linear_def by metis

lemma linear_new:
  assumes "linear R A" and "x \<notin> A" and "\<And>q y. R' q y = (if y = x then q = p' else R q y)"
  shows "linear R' (insert x A)"
  using assms unfolding linear_def by (auto split: if_splits)

lemma linear_gone:
  assumes "linear R A" and "\<And>q y. R' q y = (y \<noteq> x \<and> R q y)"
  shows "linear R' (A - {x})"
  using assms unfolding linear_def by auto

lemma linear_cong: "linear R A \<Longrightarrow> (\<And>q y. R' q y = R q y) \<Longrightarrow> linear R' A"
  unfolding linear_def by auto

lemma linear_owner: "linear R A \<Longrightarrow> R p x \<Longrightarrow> x \<in> A" "linear R A \<Longrightarrow> R p x \<Longrightarrow> R q x \<Longrightarrow> p = q"
  unfolding linear_def by blast+

text \<open>Where a task is: in the queue, or with the thread that works on it.\<close>

datatype place = In_Queue | Held_By tid

fun held_by :: "wpc \<Rightarrow> task option" where
  "held_by (Unlock_Task t) = Some t"
| "held_by (Receive t) = Some t"
| "held_by (Reply t) = Some t"
| "held_by (Shut t) = Some t"
| "held_by (Close_Task t) = Some t"
| "held_by (Free_Task t) = Some t"
| "held_by (Lock_Return t) = Some t"
| "held_by (Insert_Return t) = Some t"
| "held_by _ = None"

fun holds :: "pool_state \<Rightarrow> place \<Rightarrow> task \<Rightarrow> bool" where
  "holds s In_Queue t = (t \<in> set (task_queue s))"
| "holds s (Held_By Main) t = (main_at s = Insert_Task t)"
| "holds s (Held_By (Worker i)) t = (\<exists>pc. workers s i = Some pc \<and> held_by pc = Some t)"

definition owned :: "pool_state \<Rightarrow> bool" where
  "owned s \<longleftrightarrow> distinct (task_queue s) \<and> linear (holds s) (dom (task_heap s))"

text \<open>Who answers for an open connection: the task that names it, until a worker has closed it,
  or the accepting thread before there is a task.\<close>

fun main_fd :: "mpc \<Rightarrow> int option" where
  "main_fd (Set_Timeouts f) = Some f"
| "main_fd (Lock_Insert f) = Some f"
| "main_fd (Alloc_Task f) = Some f"
| "main_fd _ = None"

definition closing :: "pool_state \<Rightarrow> task \<Rightarrow> bool" where
  "closing s t \<longleftrightarrow> (\<exists>i. workers s i = Some (Free_Task t))"

fun carries :: "pool_state \<Rightarrow> task option \<Rightarrow> int \<Rightarrow> bool" where
  "carries s None f = (main_fd (main_at s) = Some f)"
| "carries s (Some t) f = (task_heap s t = Some f \<and> \<not> closing s t)"

definition fds_agree :: "pool_state \<Rightarrow> bool" where
  "fds_agree s \<longleftrightarrow> linear (carries s) (open_fds s)"

text \<open>The parts of the code between lock and unlock.\<close>

fun critical :: "wpc \<Rightarrow> bool" where
  "critical Test_Queue = True"
| "critical Take_Task = True"
| "critical (Unlock_Task t) = True"
| "critical (Insert_Return t) = True"
| "critical Unlock_Return = True"
| "critical _ = False"

fun main_critical :: "mpc \<Rightarrow> bool" where
  "main_critical (Alloc_Task f) = True"
| "main_critical (Insert_Task t) = True"
| "main_critical Unlock_Insert = True"
| "main_critical Signal_Cond = True"
| "main_critical Unlock_Signal = True"
| "main_critical _ = False"

definition exclusive :: "pool_state \<Rightarrow> bool" where
  "exclusive s \<longleftrightarrow> (\<forall>i pc. workers s i = Some pc \<longrightarrow> critical pc = (lock_holder s = Some (Worker i))) \<and>
     (\<forall>i. lock_holder s = Some (Worker i) \<longrightarrow> workers s i \<noteq> None) \<and>
     (main_critical (main_at s) \<longrightarrow> lock_holder s = Some Main) \<and>
     (\<forall>i. spawned s \<le> i \<longrightarrow> workers s i = None)"

definition pool_inv :: "pool_state \<Rightarrow> bool" where
  "pool_inv s \<longleftrightarrow> exclusive s \<and> owned s \<and> fds_agree s"

section \<open>Every step keeps the invariant\<close>

lemmas pool_ops = goto_def main_goto_def break_with_def mutex_unlock_def

lemma holds_goto [simp]:
  "holds (goto i pc s) p t = (if p = Held_By (Worker i) then held_by pc = Some t else holds s p t)"
  by (cases "(s, p, t)" rule: holds.cases) (auto simp: goto_def)

lemma holds_main [simp]:
  "holds (main_goto pc s) p t = (if p = Held_By Main then pc = Insert_Task t else holds s p t)"
  by (cases "(s, p, t)" rule: holds.cases) (auto simp: main_goto_def)

lemma holds_fields [simp]:
  "holds (s\<lparr>lock_holder := l\<rparr>) p t = holds s p t" "holds (s\<lparr>open_fds := F\<rparr>) p t = holds s p t"
  "holds (s\<lparr>task_heap := H\<rparr>) p t = holds s p t" "holds (s\<lparr>broken := b\<rparr>) p t = holds s p t"
  "holds (s\<lparr>spawned := n\<rparr>) p t = holds s p t"
  "holds (s\<lparr>task_queue := q\<rparr>) p t = (if p = In_Queue then t \<in> set q else holds s p t)"
  by (cases "(s, p, t)" rule: holds.cases; simp)+

lemma holds_worker: "workers s i = Some pc \<Longrightarrow> holds s (Held_By (Worker i)) t = (held_by pc = Some t)"
  by auto

lemma closing_goto:
  assumes "workers s i = Some pc" and "\<And>u. pc \<noteq> Free_Task u"
  shows "closing (goto i pc' s) t = (closing s t \<or> pc' = Free_Task t)"
proof -
  have "j \<noteq> i" if "workers s j = Some (Free_Task t)" for j using that assms by auto
  then show ?thesis by (auto simp: closing_def goto_def)
qed

lemma closing_fields [simp]:
  "closing (s\<lparr>lock_holder := l\<rparr>) = closing s" "closing (s\<lparr>open_fds := F\<rparr>) = closing s" "closing (s\<lparr>task_heap := H\<rparr>) = closing s"
  "closing (s\<lparr>broken := b\<rparr>) = closing s" "closing (s\<lparr>spawned := n\<rparr>) = closing s" "closing (s\<lparr>task_queue := q\<rparr>) = closing s"
  "closing (main_goto pc s) = closing s"
  by (auto simp: closing_def main_goto_def)

lemma goto_sel [simp]:
  "task_queue (goto i pc s) = task_queue s" "task_heap (goto i pc s) = task_heap s" "open_fds (goto i pc s) = open_fds s"
  "lock_holder (goto i pc s) = lock_holder s" "spawned (goto i pc s) = spawned s" "main_at (goto i pc s) = main_at s"
  "broken (goto i pc s) = broken s" "workers (goto i pc s) = (workers s)(i := Some pc)"
  "task_queue (main_goto m s) = task_queue s" "task_heap (main_goto m s) = task_heap s" "open_fds (main_goto m s) = open_fds s"
  "lock_holder (main_goto m s) = lock_holder s" "spawned (main_goto m s) = spawned s" "main_at (main_goto m s) = m"
  "broken (main_goto m s) = broken s" "workers (main_goto m s) = workers s"
  by (simp_all add: goto_def main_goto_def)

text \<open>A worker that holds a task has an allocated task, which nobody else has, and an open
  descriptor until it has closed it.\<close>

lemma held_task:
  assumes "pool_inv s" and "workers s i = Some pc" and "held_by pc = Some t"
  shows "task_heap s t \<noteq> None" and "t \<notin> set (task_queue s)" and "closing s t \<longleftrightarrow> pc = Free_Task t"
proof -
  have lin: "linear (holds s) (dom (task_heap s))" using assms(1) by (simp add: pool_inv_def owned_def)
  have h: "holds s (Held_By (Worker i)) t" using assms by simp
  from linear_owner(1) [OF lin h] show "task_heap s t \<noteq> None" by auto
  from linear_owner(2) [OF lin h, of In_Queue] show "t \<notin> set (task_queue s)" by auto
  have "j = i" if "workers s j = Some (Free_Task t)" for j
    using linear_owner(2) [OF lin h, of "Held_By (Worker j)"] that by auto
  then show "closing s t \<longleftrightarrow> pc = Free_Task t" using assms(2) by (auto simp: closing_def)
qed

lemma held_fd:
  assumes "pool_inv s" and "workers s i = Some pc" and "held_by pc = Some t" and "pc \<noteq> Free_Task t"
  obtains fd where "task_heap s t = Some fd" and "\<And>f. with_fd t s f = f fd"
proof -
  from held_task [OF assms(1-3)] assms(4) obtain fd where fd: "task_heap s t = Some fd" "\<not> closing s t" by auto
  then have "carries s (Some t) fd" by simp
  with assms(1) have "fd \<in> open_fds s" using linear_owner(1) by (fastforce simp: pool_inv_def fds_agree_def)
  with fd show ?thesis by (intro that) (simp_all add: with_fd_def)
qed

text \<open>A worker moves on with the task it has.\<close>

lemma exclusive_goto:
  assumes "exclusive s" and "workers s i = Some pc" and "critical pc' = critical pc"
  shows "exclusive (goto i pc' s)"
proof -
  have "i < spawned s" using assms(1,2) unfolding exclusive_def by (metis linorder_not_less option.distinct(1))
  moreover have "critical pc' = (lock_holder s = Some (Worker i))" using assms by (auto simp: exclusive_def)
  ultimately show ?thesis using assms(1) unfolding exclusive_def goto_sel by auto
qed

lemma owned_goto:
  assumes "owned s" and "workers s i = Some pc" and "held_by pc' = held_by pc"
  shows "owned (goto i pc' s)"
proof -
  have "holds (goto i pc' s) p t = holds s p t" for p t
    using assms(2,3) by simp
  with assms(1) show ?thesis unfolding owned_def goto_sel by (blast intro: linear_cong)
qed

lemma fds_goto:
  assumes "fds_agree s" and "workers s i = Some pc" and "\<And>u. pc \<noteq> Free_Task u" "\<And>u. pc' \<noteq> Free_Task u"
  shows "fds_agree (goto i pc' s)"
proof -
  have "carries (goto i pc' s) p f = carries s p f" for p f
    using closing_goto [OF assms(2,3), of pc'] assms(4) by (cases p) auto
  with assms(1) show ?thesis unfolding fds_agree_def goto_sel by (blast intro: linear_cong)
qed

lemma goto_inv:
  assumes "pool_inv s" and "workers s i = Some pc" and "held_by pc' = held_by pc"
    and "critical pc' = critical pc" and "\<And>u. pc \<noteq> Free_Task u" "\<And>u. pc' \<noteq> Free_Task u"
  shows "pool_inv (goto i pc' s)"
  using assms(1) exclusive_goto [OF _ assms(2,4)] owned_goto [OF _ assms(2,3)] fds_goto [OF _ assms(2,5,6)]
  by (auto simp: pool_inv_def)

text \<open>The mutex.\<close>

lemma carries_lock [simp]: "carries (s\<lparr>lock_holder := l\<rparr>) p f = carries s p f" "carries (s\<lparr>broken := b\<rparr>) p f = carries s p f"
  by (cases p, simp_all)+

lemma inv_lock [simp]:
  "owned (s\<lparr>lock_holder := l\<rparr>) = owned s" "fds_agree (s\<lparr>lock_holder := l\<rparr>) = fds_agree s"
  "owned (break_with e s) = owned s" "fds_agree (break_with e s) = fds_agree s" "exclusive (break_with e s) = exclusive s"
  by (simp_all add: owned_def fds_agree_def exclusive_def break_with_def linear_def)

lemma inv_fields [simp]:
  "exclusive (s\<lparr>task_queue := q\<rparr>) = exclusive s" "exclusive (s\<lparr>task_heap := H\<rparr>) = exclusive s"
  "exclusive (s\<lparr>open_fds := F\<rparr>) = exclusive s" "owned (s\<lparr>open_fds := F\<rparr>) = owned s"
  by (simp_all add: exclusive_def owned_def linear_def)

lemma pool_inv_break [simp]: "pool_inv (break_with e s) = pool_inv s"
  by (simp add: pool_inv_def)

lemma exclusive_lock:
  assumes "exclusive s" and "lock_holder s = None" and "workers s i = Some pc" and "critical pc'"
  shows "exclusive (goto i pc' (s\<lparr>lock_holder := Some (Worker i)\<rparr>))"
proof -
  have "i < spawned s" using assms(1,3) unfolding exclusive_def by (metis linorder_not_less option.distinct(1))
  with assms show ?thesis by (auto simp: exclusive_def)
qed

lemma exclusive_unlock:
  assumes "exclusive s" and "lock_holder s = Some (Worker i)" and "\<not> critical pc'"
  shows "exclusive (goto i pc' (s\<lparr>lock_holder := None\<rparr>))"
proof -
  have "workers s i \<noteq> None" using assms(1,2) by (auto simp: exclusive_def)
  then have "i < spawned s" using assms(1) unfolding exclusive_def by (metis linorder_not_less)
  with assms show ?thesis by (auto simp: exclusive_def)
qed

lemma lock_inv:
  assumes "pool_inv s" and "workers s i = Some pc" and "lock_holder s = None" and "held_by pc' = held_by pc"
    and "critical pc'" and "\<And>u. pc \<noteq> Free_Task u" "\<And>u. pc' \<noteq> Free_Task u"
  shows "pool_inv (goto i pc' (s\<lparr>lock_holder := Some (Worker i)\<rparr>))"
  using assms(1) exclusive_lock [OF _ assms(3,2,5)] owned_goto [of "s\<lparr>lock_holder := Some (Worker i)\<rparr>" i pc pc']
    fds_goto [of "s\<lparr>lock_holder := Some (Worker i)\<rparr>" i pc pc'] assms(2,4,6,7)
  by (auto simp: pool_inv_def)

lemma unlock_inv:
  assumes "pool_inv s" and "workers s i = Some pc" and "critical pc" and "held_by pc' = held_by pc"
    and "\<not> critical pc'" and "\<And>u. pc' \<noteq> Free_Task u"
  shows "pool_inv (goto i pc' (s\<lparr>lock_holder := None\<rparr>))"
proof -
  have "lock_holder s = Some (Worker i)" using assms(1-3) by (auto simp: pool_inv_def exclusive_def)
  moreover have "pc \<noteq> Free_Task u" for u using assms(3) by auto
  ultimately show ?thesis
    using assms(1) exclusive_unlock [OF _ _ assms(5)] owned_goto [of "s\<lparr>lock_holder := None\<rparr>" i pc pc']
      fds_goto [of "s\<lparr>lock_holder := None\<rparr>" i pc pc'] assms(2,4,6)
    by (auto simp: pool_inv_def)
qed

text \<open>The steps that move, create or end a task.\<close>

lemma take_inv:
  assumes inv: "pool_inv s" and pc: "workers s i = Some Take_Task" and q: "task_queue s = t # ts"
  shows "pool_inv (goto i (Unlock_Task t) (s\<lparr>task_queue := ts\<rparr>))"
proof -
  let ?s = "goto i (Unlock_Task t) (s\<lparr>task_queue := ts\<rparr>)"
  have "exclusive ?s" using exclusive_goto [of "s\<lparr>task_queue := ts\<rparr>" i Take_Task "Unlock_Task t"] inv pc
    by (simp add: pool_inv_def)
  moreover have "owned ?s"
    unfolding owned_def
  proof
    have d: "distinct (t # ts)" and lin: "linear (holds s) (dom (task_heap s))" using inv q by (auto simp: pool_inv_def owned_def)
    show "distinct (task_queue ?s)" using d by simp
    have "holds ?s p u = (if u = t then p = Held_By (Worker i) else holds s p u)" for p u
    proof -
      have "holds s p t \<Longrightarrow> p = In_Queue" using linear_owner(2) [OF lin, of In_Queue t p] q by simp
      with d q pc show ?thesis by auto
    qed
    then have "linear (holds ?s) (dom (task_heap s))" by (rule linear_move [OF lin, of In_Queue, rotated]) (use q in simp)
    then show "linear (holds ?s) (dom (task_heap ?s))" by simp
  qed
  moreover have "fds_agree ?s"
  proof -
    have "fds_agree (s\<lparr>task_queue := ts\<rparr>)"
    proof -
      have "carries (s\<lparr>task_queue := ts\<rparr>) p f = carries s p f" for p f by (cases p) simp_all
      with inv show ?thesis by (simp add: pool_inv_def fds_agree_def linear_def)
    qed
    then show ?thesis using pc fds_goto [of "s\<lparr>task_queue := ts\<rparr>" i Take_Task "Unlock_Task t"] by simp
  qed
  ultimately show ?thesis by (simp add: pool_inv_def)
qed

lemma return_inv:
  assumes inv: "pool_inv s" and pc: "workers s i = Some (Insert_Return t)"
  shows "pool_inv (goto i Unlock_Return (s\<lparr>task_queue := task_queue s @ [t]\<rparr>))"
proof -
  let ?s1 = "s\<lparr>task_queue := task_queue s @ [t]\<rparr>"
  let ?s = "goto i Unlock_Return ?s1"
  have "exclusive ?s" using exclusive_goto [of ?s1 i "Insert_Return t" Unlock_Return] inv pc
    by (simp add: pool_inv_def)
  moreover have "owned ?s"
    unfolding owned_def
  proof
    have d: "distinct (task_queue s)" and lin: "linear (holds s) (dom (task_heap s))" using inv by (auto simp: pool_inv_def owned_def)
    have t: "holds s (Held_By (Worker i)) t" using pc by simp
    have only: "holds s p t \<Longrightarrow> p = Held_By (Worker i)" for p using linear_owner(2) [OF lin t] by auto
    show "distinct (task_queue ?s)" using d only [of In_Queue] by auto
    have "holds ?s p u = (if u = t then p = In_Queue else holds s p u)" for p u
    proof (cases "p = In_Queue \<or> p = Held_By (Worker i)")
      case True
      then show ?thesis using pc by auto
    next
      case False
      then have "holds ?s p u = holds s p u" by simp
      with False only [of p] show ?thesis by auto
    qed
    then have "linear (holds ?s) (dom (task_heap s))" by (rule linear_move [OF lin t])
    then show "linear (holds ?s) (dom (task_heap ?s))" by simp
  qed
  moreover have "fds_agree ?s"
  proof -
    have "carries ?s1 p f = carries s p f" for p f by (cases p) simp_all
    with inv have "fds_agree ?s1" by (simp add: pool_inv_def fds_agree_def linear_def)
    then show ?thesis using pc fds_goto [of ?s1 i "Insert_Return t" Unlock_Return] by simp
  qed
  ultimately show ?thesis by (simp add: pool_inv_def)
qed

lemma close_inv:
  assumes inv: "pool_inv s" and pc: "workers s i = Some (Close_Task t)" and fd: "task_heap s t = Some fd"
  shows "pool_inv (goto i (Free_Task t) (s\<lparr>open_fds := open_fds s - {fd}\<rparr>))"
proof -
  let ?s1 = "s\<lparr>open_fds := open_fds s - {fd}\<rparr>"
  let ?s = "goto i (Free_Task t) ?s1"
  have "exclusive ?s" using exclusive_goto [of ?s1 i "Close_Task t" "Free_Task t"] inv pc
    by (simp add: pool_inv_def)
  moreover have "owned ?s"
    using owned_goto [of ?s1 i "Close_Task t" "Free_Task t"] inv pc by (simp add: pool_inv_def)
  moreover have "fds_agree ?s"
  proof -
    have lin: "linear (carries s) (open_fds s)" using inv by (simp add: pool_inv_def fds_agree_def)
    have t: "carries s (Some t) fd" using fd held_task(3) [OF inv pc, of t] by simp
    have cl: "closing ?s u = (closing s u \<or> u = t)" for u
      using closing_goto [of ?s1 i "Close_Task t" "Free_Task t" u] pc by auto
    have "carries ?s p f = (f \<noteq> fd \<and> carries s p f)" for p f
      using linear_owner(2) [OF lin t, of p] fd t by (cases p) (auto simp: cl)
    from linear_gone [OF lin this] show ?thesis by (simp add: fds_agree_def)
  qed
  ultimately show ?thesis by (simp add: pool_inv_def)
qed

lemma free_inv:
  assumes inv: "pool_inv s" and pc: "workers s i = Some (Free_Task t)"
  shows "pool_inv (goto i Lock_Queue (s\<lparr>task_heap := (task_heap s)(t := None)\<rparr>))"
proof -
  let ?s1 = "s\<lparr>task_heap := (task_heap s)(t := None)\<rparr>"
  let ?s = "goto i Lock_Queue ?s1"
  have lin: "linear (holds s) (dom (task_heap s))" using inv by (simp add: pool_inv_def owned_def)
  have t: "holds s (Held_By (Worker i)) t" using pc by simp
  have only: "holds s p t \<Longrightarrow> p = Held_By (Worker i)" for p using linear_owner(2) [OF lin t] by auto
  have "exclusive ?s" using exclusive_goto [of ?s1 i "Free_Task t" Lock_Queue] inv pc
    by (simp add: pool_inv_def)
  moreover have "owned ?s"
  proof -
    have "holds ?s p u = (u \<noteq> t \<and> holds s p u)" for p u
      using pc only [of p] by (cases "p = Held_By (Worker i)") auto
    then have "linear (holds ?s) (dom (task_heap s) - {t})" by (rule linear_gone [OF lin])
    with inv show ?thesis by (simp add: owned_def pool_inv_def)
  qed
  moreover have "fds_agree ?s"
  proof -
    have "closing s u = closing ?s u" if "u \<noteq> t" for u
    proof -
      have "j \<noteq> i" if "workers s j = Some (Free_Task u)" for j using that pc \<open>u \<noteq> t\<close> by auto
      then show ?thesis by (auto simp: closing_def)
    qed
    moreover have "closing s t" using pc by (auto simp: closing_def)
    ultimately have cl: "closing s u = (closing ?s u \<or> u = t)" for u by (cases "u = t") auto
    have "carries ?s p f = carries s p f" for p f
      by (cases p) (auto simp: cl)
    with inv show ?thesis by (simp add: fds_agree_def pool_inv_def linear_def)
  qed
  ultimately show ?thesis by (simp add: pool_inv_def)
qed

text \<open>The accepting thread.\<close>

lemma carries_main [simp]:
  "carries (main_goto m s) p f = (if p = None then main_fd m = Some f else carries s p f)"
  by (cases p) auto

lemma exclusive_main:
  assumes "exclusive s" and "main_critical m \<Longrightarrow> lock_holder s = Some Main"
  shows "exclusive (main_goto m s)"
  using assms by (auto simp: exclusive_def)

lemma owned_main:
  assumes "owned s" and "\<And>t. (m = Insert_Task t) = (main_at s = Insert_Task t)"
  shows "owned (main_goto m s)"
proof -
  have "holds (main_goto m s) p t = holds s p t" for p t using assms(2) by simp
  with assms(1) show ?thesis unfolding owned_def goto_sel by (blast intro: linear_cong)
qed

lemma fds_main:
  assumes "fds_agree s" and "main_fd m = main_fd (main_at s)"
  shows "fds_agree (main_goto m s)"
proof -
  have "carries (main_goto m s) p f = carries s p f" for p f using assms(2) by simp
  with assms(1) show ?thesis unfolding fds_agree_def goto_sel by (blast intro: linear_cong)
qed

lemma main_goto_inv:
  assumes "pool_inv s" and "main_fd m = main_fd (main_at s)" and "\<And>t. (m = Insert_Task t) = (main_at s = Insert_Task t)"
    and "main_critical m \<Longrightarrow> lock_holder s = Some Main"
  shows "pool_inv (main_goto m s)"
  using assms exclusive_main owned_main fds_main by (auto simp: pool_inv_def)

lemma main_lock_inv:
  assumes "pool_inv s" and "lock_holder s = None" and "main_fd m = main_fd (main_at s)"
    and "\<And>t. (m = Insert_Task t) = (main_at s = Insert_Task t)"
  shows "pool_inv (main_goto m (s\<lparr>lock_holder := Some Main\<rparr>))"
proof -
  have "exclusive (s\<lparr>lock_holder := Some Main\<rparr>)" using assms(1,2) by (auto simp: pool_inv_def exclusive_def)
  then show ?thesis using assms by (intro main_goto_inv) (simp_all add: pool_inv_def)
qed

lemma exclusive_main_unlock:
  assumes "exclusive s" and "main_critical (main_at s)" and "\<not> main_critical m"
  shows "exclusive (main_goto m (s\<lparr>lock_holder := None\<rparr>))"
proof -
  have l: "lock_holder s = Some Main" using assms(1,2) by (simp add: exclusive_def)
  have "\<not> critical pc" if "workers s i = Some pc" for i pc using assms(1) that l by (auto simp: exclusive_def)
  moreover have "workers s i = None" if "spawned s \<le> i" for i using assms(1) that by (simp add: exclusive_def)
  ultimately show ?thesis using assms(3) by (simp add: exclusive_def)
qed

lemma main_unlock_inv:
  assumes "pool_inv s" and "main_critical (main_at s)" and "\<not> main_critical m" and "main_fd m = main_fd (main_at s)"
    and "\<And>t. (m = Insert_Task t) = (main_at s = Insert_Task t)"
  shows "pool_inv (main_goto m (s\<lparr>lock_holder := None\<rparr>))"
proof -
  have "exclusive (main_goto m (s\<lparr>lock_holder := None\<rparr>))" using assms(1-3) by (simp add: pool_inv_def exclusive_main_unlock)
  moreover have "owned (main_goto m (s\<lparr>lock_holder := None\<rparr>))" "fds_agree (main_goto m (s\<lparr>lock_holder := None\<rparr>))"
    using assms owned_main [of "s\<lparr>lock_holder := None\<rparr>" m] fds_main [of "s\<lparr>lock_holder := None\<rparr>" m] by (simp_all add: pool_inv_def)
  ultimately show ?thesis by (simp add: pool_inv_def)
qed

lemma spawn_inv:
  assumes inv: "pool_inv s" and m: "main_at s = Create n"
  shows "pool_inv (main_goto (Create k) (goto (spawned s) Lock_Queue (s\<lparr>spawned := spawned s + 1\<rparr>)))"
proof -
  let ?s1 = "goto (spawned s) Lock_Queue (s\<lparr>spawned := spawned s + 1\<rparr>)"
  have new: "workers s (spawned s) = None" using inv by (simp add: pool_inv_def exclusive_def)
  then have "lock_holder s \<noteq> Some (Worker (spawned s))" using inv by (auto simp: pool_inv_def exclusive_def)
  then have "exclusive ?s1" using inv by (auto simp: pool_inv_def exclusive_def)
  moreover have "holds ?s1 p t = holds s p t" for p t using new by simp
  then have "owned ?s1" using inv unfolding pool_inv_def owned_def by (auto intro: linear_cong)
  moreover have "closing ?s1 t = closing s t" for t
  proof -
    have "j \<noteq> spawned s" if "workers s j = Some (Free_Task t)" for j using that new by auto
    then show ?thesis by (auto simp: closing_def)
  qed
  then have "carries ?s1 p f = carries s p f" for p f by (cases p) simp_all
  then have "fds_agree ?s1" using inv unfolding pool_inv_def fds_agree_def by (auto intro: linear_cong)
  ultimately have "pool_inv ?s1" by (simp add: pool_inv_def)
  then show ?thesis by (rule main_goto_inv) (simp_all add: m)
qed

lemma accept_inv:
  assumes inv: "pool_inv s" and m: "main_at s = Accept_Next" and new: "f \<notin> open_fds s"
  shows "pool_inv (main_goto (Set_Timeouts f) (s\<lparr>open_fds := insert f (open_fds s)\<rparr>))"
proof -
  let ?s1 = "s\<lparr>open_fds := insert f (open_fds s)\<rparr>"
  let ?s = "main_goto (Set_Timeouts f) ?s1"
  have lin: "linear (carries s) (open_fds s)" using inv by (simp add: pool_inv_def fds_agree_def)
  have none: "\<not> carries s p f" for p using linear_owner(1) [OF lin] new by blast
  have "carries ?s p g = (if g = f then p = None else carries s p g)" for p g
    using none [of p] m by (cases p) auto
  then have "linear (carries ?s) (insert f (open_fds s))" by (rule linear_new [OF lin new])
  then have "fds_agree ?s" by (simp add: fds_agree_def)
  moreover have "exclusive ?s" "owned ?s" using inv m by (auto simp: pool_inv_def intro!: exclusive_main owned_main)
  ultimately show ?thesis by (simp add: pool_inv_def)
qed

lemma alloc_inv:
  assumes inv: "pool_inv s" and m: "main_at s = Alloc_Task f" and new: "task_heap s t = None"
  shows "pool_inv (main_goto (Insert_Task t) (s\<lparr>task_heap := (task_heap s)(t := Some f)\<rparr>))"
proof -
  let ?s1 = "s\<lparr>task_heap := (task_heap s)(t := Some f)\<rparr>"
  let ?s = "main_goto (Insert_Task t) ?s1"
  have lin: "linear (holds s) (dom (task_heap s))" and lin': "linear (carries s) (open_fds s)"
    using inv by (auto simp: pool_inv_def owned_def fds_agree_def)
  have no: "\<not> holds s p t" for p using linear_owner(1) [OF lin] new by auto
  have "holds ?s p u = (if u = t then p = Held_By Main else holds s p u)" for p u
    using no [of p] m by auto
  then have "linear (holds ?s) (insert t (dom (task_heap s)))" by (rule linear_new [OF lin, rotated]) (use new in auto)
  then have "owned ?s" using inv by (simp add: owned_def pool_inv_def)
  moreover have "fds_agree ?s"
  proof -
    have f: "carries s None f" using m by simp
    have "workers s i \<noteq> Some (Free_Task t)" for i using no [of "Held_By (Worker i)"] by auto
    then have "\<not> closing s t" by (simp add: closing_def)
    then have "carries ?s p g = (if g = f then p = Some t else carries s p g)" for p g
      using linear_owner(2) [OF lin' f, of p] m new by (cases p) auto
    then have "linear (carries ?s) (open_fds s)" by (rule linear_move [OF lin' f])
    then show ?thesis by (simp add: fds_agree_def)
  qed
  moreover have "lock_holder s = Some Main" using inv m by (auto simp: pool_inv_def exclusive_def)
  then have "exclusive ?s" using inv by (intro exclusive_main) (simp_all add: pool_inv_def)
  ultimately show ?thesis by (simp add: pool_inv_def)
qed

lemma insert_inv:
  assumes inv: "pool_inv s" and m: "main_at s = Insert_Task t"
  shows "pool_inv (main_goto Unlock_Insert (insert_tail t s)) \<and> broken (insert_tail t s) = broken s"
proof -
  let ?s1 = "s\<lparr>task_queue := task_queue s @ [t]\<rparr>"
  let ?s = "main_goto Unlock_Insert ?s1"
  have d: "distinct (task_queue s)" and lin: "linear (holds s) (dom (task_heap s))" using inv by (auto simp: pool_inv_def owned_def)
  have t: "holds s (Held_By Main) t" using m by simp
  from linear_owner(1) [OF lin t] have ok: "insert_tail t s = ?s1" by (auto simp: insert_tail_def)
  have only: "holds s p t \<Longrightarrow> p = Held_By Main" for p using linear_owner(2) [OF lin t] by auto
  have "holds ?s p u = (if u = t then p = In_Queue else holds s p u)" for p u
  proof (cases "p = In_Queue \<or> p = Held_By Main")
    case True
    then show ?thesis using m by auto
  next
    case False
    then have "holds ?s p u = holds s p u" by simp
    with False only [of p] show ?thesis by auto
  qed
  then have "linear (holds ?s) (dom (task_heap s))" by (rule linear_move [OF lin t])
  moreover have "distinct (task_queue ?s)" using d only [of In_Queue] by auto
  ultimately have "owned ?s" by (simp add: owned_def)
  moreover have "carries ?s p f = carries s p f" for p f using m by (cases p) auto
  then have "fds_agree ?s" using inv by (auto simp: fds_agree_def pool_inv_def intro: linear_cong)
  moreover have "lock_holder s = Some Main" using inv m by (auto simp: pool_inv_def exclusive_def)
  then have "exclusive ?s" using inv by (intro exclusive_main) (simp_all add: pool_inv_def)
  ultimately show ?thesis by (simp add: pool_inv_def ok)
qed

section \<open>The steps together\<close>

lemma mutex_lock_Some: "mutex_lock i s = Some s' \<longleftrightarrow> lock_holder s = None \<and> s' = s\<lparr>lock_holder := Some i\<rparr>"
  by (auto simp: mutex_lock_def)

lemma worker_inv:
  assumes inv: "pool_inv s" and pc: "workers s i = Some pc" and ok: "broken s = None" and step: "worker_do i a pc s = Some s'"
  shows "pool_inv s' \<and> main_at s' = main_at s \<and>
    (broken s' = None \<or> broken s' = Some Null_Task \<and> pc = Take_Task \<and> task_queue s = [])"
proof (cases pc)
  case Lock_Queue
  then show ?thesis using lock_inv [OF inv pc] step ok by (auto simp: mutex_lock_Some)
next
  case Test_Queue
  then show ?thesis using unlock_inv [OF inv pc, of Sleeping] goto_inv [OF inv pc, of Take_Task] step ok
    by (auto simp: mutex_unlock_def split: if_splits)
next
  case Sleeping
  then show ?thesis using step by simp
next
  case Woken
  then show ?thesis using lock_inv [OF inv pc] step ok by (auto simp: mutex_lock_Some)
next
  case Take_Task
  show ?thesis
  proof (cases "task_queue s")
    case Nil
    then show ?thesis using step Take_Task inv by (auto simp: take_first_def) (simp_all add: break_with_def)
  next
    case (Cons t ts)
    have "linear (holds s) (dom (task_heap s))" using inv by (simp add: pool_inv_def owned_def)
    from linear_owner(1) [OF this, of In_Queue t] Cons have "task_heap s t \<noteq> None" by auto
    with take_inv [OF inv pc [unfolded Take_Task] Cons] step Take_Task Cons ok show ?thesis by (auto simp: take_first_def)
  qed
next
  case (Unlock_Task t)
  then show ?thesis using unlock_inv [OF inv pc, of "Receive t"] step ok by (auto simp: mutex_unlock_def)
next
  case (Receive t)
  obtain fd where w: "\<And>f. with_fd t s f = f fd" by (rule held_fd [OF inv pc, of t]) (simp_all add: Receive)
  show ?thesis using goto_inv [OF inv pc] step ok Receive by (auto simp: w split: if_splits)
next
  case (Reply t)
  obtain fd where w: "\<And>f. with_fd t s f = f fd" by (rule held_fd [OF inv pc, of t]) (simp_all add: Reply)
  show ?thesis using goto_inv [OF inv pc] step ok Reply by (auto simp: w split: if_splits)
next
  case (Shut t)
  obtain fd where w: "\<And>f. with_fd t s f = f fd" by (rule held_fd [OF inv pc, of t]) (simp_all add: Shut)
  show ?thesis using goto_inv [OF inv pc, of "Close_Task t"] step ok Shut by (auto simp: w)
next
  case (Close_Task t)
  obtain fd where fd: "task_heap s t = Some fd" and w: "\<And>f. with_fd t s f = f fd"
    by (rule held_fd [OF inv pc, of t]) (simp_all add: Close_Task)
  show ?thesis using close_inv [OF inv pc [unfolded Close_Task] fd] step ok Close_Task by (auto simp: w)
next
  case (Free_Task t)
  with held_task(1) [OF inv pc, of t] have "task_heap s t \<noteq> None" by simp
  then show ?thesis using free_inv [OF inv pc [unfolded Free_Task]] step ok Free_Task by auto
next
  case (Lock_Return t)
  then show ?thesis using lock_inv [OF inv pc] step ok by (auto simp: mutex_lock_Some)
next
  case (Insert_Return t)
  with held_task(1) [OF inv pc, of t] have "task_heap s t \<noteq> None" by simp
  then show ?thesis using return_inv [OF inv pc [unfolded Insert_Return]] step ok Insert_Return by (auto simp: insert_tail_def)
next
  case Unlock_Return
  then show ?thesis using unlock_inv [OF inv pc, of Lock_Queue] step ok by (auto simp: mutex_unlock_def)
qed

lemma main_inv:
  assumes inv: "pool_inv s" and ok: "broken s = None" and step: "main_do a i (main_at s) s = Some s'"
  shows "(pool_inv s' \<or> (\<exists>c. main_at s' = Exited c)) \<and> broken s' = None"
proof (cases "main_at s")
  case (Create n)
  then show ?thesis
    using step ok main_goto_inv [OF inv, of Accept_Next] spawn_inv [OF inv Create] by (auto split: if_splits)
next
  case Accept_Next
  then show ?thesis using step ok accept_inv [OF inv Accept_Next] by (auto split: if_splits)
next
  case (Set_Timeouts f)
  then show ?thesis using step ok main_goto_inv [OF inv, of "Lock_Insert f"] by auto
next
  case (Lock_Insert f)
  then show ?thesis using step ok main_lock_inv [OF inv, of "Alloc_Task f"] by (auto simp: mutex_lock_Some)
next
  case (Alloc_Task f)
  then show ?thesis using step ok alloc_inv [OF inv Alloc_Task] by (auto split: if_splits)
next
  case (Insert_Task t)
  then show ?thesis using step ok insert_inv [OF inv Insert_Task] by auto
next
  case Unlock_Insert
  then show ?thesis using step ok main_unlock_inv [OF inv, of Lock_Signal] by (auto simp: mutex_unlock_def)
next
  case Lock_Signal
  then show ?thesis using step ok main_lock_inv [OF inv, of Signal_Cond] by (auto simp: mutex_lock_Some)
next
  case Signal_Cond
  have held: "lock_holder s = Some Main" using inv Signal_Cond by (auto simp: pool_inv_def exclusive_def)
  have "pool_inv (main_goto Unlock_Signal s)" using Signal_Cond held by (intro main_goto_inv [OF inv]) simp_all
  moreover have "pool_inv (main_goto Unlock_Signal (goto i Woken s))" if "workers s i = Some Sleeping"
    using Signal_Cond held by (intro main_goto_inv goto_inv [OF inv that]) simp_all
  ultimately show ?thesis using step ok Signal_Cond by (auto simp: cond_signal_def split: if_splits)
next
  case Unlock_Signal
  then show ?thesis using step ok main_unlock_inv [OF inv, of Accept_Next] by (auto simp: mutex_unlock_def)
next
  case (Exited c)
  then show ?thesis using step by simp
qed

section \<open>Reachable states\<close>

inductive reach :: "bool \<Rightarrow> nat \<Rightarrow> pool_state \<Rightarrow> bool" for spurious n where
  Reach_Init: "reach spurious n (init_task_queue n)"
| Reach_Step: "reach spurious n s \<Longrightarrow> tstep spurious s s' \<Longrightarrow> reach spurious n s'"

lemma init_inv: "pool_inv (init_task_queue n)"
proof -
  have "\<not> holds (init_task_queue n) p t" for p t
    by (cases "(init_task_queue n, p, t)" rule: holds.cases) (auto simp: init_task_queue_def)
  moreover have "\<not> carries (init_task_queue n) p f" for p f by (cases p) (auto simp: init_task_queue_def)
  ultimately show ?thesis
    by (simp add: pool_inv_def owned_def fds_agree_def linear_def) (simp add: exclusive_def init_task_queue_def)
qed

lemma tstep_inv:
  assumes "tstep b s s'" and "pool_inv s"
  shows "(pool_inv s' \<or> (\<exists>c. main_at s' = Exited c)) \<and> (broken s' = None \<or> broken s' = Some Null_Task)"
  using assms(1)
proof cases
  case (Step_Worker i pc a)
  then show ?thesis using worker_inv [OF assms(2), of i pc a s'] by (auto simp: running_def)
next
  case (Step_Main a i)
  then show ?thesis using main_inv [OF assms(2), of a i s'] by (auto simp: running_def)
next
  case (Step_Spurious i)
  then show ?thesis using goto_inv [OF assms(2), of i Sleeping Woken] by (auto simp: running_def)
qed

lemma reach_inv:
  "reach b n s \<Longrightarrow> (pool_inv s \<or> (\<exists>c. main_at s = Exited c)) \<and> (broken s = None \<or> broken s = Some Null_Task)"
proof (induction rule: reach.induct)
  case Reach_Init
  then show ?case by (simp add: init_inv) (simp add: init_task_queue_def)
next
  case (Reach_Step s s')
  from Reach_Step.hyps(2) have "running s" by cases auto
  with Reach_Step.IH have "pool_inv s" by (auto simp: running_def)
  with Reach_Step.hyps(2) show ?case by (rule tstep_inv)
qed

lemma reach_running: "reach b n s \<Longrightarrow> running s \<Longrightarrow> pool_inv s"
  using reach_inv by (fastforce simp: running_def)

text \<open>A schedule: whose turn it is, and what the environment answers.\<close>

datatype turn = Turn_Worker nat answer | Turn_Main answer nat

fun run_schedule :: "turn list \<Rightarrow> pool_state \<Rightarrow> pool_state option" where
  "run_schedule [] s = Some s"
| "run_schedule (Turn_Worker i a # ts) s = (if \<not> running s then None else
     case workers s i of None \<Rightarrow> None
     | Some pc \<Rightarrow> (case worker_do i a pc s of None \<Rightarrow> None | Some s' \<Rightarrow> run_schedule ts s'))"
| "run_schedule (Turn_Main a i # ts) s = (if \<not> running s then None else
     case main_do a i (main_at s) s of None \<Rightarrow> None | Some s' \<Rightarrow> run_schedule ts s')"

lemma run_schedule_reach: "run_schedule ts s = Some s' \<Longrightarrow> reach b n s \<Longrightarrow> reach b n s'"
proof (induction ts s rule: run_schedule.induct)
  case (2 i a ts s)
  from 2(2) obtain pc s1 where s1: "running s" "workers s i = Some pc" "worker_do i a pc s = Some s1" "run_schedule ts s1 = Some s'"
    by (auto split: if_splits option.splits)
  with 2(3) have "reach b n s1" by (blast intro: Reach_Step Step_Worker)
  with 2(1) s1 show ?case by simp
next
  case (3 a i ts s)
  from 3(2) obtain s1 where s1: "running s" "main_do a i (main_at s) s = Some s1" "run_schedule ts s1 = Some s'"
    by (auto split: if_splits option.splits)
  with 3(3) have "reach b n s1" by (blast intro: Reach_Step Step_Main)
  with 3(1) s1 show ?case by simp
qed simp

section \<open>The pool as its clients see it\<close>

text \<open>
  The contract of the pool: a connection enters, waits in line, is taken by one worker and
  either goes back to the end of the line or leaves.
\<close>

record pool =
  idle :: "int list"
  busy :: "nat \<Rightarrow> int option"
  entering :: "int option"

inductive pool_step :: "pool \<Rightarrow> pool \<Rightarrow> bool" where
  Arrive: "entering p = None \<Longrightarrow> f \<notin> set (idle p) \<Longrightarrow> f \<notin> ran (busy p) \<Longrightarrow> pool_step p (p\<lparr>entering := Some f\<rparr>)"
| Enter: "entering p = Some f \<Longrightarrow> pool_step p (p\<lparr>entering := None, idle := idle p @ [f]\<rparr>)"
| Take: "idle p = f # fs \<Longrightarrow> busy p i = None \<Longrightarrow> pool_step p (p\<lparr>idle := fs, busy := (busy p)(i := Some f)\<rparr>)"
| Return: "busy p i = Some f \<Longrightarrow> pool_step p (p\<lparr>busy := (busy p)(i := None), idle := idle p @ [f]\<rparr>)"
| Leave_Pool: "busy p i = Some f \<Longrightarrow> pool_step p (p\<lparr>busy := (busy p)(i := None)\<rparr>)"

fun served :: "wpc \<Rightarrow> task option" where
  "served (Free_Task t) = None"
| "served pc = held_by pc"

fun entering_at :: "mpc \<Rightarrow> (task \<Rightarrow> int option) \<Rightarrow> int option" where
  "entering_at (Insert_Task t) heap = heap t"
| "entering_at m heap = main_fd m"

definition abs_pool :: "pool_state \<Rightarrow> pool" where
  "abs_pool s = \<lparr>idle = map (\<lambda>t. the (task_heap s t)) (task_queue s),
     busy = (\<lambda>i. Option.bind (workers s i) (\<lambda>pc. Option.bind (served pc) (task_heap s))),
     entering = entering_at (main_at s) (task_heap s)\<rparr>"

lemma abs_lock [simp]:
  "abs_pool (s\<lparr>lock_holder := l\<rparr>) = abs_pool s" "abs_pool (s\<lparr>open_fds := F\<rparr>) = abs_pool s"
  "abs_pool (s\<lparr>spawned := n\<rparr>) = abs_pool s" "abs_pool (s\<lparr>task_queue := q\<rparr>) = (abs_pool s)\<lparr>idle := map (\<lambda>t. the (task_heap s t)) q\<rparr>"
  by (simp_all add: abs_pool_def)

lemma abs_goto:
  "abs_pool (goto i pc s) = (abs_pool s)\<lparr>busy := (busy (abs_pool s))(i := Option.bind (served pc) (task_heap s))\<rparr>"
  by (simp add: abs_pool_def fun_eq_iff)

lemma abs_busy: "workers s i = Some pc \<Longrightarrow> busy (abs_pool s) i = Option.bind (served pc) (task_heap s)"
  by (simp add: abs_pool_def)

lemma abs_goto_same:
  "workers s i = Some pc \<Longrightarrow> served pc' = served pc \<Longrightarrow> abs_pool (goto i pc' s) = abs_pool s"
  by (simp add: abs_goto fun_upd_idem abs_busy)

lemma abs_main:
  "abs_pool (main_goto m s) = (abs_pool s)\<lparr>entering := entering_at m (task_heap s)\<rparr>"
  by (simp add: abs_pool_def)

lemma abs_entering: "entering (abs_pool s) = entering_at (main_at s) (task_heap s)"
  by (simp add: abs_pool_def)

lemma abs_main_same:
  "entering_at m (task_heap s) = entering_at (main_at s) (task_heap s) \<Longrightarrow> abs_pool (main_goto m s) = abs_pool s"
  by (simp add: abs_pool_def)

text \<open>A change of the heap at a task that is neither in the queue nor with a thread is not seen.\<close>

lemma abs_heap:
  assumes "t \<notin> set (task_queue s)" and "\<And>i pc. workers s i = Some pc \<Longrightarrow> served pc \<noteq> Some t" and "main_at s \<noteq> Insert_Task t"
  shows "abs_pool (s\<lparr>task_heap := (task_heap s)(t := x)\<rparr>) = abs_pool s"
proof -
  have "Option.bind (workers s i) (\<lambda>pc. Option.bind (served pc) ((task_heap s)(t := x))) =
      Option.bind (workers s i) (\<lambda>pc. Option.bind (served pc) (task_heap s))" for i
    using assms(2) [of i] by (cases "workers s i"; cases "served (the (workers s i))") auto
  moreover have "entering_at (main_at s) ((task_heap s)(t := x)) = entering_at (main_at s) (task_heap s)"
    using assms(3) by (cases "main_at s") auto
  moreover have "map (\<lambda>u. the (((task_heap s)(t := x)) u)) (task_queue s) = map (\<lambda>u. the (task_heap s u)) (task_queue s)"
    using assms(1) by auto
  ultimately show ?thesis by (simp add: abs_pool_def)
qed

lemma served_held: "served pc = Some t \<Longrightarrow> held_by pc = Some t"
  by (cases pc) auto

text \<open>Taking a task serves its connection; a task that is being freed is no connection any more.\<close>

lemma take_refines:
  assumes inv: "pool_inv s" and pc: "workers s i = Some Take_Task" and q: "task_queue s = t # ts"
  shows "pool_step (abs_pool s) (abs_pool (goto i (Unlock_Task t) (s\<lparr>task_queue := ts\<rparr>)))" (is "pool_step _ (abs_pool ?s)")
proof -
  have "linear (holds s) (dom (task_heap s))" using inv by (simp add: pool_inv_def owned_def)
  from linear_owner(1) [OF this, of In_Queue t] q obtain fd where fd: "task_heap s t = Some fd" by auto
  have p: "idle (abs_pool s) = fd # map (\<lambda>t. the (task_heap s t)) ts" using q fd by (simp add: abs_pool_def)
  have b: "busy (abs_pool s) i = None" using abs_busy [OF pc] by simp
  have "abs_pool ?s = (abs_pool s)\<lparr>idle := map (\<lambda>t. the (task_heap s t)) ts, busy := (busy (abs_pool s))(i := Some fd)\<rparr>"
    by (simp add: abs_goto fd)
  with Take [OF p b] show ?thesis by simp
qed

lemma free_refines:
  assumes inv: "pool_inv s" and pc: "workers s i = Some (Free_Task t)"
  shows "task_heap s t \<noteq> None" and "abs_pool (s\<lparr>task_heap := (task_heap s)(t := None)\<rparr>) = abs_pool s"
proof -
  have lin: "linear (holds s) (dom (task_heap s))" using inv by (simp add: pool_inv_def owned_def)
  show "task_heap s t \<noteq> None" using held_task [OF inv pc, of t] by auto
  have "t \<notin> set (task_queue s)" using held_task [OF inv pc, of t] by auto
  moreover have "served pc' \<noteq> Some t" if "workers s j = Some pc'" for j pc'
  proof
    assume sv: "served pc' = Some t"
    have "Held_By (Worker j) = Held_By (Worker i)"
      by (rule linear_owner(2) [OF lin]) (use that pc served_held [OF sv] in auto)
    then have "pc' = Free_Task t" using that pc by simp
    with sv show False by simp
  qed
  moreover have "main_at s \<noteq> Insert_Task t"
  proof
    assume m: "main_at s = Insert_Task t"
    have "Held_By Main = Held_By (Worker i)" by (rule linear_owner(2) [OF lin]) (use m pc in auto)
    then show False by simp
  qed
  ultimately show "abs_pool (s\<lparr>task_heap := (task_heap s)(t := None)\<rparr>) = abs_pool s" by (intro abs_heap) auto
qed

lemma worker_refines:
  assumes inv: "pool_inv s" and pc: "workers s i = Some pc" and step: "worker_do i a pc s = Some s'" and ok: "broken s = None" "broken s' = None"
  shows "abs_pool s' = abs_pool s \<or> pool_step (abs_pool s) (abs_pool s')"
proof (cases pc)
  case Lock_Queue
  then show ?thesis using step abs_goto_same [of "s\<lparr>lock_holder := Some (Worker i)\<rparr>" i pc Test_Queue] pc by (auto simp: mutex_lock_Some)
next
  case Test_Queue
  then show ?thesis using step abs_goto_same [of "mutex_unlock s" i pc Sleeping] abs_goto_same [of s i pc Take_Task] pc
    by (auto simp: mutex_unlock_def split: if_splits)
next
  case Sleeping
  then show ?thesis using step by simp
next
  case Woken
  then show ?thesis using step abs_goto_same [of "s\<lparr>lock_holder := Some (Worker i)\<rparr>" i pc Take_Task] pc by (auto simp: mutex_lock_Some)
next
  case Take_Task
  then obtain t ts where q: "task_queue s = t # ts" and s': "s' = goto i (Unlock_Task t) (s\<lparr>task_queue := ts\<rparr>)"
    using step ok by (auto simp: take_first_def break_with_def split: list.splits if_splits)
  with take_refines [OF inv pc [unfolded Take_Task] q] show ?thesis by simp
next
  case (Unlock_Task t)
  then show ?thesis using step abs_goto_same [of "mutex_unlock s" i pc "Receive t"] pc by (auto simp: mutex_unlock_def)
next
  case (Receive t)
  obtain fd where w: "\<And>f. with_fd t s f = f fd" by (rule held_fd [OF inv pc, of t]) (simp_all add: Receive)
  show ?thesis using step Receive abs_goto_same [OF pc] by (auto simp: w split: if_splits)
next
  case (Reply t)
  obtain fd where w: "\<And>f. with_fd t s f = f fd" by (rule held_fd [OF inv pc, of t]) (simp_all add: Reply)
  show ?thesis using step Reply abs_goto_same [OF pc] by (auto simp: w split: if_splits)
next
  case (Shut t)
  obtain fd where w: "\<And>f. with_fd t s f = f fd" by (rule held_fd [OF inv pc, of t]) (simp_all add: Shut)
  show ?thesis using step Shut abs_goto_same [OF pc] by (auto simp: w)
next
  case (Close_Task t)
  obtain fd where fd: "task_heap s t = Some fd" and w: "\<And>f. with_fd t s f = f fd"
    by (rule held_fd [OF inv pc, of t]) (simp_all add: Close_Task)
  have "busy (abs_pool s) i = Some fd" using abs_busy [OF pc] Close_Task fd by simp
  from Leave_Pool [OF this] show ?thesis using step Close_Task by (auto simp: w abs_goto)
next
  case (Free_Task t)
  note free = free_refines [OF inv pc [unfolded Free_Task]]
  then show ?thesis using step Free_Task pc abs_goto_same [of "s\<lparr>task_heap := (task_heap s)(t := None)\<rparr>" i pc Lock_Queue] by auto
next
  case (Lock_Return t)
  then show ?thesis using step abs_goto_same [of "s\<lparr>lock_holder := Some (Worker i)\<rparr>" i pc "Insert_Return t"] pc by (auto simp: mutex_lock_Some)
next
  case (Insert_Return t)
  then obtain fd where fd: "task_heap s t = Some fd" using held_task [OF inv pc, of t] by auto
  have "busy (abs_pool s) i = Some fd" using abs_busy [OF pc] Insert_Return fd by simp
  from Return [OF this] show ?thesis using step Insert_Return fd by (auto simp: insert_tail_def abs_goto) (simp add: abs_pool_def)
next
  case Unlock_Return
  then show ?thesis using step abs_goto_same [of "mutex_unlock s" i pc Lock_Queue] pc by (auto simp: mutex_unlock_def)
qed

text \<open>A descriptor that is not open is no connection of the pool, a block that is not allocated no
  task of it.\<close>

lemma new_connection:
  assumes inv: "pool_inv s" and new: "fd \<notin> open_fds s"
  shows "fd \<notin> set (idle (abs_pool s))" and "fd \<notin> ran (busy (abs_pool s))"
proof -
  have lin: "linear (carries s) (open_fds s)" and lin': "linear (holds s) (dom (task_heap s))"
    using inv by (auto simp: pool_inv_def fds_agree_def owned_def)
  have no: "\<not> carries s p (fd)" for p using linear_owner(1) [OF lin] new by blast
  show "fd \<notin> set (idle (abs_pool s))"
  proof
    assume "fd \<in> set (idle (abs_pool s))"
    then obtain t where t: "t \<in> set (task_queue s)" "fd = the (task_heap s t)" by (auto simp: abs_pool_def)
    with linear_owner(1) [OF lin', of In_Queue t] have "task_heap s t = Some (fd)" by auto
    moreover have "\<not> closing s t"
      using held_task(2) [OF inv, of _ "Free_Task t" t] t(1) by (auto simp: closing_def)
    ultimately show False using no [of "Some t"] by simp
  qed
  show "fd \<notin> ran (busy (abs_pool s))"
  proof
    assume "fd \<in> ran (busy (abs_pool s))"
    then obtain j pc t where t: "workers s j = Some pc" "served pc = Some t" "task_heap s t = Some (fd)"
      by (auto simp: abs_pool_def ran_def bind_eq_Some_conv)
    then have "\<not> closing s t" using held_task(3) [OF inv t(1) served_held [OF t(2)]] by auto
    with t no [of "Some t"] show False by simp
  qed
qed

lemma alloc_refines:
  assumes inv: "pool_inv s" and new: "task_heap s t = None" and m: "main_at s = Alloc_Task f"
  shows "abs_pool (s\<lparr>task_heap := (task_heap s)(t := Some f)\<rparr>) = abs_pool s"
proof -
  have lin: "linear (holds s) (dom (task_heap s))" using inv by (simp add: pool_inv_def owned_def)
  have no: "\<not> holds s p t" for p using linear_owner(1) [OF lin] new by auto
  have "served pc \<noteq> Some t" if "workers s j = Some pc" for j pc
    using no [of "Held_By (Worker j)"] that served_held [of pc t] by auto
  then show ?thesis using no [of In_Queue] m by (intro abs_heap) auto
qed

lemma main_refines:
  assumes inv: "pool_inv s" and step: "main_do a i (main_at s) s = Some s'" and ok: "running s'"
  shows "abs_pool s' = abs_pool s \<or> pool_step (abs_pool s) (abs_pool s')"
proof (cases "main_at s")
  case (Create n)
  have new: "workers s (spawned s) = None" using inv by (simp add: pool_inv_def exclusive_def)
  then have "busy (abs_pool s) (spawned s) = None" by (simp add: abs_pool_def)
  then have "abs_pool (goto (spawned s) Lock_Queue (s\<lparr>spawned := k\<rparr>)) = abs_pool s" for k
    by (simp add: abs_goto fun_upd_idem)
  then show ?thesis using step ok Create
    by (auto simp: abs_main abs_entering running_def split: if_splits)
next
  case Accept_Next
  with step ok have s': "s' = main_goto (Set_Timeouts (a_ret a)) (s\<lparr>open_fds := insert (a_ret a) (open_fds s)\<rparr>)"
    and new: "a_ret a \<notin> open_fds s" by (auto simp: running_def split: if_splits)
  have "entering (abs_pool s) = None" using Accept_Next by (simp add: abs_entering)
  then have "pool_step (abs_pool s) ((abs_pool s)\<lparr>entering := Some (a_ret a)\<rparr>)"
    using new_connection [OF inv new] by (rule Arrive)
  then show ?thesis by (simp add: s' abs_main)
next
  case (Set_Timeouts f)
  then show ?thesis using step abs_main_same [of "Lock_Insert f" s] by auto
next
  case (Lock_Insert f)
  then show ?thesis using step abs_main_same [of "Alloc_Task f" "s\<lparr>lock_holder := Some Main\<rparr>"] by (auto simp: mutex_lock_Some)
next
  case (Alloc_Task f)
  let ?t = "nat (a_ptr a)"
  from Alloc_Task step ok have new: "task_heap s ?t = None" and s': "s' = main_goto (Insert_Task ?t) (s\<lparr>task_heap := (task_heap s)(?t := Some f)\<rparr>)"
    by (auto simp: running_def split: if_splits)
  from alloc_refines [OF inv new Alloc_Task]
  have "abs_pool (s\<lparr>task_heap := (task_heap s)(?t := Some f)\<rparr>) = abs_pool s" .
  then show ?thesis using Alloc_Task by (simp add: s' abs_main) (simp add: abs_pool_def)
next
  case (Insert_Task t)
  have lin: "linear (holds s) (dom (task_heap s))" using inv by (simp add: pool_inv_def owned_def)
  from linear_owner(1) [OF lin, of "Held_By Main" t] Insert_Task obtain f where f: "task_heap s t = Some f" by auto
  have "entering (abs_pool s) = Some f" using Insert_Task f by (simp add: abs_entering)
  from Enter [OF this] show ?thesis using step Insert_Task f by (auto simp: insert_tail_def abs_main) (simp add: abs_pool_def)
next
  case Unlock_Insert
  then show ?thesis using step abs_main_same [of Lock_Signal "mutex_unlock s"] by (auto simp: mutex_unlock_def)
next
  case Lock_Signal
  then show ?thesis using step abs_main_same [of Signal_Cond "s\<lparr>lock_holder := Some Main\<rparr>"] by (auto simp: mutex_lock_Some)
next
  case Signal_Cond
  then show ?thesis using step abs_main_same [of Unlock_Signal s] abs_main_same [of Unlock_Signal "goto i Woken s"] abs_goto_same [of s i Sleeping Woken]
    by (auto simp: cond_signal_def split: if_splits)
next
  case Unlock_Signal
  then show ?thesis using step abs_main_same [of Accept_Next "mutex_unlock s"] by (auto simp: mutex_unlock_def)
next
  case (Exited c)
  then show ?thesis using step by simp
qed

section \<open>Properties\<close>

text \<open>
  C6: The thread pool, in every interleaving, with every behaviour of the environment and with
  spurious wake-ups: at most one thread is between lock and unlock, and it is the one that
  holds the mutex; every allocated task is in the queue once or with exactly one thread; and
  every open connection belongs to exactly one task or to the accepting thread.
\<close>

theorem thread_pool_invariant:
  assumes "reach spurious n s" and "running s"
  shows "exclusive s \<and> owned s \<and> fds_agree s"
  using reach_running [OF assms] by (simp add: pool_inv_def)

text \<open>The accepting thread has enqueued a connection, and worker 1 is about to take it, while
  worker 0 sleeps.\<close>

definition pool_demo :: "turn list" where
  "pool_demo = replicate 5 (Turn_Main (plain 0) 0) @ replicate 2 (Turn_Worker 0 (plain 0)) @
     replicate 3 (Turn_Main (plain 5) 0) @ replicate 3 (Turn_Main ((plain 0)\<lparr>a_ptr := 100\<rparr>) 0) @
     replicate 2 (Turn_Worker 1 (plain 0))"

lemmas pool_eval = numeral_eq_Suc init_task_queue_def running_def main_goto_def goto_def mutex_lock_def mutex_unlock_def
  insert_tail_def take_first_def cond_signal_def break_with_def

lemma pool_demo_run:
  "\<exists>s. run_schedule pool_demo (init_task_queue 4) = Some s \<and> running s \<and> task_queue s = [100] \<and> task_heap s 100 = Some 5 \<and>
     workers s 1 = Some Take_Task \<and> workers s 0 = Some Sleeping"
  by (simp add: pool_demo_def pool_eval)

lemma pool_demo_state:
  obtains s where "reach False 4 s" and "running s" and "task_queue s = [100]" and "task_heap s 100 = Some 5"
    and "workers s 1 = Some Take_Task"
  using pool_demo_run run_schedule_reach [OF _ Reach_Init] by blast

theorem thread_pool_invariant_witness:
  "\<exists>s. reach False 4 s \<and> task_queue s = [100] \<and> workers s 1 = Some Take_Task \<and> exclusive s \<and> owned s \<and> fds_agree s"
proof -
  obtain s where s: "reach False 4 s" "running s" "task_queue s = [100]" "workers s 1 = Some Take_Task" by (rule pool_demo_state)
  from thread_pool_invariant [OF s(1,2)] s show ?thesis by blast
qed

text \<open>
  C7: In no interleaving does a thread use a task that was freed, free one twice, or use or
  close a connection that is closed: the only thing that can go wrong is that a worker takes
  from an empty queue.
\<close>

theorem thread_task_use:
  assumes "reach spurious n s"
  shows "broken s = None \<or> broken s = Some Null_Task"
  using reach_inv [OF assms] by blast

theorem thread_task_use_witness:
  "\<exists>s. reach False 4 s \<and> task_queue s = [100] \<and> (broken s = None \<or> broken s = Some Null_Task)"
proof -
  obtain s where s: "reach False 4 s" "task_queue s = [100]" by (rule pool_demo_state)
  from thread_task_use [OF s(1)] s show ?thesis by blast
qed




text \<open>
  C5: The pool refines its contract. Every step of a thread is, on the connections, either
  nothing or one step of the specification \<open>pool_step\<close>: a new connection arrives, enters at
  the end of the line, the first in line is taken by a worker that has none, goes back to the
  end, or leaves. So connections are served in turn and by one worker at a time.
\<close>

theorem thread_pool_refines:
  assumes "reach spurious n s" and "tstep spurious s s'" and "running s'"
  shows "abs_pool s' = abs_pool s \<or> pool_step (abs_pool s) (abs_pool s')"
  using assms(2)
proof cases
  case (Step_Worker i pc a)
  then show ?thesis
    using worker_refines [OF reach_running [OF assms(1)]] assms(3) by (auto simp: running_def)
next
  case (Step_Main a i)
  then show ?thesis using main_refines [OF reach_running [OF assms(1)] _ assms(3)] by blast
next
  case (Step_Spurious i)
  then show ?thesis using abs_goto_same [of s i Sleeping Woken] by simp
qed

theorem thread_pool_refines_witness:
  "\<exists>s s'. reach False 4 s \<and> idle (abs_pool s) = [5] \<and> busy (abs_pool s') 1 = Some 5 \<and> pool_step (abs_pool s) (abs_pool s')"
proof -
  obtain s where s: "reach False 4 s" "running s" "task_queue s = [100]" "task_heap s 100 = Some 5" "workers s 1 = Some Take_Task"
    by (rule pool_demo_state)
  let ?s = "goto 1 (Unlock_Task 100) (s\<lparr>task_queue := []\<rparr>)"
  have step: "tstep False s ?s"
    by (rule Step_Worker [OF s(2,5), where a = "plain 0"]) (use s in \<open>simp add: take_first_def\<close>)
  have "running ?s" using s(2) by (simp add: running_def)
  from thread_pool_refines [OF s(1) step this]
  have "abs_pool ?s = abs_pool s \<or> pool_step (abs_pool s) (abs_pool ?s)" .
  moreover have "idle (abs_pool s) = [5]" "idle (abs_pool ?s) = []" "busy (abs_pool ?s) 1 = Some 5" using s by (simp_all add: abs_pool_def)
  moreover from this have "abs_pool ?s \<noteq> abs_pool s" by auto
  ultimately show ?thesis using s(1) by blast
qed

end
