(* ===== verification/C_Number.thy ===== *)
theory C_Number
  imports C_String
begin

text \<open>
  Reading decimal numerals: \<open>atoi\<close>, as the GNU C library has it, and \<open>std::stoi\<close>, which
  throws. Both read back what \<open>%d\<close> and \<open>std::to_string\<close> print.
\<close>

text \<open>\<open>isspace\<close>\<close>

definition is_space :: "char \<Rightarrow> bool" where
  "is_space c \<longleftrightarrow> c = CHR '' '' \<or> (9 \<le> (of_char c :: nat) \<and> (of_char c :: nat) \<le> 13)"

text \<open>\<open>atoi\<close> of the GNU C library: \<open>strtol\<close>, which saturates, converted to \<open>int\<close>.\<close>

fun atoi_digits :: "int \<Rightarrow> bytes \<Rightarrow> int" where
  "atoi_digits acc [] = acc"
| "atoi_digits acc (c # cs) = (let d = int (of_char c) - 48
     in if 0 \<le> d \<and> d \<le> 9 then atoi_digits (10 * acc + d) cs else acc)"

definition strtol :: "bytes \<Rightarrow> int" where
  "strtol s = max (- (2 ^ 63)) (min (2 ^ 63 - 1)
     (case dropWhile is_space s of
        [] \<Rightarrow> 0
      | c # cs \<Rightarrow> if c = CHR ''-'' then - atoi_digits 0 cs
          else if c = CHR ''+'' then atoi_digits 0 cs else atoi_digits 0 (c # cs)))"

definition atoi :: "bytes \<Rightarrow> int" where
  "atoi s = sint (word_of_int (strtol s) :: 32 word)"

text \<open>The exceptions of the C++ programs, and \<open>std::stoi\<close>\<close>

datatype exn = Invalid_Argument | Out_Of_Range | Length_Error | Filesystem_Error

definition stoi :: "bytes \<Rightarrow> exn + int" where
  "stoi s = (let t = dropWhile is_space s;
      ds = (case t of [] \<Rightarrow> [] | c # cs \<Rightarrow> if c = CHR ''-'' \<or> c = CHR ''+'' then cs else t);
      n = (if t \<noteq> [] \<and> hd t = CHR ''-'' then - atoi_digits 0 ds else atoi_digits 0 ds)
    in if ds = [] \<or> (of_char (hd ds) :: nat) < 48 \<or> 57 < (of_char (hd ds) :: nat) then Inl Invalid_Argument
       else if n < - (2 ^ 31) \<or> 2 ^ 31 \<le> n then Inl Out_Of_Range else Inr n)"

section \<open>Numerals\<close>

lemma atoi_digits_snoc:
  "(\<And>c. c \<in> set cs \<Longrightarrow> \<exists>d < 10. c = digit d) \<Longrightarrow> d < 10 \<Longrightarrow>
   atoi_digits acc (cs @ [digit d]) = 10 * atoi_digits acc cs + int d"
proof (induction cs arbitrary: acc)
  case Nil
  then show ?case by (simp add: digit_code)
next
  case (Cons c cs)
  then obtain e where e: "e < 10" "c = digit e" by auto
  have "int (of_char c) - 48 = int e" using e by (simp add: digit_code)
  with Cons e(1) show ?case by (simp add: Let_def)
qed

lemma atoi_digits_dec_nat: "atoi_digits 0 (dec_nat n) = int n"
proof (induction n rule: dec_nat.induct)
  case (1 n)
  show ?case
  proof (cases "n < 10")
    case True
    then show ?thesis by (subst dec_nat.simps) (simp add: digit_code)
  next
    case False
    have "atoi_digits 0 (dec_nat (n div 10) @ [digit (n mod 10)]) = 10 * int (n div 10) + int (n mod 10)"
      using "1.IH" [OF False] by (subst atoi_digits_snoc) (auto dest: dec_nat_digits)
    moreover have "10 * int (n div 10) + int (n mod 10) = int n" by presburger
    ultimately show ?thesis using False by (subst dec_nat.simps) simp
  qed
qed

lemma strtol_dec: "\<bar>i\<bar> < 2 ^ 63 \<Longrightarrow> strtol (dec i) = i"
proof -
  assume i: "\<bar>i\<bar> < 2 ^ 63"
  have "dec_nat (nat i) \<noteq> []" by (subst dec_nat.simps) simp
  then obtain c cs where n: "dec_nat (nat i) = c # cs" by (auto simp: neq_Nil_conv)
  then obtain d where d: "d < 10" "c = digit d" using dec_nat_digits [of c "nat i"] by auto
  then have c: "(of_char c :: nat) = 48 + d" by (simp add: digit_code)
  have "c \<noteq> CHR '' ''" "c \<noteq> CHR ''-''" "c \<noteq> CHR ''+''" using c by auto
  then show ?thesis using i n c atoi_digits_dec_nat [of "nat i"] atoi_digits_dec_nat [of "nat (- i)"]
    by (simp add: strtol_def dec_def is_space_def)
qed

lemma dec_nat_first:
  obtains d cs where "d < 10" and "dec_nat n = digit d # cs"
proof -
  have "dec_nat n \<noteq> []" by (subst dec_nat.simps) simp
  then obtain c cs where n: "dec_nat n = c # cs" by (auto simp: neq_Nil_conv)
  then obtain d where "d < 10" "c = digit d" using dec_nat_digits [of c n] by auto
  with n that show ?thesis by blast
qed

lemma stoi_dec: "0 \<le> i \<Longrightarrow> i < 2 ^ 31 \<Longrightarrow> stoi (dec i) = Inr i"
proof -
  assume i: "0 \<le> i" "i < 2 ^ 31"
  obtain d cs where d: "d < 10" "dec_nat (nat i) = digit d # cs" by (rule dec_nat_first)
  then have c: "(of_char (digit d) :: nat) = 48 + d" by (simp add: digit_code)
  then have "digit d \<noteq> CHR '' ''" "digit d \<noteq> CHR ''-''" "digit d \<noteq> CHR ''+''" using d(1) by (auto simp del: of_char_eq_iff dest: arg_cong [where f = "of_char :: char \<Rightarrow> nat"])
  then show ?thesis using i d c atoi_digits_dec_nat [of "nat i"]
    by (simp add: stoi_def dec_def is_space_def Let_def)
qed

end
