(* ===== verification/Ping_Pong.thy ===== *)
theory Ping_Pong
  imports Server_Conn Request_Server C_Number
begin

text \<open>
  The remaining programs of \<open>my_code\<close>: the sequential ping server and its clients
  (\<open>simple_tcp_client_server\<close>, and the same client, with a pause from the command line, in the
  two other directories), the datagram pair (\<open>simple_udp_client_server\<close>), the HTTP client
  (\<open>http_client\<close>), and the set-up of the multithreaded server, whose pool is in
  \<open>Thread_Server\<close>. Their errors end the process by \<open>exit(1)\<close>. The HTTP client writes to a constant
  array, so that it is left out of the property of the others: \<open>fetch_writes_const\<close>, \<open>fetch_ok\<close>.
\<close>

definition die :: "bytes \<Rightarrow> 'a prog" where
  "die message = thenp (perror message) (halt (Exit 1))"

definition puts :: "bytes \<Rightarrow> unit prog" where
  "puts s = put_out (s @ [LF])"

section \<open>Setting up\<close>

text \<open>A socket that is bound to an address.\<close>

definition bound_socket :: "int \<Rightarrow> bytes \<Rightarrow> int \<Rightarrow> int prog" where
  "bound_socket type addr port = bindp (sys (Socket AF_INET type 0)) (\<lambda>s.
     if a_ret s = - 1 then die ''socket''
     else bindp (sys (SetSockOpt (a_ret s) SOL_SOCKET SO_REUSEADDR)) (\<lambda>r.
     if a_ret r = - 1 then die ''setsockopt''
     else bindp (sys (Bind (a_ret s) (ipv4_addr addr port) sizeof_sockaddr_in)) (\<lambda>r.
     if a_ret r = - 1 then die ''bind'' else ret (a_ret s))))"

text \<open>A socket that is connected to the first address of a name; the result is the address list
  and the socket.\<close>

definition connected_socket :: "bytes \<Rightarrow> bytes \<Rightarrow> (int \<times> int) prog" where
  "connected_socket host port =
     bindp (sys (GetAddrInfo (Some host) port (zero_addrinfo\<lparr>ai_family := AF_UNSPEC, ai_socktype := SOCK_STREAM\<rparr>))) (\<lambda>r.
     if a_ret r \<noteq> 0 then die ''getaddrinfo''
     else bindp (getp Null_Deref (case a_infos r of [] \<Rightarrow> None | p # _ \<Rightarrow> Some p)) (\<lambda>res.
     bindp (sys (Socket (ai_family res) (ai_socktype res) (ai_protocol res))) (\<lambda>s.
     if a_ret s = - 1 then die ''socket''
     else bindp (sys (SetSockOpt (a_ret s) SOL_SOCKET SO_REUSEADDR)) (\<lambda>o1.
     if a_ret o1 = - 1 then die ''setsockopt''
     else bindp (sys (Connect (a_ret s) (ai_addr res) (ai_addrlen res))) (\<lambda>c.
     if a_ret c = - 1 then die ''connect'' else ret (a_ptr r, a_ret s))))))"

section \<open>The ping server\<close>

text \<open>\<open>while (!strstr(buffer, "quit"))\<close>\<close>

definition unless_quit :: "bytes \<Rightarrow> (unit, unit) iter prog" where
  "unless_quit buffer = bindp (c_strstr buffer ''quit'') (\<lambda>at. ret (if at = None then Again () else Leave ()))"

definition pong_reply :: "int \<Rightarrow> unit prog" where
  "pong_reply new_fd = bindp (sys (Send new_fd ''pong'' 0)) (\<lambda>a.
     if a_ret a > 0 then put_out (fmt [''Write '', dec (a_ret a), '' bytes: pong'', [LF]])
     else if a_ret a = 0 then put_out (fmt [''Connection closed by peer'', [LF]])
     else die ''send failed'')"

text \<open>The body of the \<open>do\<close> loop: \<open>continue\<close> after a failed \<open>recv\<close> goes to its condition, with the
  buffer all zeros.\<close>

definition ping_round :: "int \<Rightarrow> unit \<Rightarrow> (unit, unit) iter prog" where
  "ping_round new_fd u = bindp (sys (Recv new_fd 1023 0)) (\<lambda>a.
     if a_ret a > 0
     then let buffer = overlay (zeros 1024) 0 (a_buf a) in
       thenp (put_out (fmt [''Read '', dec (a_ret a), '' bytes: '', cstr (a_buf a), [LF]]))
       (bindp (c_strstr buffer ''ping'') (\<lambda>at.
        thenp (whenp (at \<noteq> None) (pong_reply new_fd))
        (bindp (poke buffer (a_ret a) NUL) unless_quit)))
     else if a_ret a = 0 then thenp (put_out (fmt [''Connection closed by peer'', [LF]])) (ret (Leave ()))
     else thenp (perror ''recv failed'') (unless_quit (zeros 1024)))"

text \<open>One client after the other.\<close>

definition pong_accept_round :: "nat \<Rightarrow> int \<Rightarrow> unit \<Rightarrow> (unit, unit) iter prog" where
  "pong_accept_round m sockfd u = bindp (sys (Accept sockfd)) (\<lambda>c.
     if a_ret c = - 1 then die ''accept''
     else thenp (loop m (ping_round (a_ret c)) ()) (thenp (sys (Close (a_ret c))) (ret (Again ()))))"

definition pong_server_main :: "nat \<Rightarrow> nat \<Rightarrow> int prog" where
  "pong_server_main m n = bindp (bound_socket SOCK_STREAM ''127.0.0.1'' 8888) (\<lambda>sockfd.
     bindp (sys (Listen sockfd LISTEN_BACKLOG)) (\<lambda>l.
     if a_ret l = - 1 then die ''listen''
     else bindp (loop n (pong_accept_round m sockfd) ()) (\<lambda>_. thenp (sys (Close sockfd)) (ret 0))))"

section \<open>The ping clients\<close>

text \<open>What differs: the flags of the calls, the text after a failed \<open>recv\<close>, and the pause.\<close>

definition ping_client_round :: "int \<Rightarrow> bytes \<Rightarrow> int \<Rightarrow> int \<Rightarrow> int \<Rightarrow> (int, unit) iter prog" where
  "ping_client_round flags recv_failed seconds sockfd i0 =
     thenp (guardp Int_Overflow (i0 < 2147483647))
     (let i = i0 + 1; msg = (if i mod 2 \<noteq> 0 then ''ping'' else ''Hello, World!'')
      in if i = 0 then ret (Leave ()) else
      bindp (sys (Send sockfd msg flags)) (\<lambda>w.
      thenp (if a_ret w > 0 then put_out (fmt [''Write '', dec (a_ret w), '' bytes: '', msg, [LF]])
             else if a_ret w = 0 then put_out (fmt [''Connection closed by peer'', [LF]])
             else die ''send failed'')
      (thenp (whenp (i mod 2 \<noteq> 0) (bindp (sys (Recv sockfd 1023 flags)) (\<lambda>a.
         if a_ret a > 0 then put_out (fmt [''Read '', dec (a_ret a), '' bytes: '', cstr (a_buf a), [LF]])
         else if a_ret a = 0 then put_out (fmt [''Connection closed by peer'', [LF]])
         else die recv_failed)))
      (thenp (sys (SleepCall seconds)) (ret (Again i))))))"

definition ping_client :: "int \<Rightarrow> bytes \<Rightarrow> int \<Rightarrow> nat \<Rightarrow> int prog" where
  "ping_client flags recv_failed seconds n =
     bindp (sprintf_to (zeros 64) (dec 8888)) (\<lambda>port.
     bindp (c_string port) (\<lambda>port_s.
     bindp (connected_socket ''127.0.0.1'' port_s) (\<lambda>(res, sockfd).
     bindp (loop n (ping_client_round flags recv_failed seconds sockfd) 0) (\<lambda>_.
     thenp (sys (Close sockfd)) (thenp (sys (FreeAddrInfo res)) (ret 0))))))"

definition ping_client_main :: "nat \<Rightarrow> int prog" where
  "ping_client_main n = ping_client 0 ''send failed'' 5 n"

definition sleeping_client_main :: "nat \<Rightarrow> bytes list \<Rightarrow> int prog" where
  "sleeping_client_main n argv =
     (if length argv \<noteq> 2
      then thenp (put_out (fmt [''Usage: ping_client <number of seconds to sleep>'', [LF]])) (halt (Exit 1))
      else ping_client MSG_NOSIGNAL ''receive failed'' (uint (word_of_int (atoi (argv ! 1)) :: 32 word)) n)"

text \<open>The same file beside the non-blocking server\<close>

definition client_main :: "nat \<Rightarrow> bytes list \<Rightarrow> int prog" where
  "client_main n argv = sleeping_client_main n argv"

section \<open>The datagram pair\<close>

text \<open>The counts are \<open>uint32_t\<close>, so that the test for a negative one never succeeds: -1 is a
  large positive number.\<close>

definition count32 :: "answer \<Rightarrow> int" where
  "count32 a = uint (word_of_int (a_ret a) :: 32 word)"

definition hello_client_round :: "int \<Rightarrow> addrinfo \<Rightarrow> int \<Rightarrow> (int, unit) iter prog" where
  "hello_client_round sockfd receiver i0 =
     thenp (guardp Int_Overflow (i0 < 2147483647))
     (let i = i0 + 1; msg = (if i mod 2 \<noteq> 0 then ''ping'' else ''Hello, World!'')
      in if i = 0 then ret (Leave ()) else
      bindp (sys (SendTo sockfd msg MSG_NOSIGNAL (ai_addr receiver) (ai_addrlen receiver))) (\<lambda>w.
      thenp (if count32 w > 0 then put_out (fmt [''Write '', dec (int (length msg)), '' bytes: '', msg, [LF]])
             else if count32 w = 0 then put_out (fmt [''Connection closed by peer'', [LF]])
             else die ''recvfrom'')
      (if i mod 2 \<noteq> 0
       then bindp (sys (RecvFrom sockfd 1023 MSG_NOSIGNAL)) (\<lambda>a.
         if count32 a > 0
         then bindp (c_string (received a)) (\<lambda>text.
           thenp (put_out (fmt [''Read '', dec32 (count32 a), '' bytes: '', text, [LF]]))
           (thenp (sys (SleepCall 2)) (ret (Again i))))
         else if count32 a = 0 then thenp (put_out (fmt [''Connection closed by peer'', [LF]])) (ret (Again i))
         else die ''recvfrom'')
       else thenp (sys (SleepCall 2)) (ret (Again i)))))"

definition hello_client_main :: "nat \<Rightarrow> int prog" where
  "hello_client_main n = bindp (bound_socket SOCK_DGRAM ''0.0.0.0'' 9043) (\<lambda>sockfd.
     bindp (sys (GetAddrInfo (Some ''127.0.0.1'') ''3490'' (zero_addrinfo\<lparr>ai_family := AF_INET, ai_socktype := SOCK_DGRAM\<rparr>))) (\<lambda>r.
     if a_ret r \<noteq> 0 then die ''getaddrinfo''
     else bindp (getp Null_Deref (case a_infos r of [] \<Rightarrow> None | p # _ \<Rightarrow> Some p)) (\<lambda>receiver.
     bindp (loop n (hello_client_round sockfd receiver) 0) (\<lambda>_.
     thenp (sys (FreeAddrInfo (a_ptr r))) (thenp (sys (Close sockfd)) (ret 0))))))"

text \<open>\<open>sizeof(struct sockaddr_storage)\<close> goes in, the length of the peer's address comes out.\<close>

definition hello_server_round :: "int \<Rightarrow> unit \<Rightarrow> (unit, unit) iter prog" where
  "hello_server_round sockfd u = bindp (sys (RecvFrom sockfd 1023 MSG_NOSIGNAL)) (\<lambda>a.
     if a_ret a > 0
     then bindp (c_string (received a)) (\<lambda>text.
       thenp (put_out (fmt [''Read '', dec (a_ret a), '' bytes: '', text, [LF]]))
       (bindp (c_strstr (received a) ''ping'') (\<lambda>at.
        if at = None then ret (Again ())
        else bindp (sys (SendTo sockfd ''pong'' MSG_NOSIGNAL (a_peer a) sizeof_sockaddr_in)) (\<lambda>w.
          if a_ret w > 0 then thenp (put_out (fmt [''Write '', dec (a_ret w), '' bytes: pong'', [LF]])) (ret (Again ()))
          else if a_ret w = 0 then thenp (put_out (fmt [''Connection closed by peer'', [LF]])) (ret (Again ()))
          else die ''sendto''))))
     else if a_ret a = 0 then thenp (put_out (fmt [''Connection closed by peer'', [LF]])) (ret (Again ()))
     else die ''recvfrom'')"

definition hello_server_main :: "nat \<Rightarrow> int prog" where
  "hello_server_main n = bindp (bound_socket SOCK_DGRAM ''0.0.0.0'' 3490) (\<lambda>sockfd.
     bindp (loop n (hello_server_round sockfd) ()) (\<lambda>_. thenp (sys (Close sockfd)) (ret 0)))"

section \<open>The HTTP client\<close>

text \<open>The request array is not initialised (\<open>junk\<close>), and all its 256 bytes are sent. It is declared
  \<open>const char http_request[256]\<close>, and \<open>sprintf\<close> writes to it through a cast: undefined
  behaviour, unless the implementation promises that such an array can be written (\<open>writable\<close>),
  which the C standard does not.\<close>

definition fetch_round :: "int \<Rightarrow> unit \<Rightarrow> (unit, unit) iter prog" where
  "fetch_round sockfd u = bindp (sys (Recv sockfd 1024 0)) (\<lambda>a.
     if a_ret a > 0 then thenp (put_out (cstr (a_buf a))) (ret (Again ()))
     else if a_ret a = 0 then thenp (put_out (fmt [[LF], ''Connection closed by peer'', [LF]])) (ret (Leave ()))
     else die ''recv failed'')"

definition fetch_main :: "bool \<Rightarrow> bytes \<Rightarrow> nat \<Rightarrow> bytes list \<Rightarrow> int prog" where
  "fetch_main writable junk n argv =
     (if length argv \<noteq> 2 then thenp (puts ''Usage: http_client <website url>'') (halt (Exit 1))
      else thenp (puts ''Connecting...'')
      (bindp (connected_socket (argv ! 1) ''http'') (\<lambda>(res, sockfd).
       thenp (puts ''Connected'') (thenp (puts ''Sending http request...'')
       (thenp (guardp Const_Write writable)
       (bindp (sprintf_to junk (fmt [''GET / HTTP/1.1'', [LF], ''Host: '', argv ! 1, [LF], ''Connection: close'', [LF, LF]])) (\<lambda>http_request.
        bindp (sys (Send sockfd http_request 0)) (\<lambda>w.
        thenp (if a_ret w > 0 then put_out (fmt [''Send '', dec (a_ret w), '' bytes'', [LF]])
               else if a_ret w = 0 then thenp (put_out (fmt [''Connection closed by peer'', [LF]])) (halt (Exit 1))
               else die ''send failed'')
        (thenp (puts ''Receiving http response...'')
        (thenp (loop n (fetch_round sockfd) ())
        (thenp (sys (Close sockfd)) (thenp (sys (FreeAddrInfo res)) (ret 0)))))))))))))"

section \<open>The set-up of the multithreaded server\<close>

definition mt_listen_on_ipv4_tcp_socket :: "bytes \<Rightarrow> int \<Rightarrow> (int \<times> int option) prog" where
  "mt_listen_on_ipv4_tcp_socket addr port = listen_on_ipv4_tcp_socket addr port"

definition set_socket_timeouts :: "int \<Rightarrow> unit prog" where
  "set_socket_timeouts sockfd = thenp (sys (SetSockOpt sockfd SOL_SOCKET SO_RCVTIMEO))
     (thenp (sys (SetSockOpt sockfd SOL_SOCKET SO_SNDTIMEO)) (ret ()))"

text \<open>\<open>main\<close> up to \<open>create_threads\<close>; \<open>strerror\<close> is a parameter.\<close>

definition mt_server_setup :: "(int \<Rightarrow> bytes) \<Rightarrow> int option prog" where
  "mt_server_setup strerror = thenp (puts ''Creating socket...'')
     (bindp (mt_listen_on_ipv4_tcp_socket ''127.0.0.1'' 8888) (\<lambda>(err, sockfd).
      if err \<noteq> 0 then thenp (put_out (fmt [''Listen error: '', strerror err, [LF]])) (halt (Exit err))
      else thenp (puts ''Creating threads...'') (ret sockfd)))"

section \<open>One pong for every ping\<close>

text \<open>What a history received and what it sent, newest first: the descriptor, the peer of a
  datagram, the bytes.\<close>

fun heard :: "log \<Rightarrow> (int \<times> sockaddr \<times> bytes) list" where
  "heard [] = []"
| "heard ((c, a) # h) = (case c of
      Recv f n fl \<Rightarrow> if 0 < a_ret a then [(f, zero_sockaddr, a_buf a)] else []
    | RecvFrom f n fl \<Rightarrow> if 0 < a_ret a then [(f, a_peer a, a_buf a)] else []
    | _ \<Rightarrow> []) @ heard h"

fun said :: "log \<Rightarrow> (int \<times> sockaddr \<times> bytes) list" where
  "said [] = []"
| "said ((c, a) # h) = (case c of
      Send f b fl \<Rightarrow> [(f, zero_sockaddr, b)]
    | SendTo f b fl to len \<Rightarrow> [(f, to, b)]
    | _ \<Rightarrow> []) @ said h"

text \<open>The reference: a message with a ping in it is answered by a pong on the descriptor it came
  from, to the peer that sent it; nothing else is said.\<close>

definition pong_for :: "int \<times> sockaddr \<times> bytes \<Rightarrow> (int \<times> sockaddr \<times> bytes) list" where
  "pong_for m = (case m of (f, peer, b) \<Rightarrow>
     if strstr_at (cstr b) ''ping'' = None then [] else [(f, peer, ''pong'')])"

definition polite :: "log \<Rightarrow> bool" where
  "polite h \<longleftrightarrow> disciplined h \<and> said h = concat (map pong_for (heard h))"

definition polite_stop :: "stop \<Rightarrow> log \<Rightarrow> bool" where
  "polite_stop s h \<longleftrightarrow> clean_stop s h \<and> polite h"

lemma polite_stop_simps [simp]:
  "polite_stop (Exit c) h \<longleftrightarrow> polite h" "polite_stop Unfinished h \<longleftrightarrow> polite h"
  by (auto simp: polite_stop_def polite_def)

definition usable :: "int \<Rightarrow> res set \<Rightarrow> bool" where
  "usable f L \<longleftrightarrow> (0 \<le> f \<longrightarrow> Fd f \<in> L)"

text \<open>Calls that say and hear nothing and take nothing away.\<close>

lemma polite_quiet [simp]:
  "polite ((Out s, a) # h) \<longleftrightarrow> polite h" "polite ((Err s, a) # h) \<longleftrightarrow> polite h"
  "polite ((SleepCall n, a) # h) \<longleftrightarrow> polite h"
  "live ((Out s, a) # h) = live h" "live ((Err s, a) # h) = live h" "live ((SleepCall n, a) # h) = live h"
  by (simp_all add: polite_def res_simps)

lemma polite_recv [simp]:
  "polite h \<Longrightarrow> usable f (live h) \<Longrightarrow> a_ret a \<le> 0 \<Longrightarrow> polite ((Recv f n fl, a) # h)"
  "polite h \<Longrightarrow> usable f (live h) \<Longrightarrow> a_ret a \<le> 0 \<Longrightarrow> polite ((RecvFrom f n fl, a) # h)"
  by (simp_all add: polite_def usable_def res_simps)

text \<open>After a message the server owes its answer.\<close>

lemma polite_answer:
  assumes "polite h" and "usable f (live h)" and "0 < a_ret a"
  shows "strstr_at (cstr (a_buf a)) ''ping'' = None \<Longrightarrow> polite ((Recv f n fl, a) # h)"
    and "strstr_at (cstr (a_buf a)) ''ping'' \<noteq> None \<Longrightarrow>
      polite ((Send f ''pong'' gl, b) # (Out s, x) # (Recv f n fl, a) # h)"
    and "strstr_at (cstr (a_buf a)) ''ping'' = None \<Longrightarrow> polite ((RecvFrom f n fl, a) # h)"
    and "strstr_at (cstr (a_buf a)) ''ping'' \<noteq> None \<Longrightarrow>
      polite ((SendTo f ''pong'' gl (a_peer a) len, b) # (Out s, x) # (RecvFrom f n fl, a) # h)"
  using assms by (simp_all add: polite_def usable_def res_simps pong_for_def)

lemma live_io [simp]:
  "live ((Recv f n fl, a) # h) = live h" "live ((Send f b fl, a) # h) = live h"
  "live ((RecvFrom f n fl, a) # h) = live h" "live ((SendTo f b fl p len, a) # h) = live h"
  "live ((SetSockOpt f k o1, a) # h) = live h" "live ((Bind f ad len, a) # h) = live h" "live ((Listen f k, a) # h) = live h"
  "live ((Connect f ad len, a) # h) = live h"
  by (simp_all add: res_simps)

lemma wp_die [wp_simps]: "wp (die m) Q E os h = (\<forall>a. answers os h (Err m) a \<longrightarrow> E (Exit 1) ((Err m, a) # h))"
  by (simp add: die_def wp_simps)

lemma wp_unless_quit [wp_simps]:
  "terminated buf \<Longrightarrow> wp (unless_quit buf) Q E os h =
     Q (if strstr_at (cstr buf) ''quit'' = None then Again () else Leave ()) h"
  by (simp add: unless_quit_def wp_simps)

text \<open>What a full read leaves in the array.\<close>

lemma read_facts:
  assumes "0 < a_ret a" and "a_ret a \<le> 1023" and "length (a_buf a) = nat (a_ret a)"
  shows "terminated (overlay (zeros 1024) 0 (a_buf a))"
    and "(overlay (zeros 1024) 0 (a_buf a))[nat (a_ret a) := NUL] = overlay (zeros 1024) 0 (a_buf a)"
    and "cstr (overlay (zeros 1024) 0 (a_buf a)) = cstr (a_buf a)"
    and "a_ret a < int (length (overlay (zeros 1024) 0 (a_buf a)))"
proof -
  have len: "length (a_buf a) < 1024" using assms by linarith
  then show "terminated (overlay (zeros 1024) 0 (a_buf a))" by simp
  show "(overlay (zeros 1024) 0 (a_buf a))[nat (a_ret a) := NUL] = overlay (zeros 1024) 0 (a_buf a)"
    using poke_received [OF len] assms(3) by simp
  show "cstr (overlay (zeros 1024) 0 (a_buf a)) = cstr (a_buf a)" using len by (simp add: cstr_received)
  show "a_ret a < int (length (overlay (zeros 1024) 0 (a_buf a)))" using assms(2) len by simp
qed

lemma wp_ping_round:
  assumes law: "lawful os" and h: "polite h" and f: "usable f (live h)"
  shows "wp (ping_round f u) (\<lambda>_ h'. polite h' \<and> live h' = live h) polite_stop os h"
  unfolding ping_round_def wp_bindp [of "sys c" for c] wp_sys
proof (intro allI impI, goal_cases)
  case (1 a)
  note l = recv_law [OF law 1, simplified]
  show ?case
  proof (cases "0 < a_ret a")
    case True
    note facts = read_facts [OF True] l
    show ?thesis
    proof (cases "strstr_at (cstr (a_buf a)) ''ping'' = None")
      case None: True
      show ?thesis using True None facts polite_answer(1) [OF h f True None]
        by (simp add: wp_simps Let_def del: live.simps)
    next
      case False
      then show ?thesis using True facts polite_answer(2) [OF h f True False]
        by (simp add: wp_simps Let_def pong_reply_def del: live.simps)
    qed
  qed (use h f in \<open>simp add: wp_simps del: live.simps\<close>)
qed

lemma wp_bound_socket:
  assumes law: "lawful os" and h: "polite h"
    and post: "\<And>f h'. polite h' \<Longrightarrow> usable f (live h') \<Longrightarrow> Q f h'"
  shows "wp (bound_socket type addr port) Q polite_stop os h"
  unfolding bound_socket_def wp_bindp [of "sys c" for c] wp_sys wp_if
  using h by (auto simp: wp_simps polite_def usable_def res_simps intro!: post)

lemma wp_pong_accept_round:
  assumes law: "lawful os" and h: "polite h" and s: "usable s (live h)"
  shows "wp (pong_accept_round m s u) (\<lambda>r h'. r = Again () \<and> polite h' \<and> live h' = live h) polite_stop os h"
  unfolding pong_accept_round_def wp_bindp [of "sys c" for c] wp_sys wp_if
proof (intro allI impI, goal_cases)
  case (1 a)
  let ?h = "(Accept s, a) # h" and ?f = "a_ret a"
  have p: "polite ?h" using h s by (simp add: polite_def usable_def res_simps)
  have f: "usable ?f (live ?h)" by (simp add: usable_def res_simps)
  have L: "live ?h - fd_res ?f = live h"
    using fresh_accept [OF law 1] by (auto simp: res_simps fd_res_def)
  have "wp (loop m (ping_round ?f) ()) (\<lambda>_ h'. polite h' \<and> live h' = live ?h) polite_stop os ?h"
  proof (rule wp_loop [where I = "\<lambda>_ h'. polite h' \<and> live h' = live ?h"], goal_cases)
    case (1 u h')
    then show ?case using f
      by (intro wp_mono [OF wp_ping_round [OF law, of h' ?f u]]) (auto split: iter.splits simp del: live.simps)
  qed (use p in auto)
  then have "wp (thenp (loop m (ping_round ?f) ()) (thenp (sys (Close ?f)) (ret (Again ())) :: (unit, unit) iter prog))
      (\<lambda>r h'. r = Again () \<and> polite h' \<and> live h' = live h) polite_stop os ?h"
    unfolding wp_thenp wp_sys wp_ret
  proof (rule wp_mono, goal_cases)
    case (1 u h')
    then show ?case using f L by (auto simp: polite_def usable_def needs_def releases_def acquires_def simp del: live.simps(1))
  qed
  then show ?case using p by (simp only: wp_die) simp
qed

lemma wp_pong_server:
  assumes law: "lawful os"
  shows "wp (pong_server_main m n) (\<lambda>_. polite) polite_stop os []"
  unfolding pong_server_main_def wp_bindp [of "bound_socket t a p" for t a p]
proof (rule wp_bound_socket [OF law], goal_cases)
  case 1
  show ?case by (simp add: polite_def)
next
  case (2 f h)
  have p: "polite ((Listen f 50, a) # h)" for a using 2 by (simp add: polite_def usable_def res_simps)
  have "wp (loop n (pong_accept_round m f) ()) (\<lambda>_ h'. polite h' \<and> live h' = live h) polite_stop os ((Listen f 50, a) # h)" for a
  proof (rule wp_loop [where I = "\<lambda>_ h'. polite h' \<and> live h' = live h"], goal_cases)
    case (1 u h')
    then show ?case using 2(2)
      by (intro wp_mono [OF wp_pong_accept_round [OF law, of h' f m u]]) (auto simp del: live.simps)
  qed (use p in \<open>auto simp del: live.simps\<close>)
  note loop = this
  have "polite ((Close f, a) # h')" if "polite h'" "live h' = live h" for a h'
    using that 2(2) by (simp add: polite_def usable_def res_simps)
  then show ?case using p unfolding wp_bindp [of "sys c" for c] wp_sys wp_if wp_die
    by (auto simp: wp_bindp wp_thenp wp_sys wp_ret intro!: wp_mono [OF loop])
qed

lemma recvfrom_law:
  assumes "lawful os" and "answers os h (RecvFrom f n fl) a" and "0 \<le> n"
  shows "- 1 \<le> a_ret a \<and> a_ret a \<le> n \<and> (0 \<le> a_ret a \<longrightarrow> length (a_buf a) = nat (a_ret a))"
  using lawfulD [OF assms(1,2)] assms(3) by (auto simp: answer_ok_def sane_read_def sane_count_def)

lemma wp_hello_server_round:
  assumes law: "lawful os" and h: "polite h" and f: "usable f (live h)"
  shows "wp (hello_server_round f u) (\<lambda>r h'. r = Again () \<and> polite h' \<and> live h' = live h) polite_stop os h"
  unfolding hello_server_round_def wp_bindp [of "sys c" for c] wp_sys
proof (intro allI impI, goal_cases)
  case (1 a)
  note l = recvfrom_law [OF law 1, simplified]
  show ?case
  proof (cases "0 < a_ret a")
    case True
    note facts = read_facts [OF True] l
    have r: "received a = overlay (zeros 1024) 0 (a_buf a)" using True by (simp add: received_def)
    show ?thesis
    proof (cases "strstr_at (cstr (a_buf a)) ''ping'' = None")
      case None: True
      show ?thesis using True None facts polite_answer(3) [OF h f True None]
        by (simp add: wp_simps r del: live.simps)
    next
      case False
      then obtain i where "strstr_at (cstr (a_buf a)) ''ping'' = Some i" by blast
      then show ?thesis using True facts polite_answer(4) [OF h f True False]
        by (simp add: wp_simps r del: live.simps)
    qed
  qed (use h f in \<open>simp add: wp_simps del: live.simps\<close>)
qed

lemma wp_hello_server:
  assumes law: "lawful os"
  shows "wp (hello_server_main n) (\<lambda>_. polite) polite_stop os []"
  unfolding hello_server_main_def wp_bindp [of "bound_socket t a p" for t a p]
proof (rule wp_bound_socket [OF law], goal_cases)
  case 1
  show ?case by (simp add: polite_def)
next
  case (2 f h)
  have "wp (loop n (hello_server_round f) ()) (\<lambda>_ h'. polite h' \<and> live h' = live h) polite_stop os h"
  proof (rule wp_loop [where I = "\<lambda>_ h'. polite h' \<and> live h' = live h"], goal_cases)
    case (1 u h')
    then show ?case using 2(2)
      by (intro wp_mono [OF wp_hello_server_round [OF law, of h' f u]]) (auto simp del: live.simps)
  qed (use 2(1) in \<open>auto simp del: live.simps\<close>)
  note loop = this
  have "polite ((Close f, a) # h')" if "polite h'" "live h' = live h" for a h'
    using that 2(2) by (simp add: polite_def usable_def res_simps)
  then show ?case by (auto simp: wp_bindp wp_thenp wp_sys wp_ret intro!: wp_mono [OF loop])
qed

section \<open>The clients\<close>

text \<open>\<open>calm f L h\<close>: the calls of a client on its descriptor change nothing that is live.\<close>

definition calm :: "int \<Rightarrow> res set \<Rightarrow> log \<Rightarrow> bool" where
  "calm f L h \<longleftrightarrow> disciplined h \<and> live h = L \<and> usable f L"

lemma calm_io [simp]:
  "calm f L ((Out s, a) # h) \<longleftrightarrow> calm f L h" "calm f L ((Err s, a) # h) \<longleftrightarrow> calm f L h"
  "calm f L ((SleepCall n, a) # h) \<longleftrightarrow> calm f L h"
  "calm f L ((Send f b fl, a) # h) \<longleftrightarrow> calm f L h" "calm f L ((Recv f n fl, a) # h) \<longleftrightarrow> calm f L h"
  "calm f L ((SendTo f b fl p len, a) # h) \<longleftrightarrow> calm f L h" "calm f L ((RecvFrom f n fl, a) # h) \<longleftrightarrow> calm f L h"
  by (auto simp: calm_def usable_def res_simps)

definition calm_stop :: "int \<Rightarrow> res set \<Rightarrow> stop \<Rightarrow> log \<Rightarrow> bool" where
  "calm_stop f L s h \<longleftrightarrow> clean_stop s h \<and> calm f L h"

lemma calm_stop_simps [simp]:
  "calm_stop f L (Exit c) h \<longleftrightarrow> calm f L h" "calm_stop f L Unfinished h \<longleftrightarrow> calm f L h"
  by (auto simp: calm_def calm_stop_def)

text \<open>A loop that counts its rounds in an \<open>int\<close> does not overflow it within fewer rounds.\<close>

lemma wp_counted:
  assumes step: "\<And>k h. k < 2147483647 \<Longrightarrow> calm f L h \<Longrightarrow>
      wp (body k) (\<lambda>r h'. (case r of Again i \<Rightarrow> i = k + 1 | Leave _ \<Rightarrow> True) \<and> calm f L h') (calm_stop f L) os h"
    and n: "n < 2147483647" and c: "calm f L h"
  shows "wp (loop n body (0 :: int)) (\<lambda>_. calm f L) (calm_stop f L) os h"
proof (rule wp_loop_count [where I = "\<lambda>k i h. i = int k \<and> calm f L h"], goal_cases)
  case (1 k i h')
  then have "i < 2147483647" "calm f L h'" using n by auto
  from wp_mono [OF step [OF this]] 1 show ?case by (auto split: iter.splits)
qed (use c in auto)

lemma wp_connected_socket:
  assumes law: "lawful os"
    and d: "disciplined h"
    and post: "\<And>i f h'. calm f (live h') h' \<Longrightarrow> Info i \<in> live h' \<Longrightarrow> Q (i, f) h'"
  shows "wp (connected_socket host port) Q clean_stop os h"
  unfolding connected_socket_def wp_bindp [of "sys c" for c] wp_sys wp_if wp_die
proof (intro allI impI, goal_cases)
  case (1 a)
  show ?case
  proof (cases "a_ret a = 0")
    case True
    then obtain p ps where "a_infos a = p # ps" using fresh_info [OF law 1] by (cases "a_infos a") auto
    with True d show ?thesis
      by (auto simp: wp_simps res_simps calm_def usable_def intro!: post)
  qed (use d in \<open>simp add: res_simps\<close>)
qed

lemma wp_ping_client_round:
  assumes k: "k < 2147483647" and c: "calm f L h"
  shows "wp (ping_client_round fl m sec f k) (\<lambda>r h'. (case r of Again i \<Rightarrow> i = k + 1 | Leave _ \<Rightarrow> True) \<and> calm f L h')
    (calm_stop f L) os h"
  using assms by (simp add: ping_client_round_def wp_simps Let_def)

lemma wp_ping_client:
  assumes law: "lawful os" and n: "n < 2147483647" and d: "disciplined h"
  shows "wp (ping_client fl m sec n) (\<lambda>_. disciplined) clean_stop os h"
proof -
  have len: "length (dec 8888) < 64" using dec_length [of 8888 4] by simp
  have t: "terminated (overlay (zeros 64) 0 (dec 8888 @ [NUL]))"
    by (rule terminated_overlay) (use len in simp)
  note port = len t
  have "wp (connected_socket host port) (\<lambda>(i, f). wp (loop n (ping_client_round fl m sec f) 0)
      (\<lambda>_ h'. calm f (live h') h' \<and> Info i \<in> live h') clean_stop os) clean_stop os h" for host port
  proof (rule wp_connected_socket [OF law d], simp only: prod.case, goal_cases)
    case (1 i f h')
    show ?case by (rule wp_mono [OF wp_counted [OF wp_ping_client_round n 1(1)]])
      (use 1 in \<open>simp_all add: calm_def calm_stop_def\<close>)
  qed
  note run = this
  have "wp (bindp (connected_socket host port) (\<lambda>(res, sockfd).
      bindp (loop n (ping_client_round fl m sec sockfd) 0) (\<lambda>_.
      thenp (sys (Close sockfd)) (thenp (sys (FreeAddrInfo res)) (ret 0))))) (\<lambda>_. disciplined) clean_stop os h" for host port
    unfolding wp_bindp [of "connected_socket a p" for a p]
  proof (rule wp_mono [OF run [of host port]], goal_cases)
    case (1 c h1)
    obtain i f where c: "c = (i, f)" by (cases c)
    from 1 show ?case unfolding c prod.case wp_bindp
    proof (rule wp_mono, goal_cases)
      case (1 u h2)
      then show ?case by (auto simp: wp_thenp wp_sys wp_ret calm_def usable_def res_simps)
    qed (simp add: calm_stop_def)
  qed
  with port show ?thesis by (simp add: ping_client_def wp_bindp [of "sprintf_to b s" for b s] wp_bindp [of "c_string b" for b]
      wp_sprintf_to wp_c_string)
qed

lemma wp_hello_client_round:
  assumes law: "lawful os" and k: "k < 2147483647" and c: "calm f L h"
  shows "wp (hello_client_round f r k) (\<lambda>r h'. (case r of Again i \<Rightarrow> i = k + 1 | Leave _ \<Rightarrow> True) \<and> calm f L h')
    (calm_stop f L) os h"
proof -
  have t: "terminated (received a)" if "answers os h (RecvFrom g 1023 fl) a" for h g fl a
    using recvfrom_law [OF law that] by (auto simp: received_def)
  show ?thesis using k c by (auto simp: hello_client_round_def wp_simps Let_def dest: t)
qed

lemma wp_hello_client:
  assumes law: "lawful os" and n: "n < 2147483647"
  shows "wp (hello_client_main n) (\<lambda>_. disciplined) clean_stop os []"
  unfolding hello_client_main_def wp_bindp [of "bound_socket t a p" for t a p]
proof (rule wp_mono [OF wp_bound_socket [OF law, where Q = "\<lambda>f h. calm f (live h) h"]], goal_cases)
  case (3 f h)
  show ?case unfolding wp_bindp [of "sys c" for c] wp_sys wp_if wp_die
  proof (intro allI impI, goal_cases)
    case (1 a)
    let ?h = "(GetAddrInfo (Some ''127.0.0.1'') ''3490''
      (zero_addrinfo\<lparr>ai_family := 2, ai_socktype := 2\<rparr>), a) # h"
    show ?case
    proof (cases "a_ret a = 0")
      case True
      then obtain p ps where ps: "a_infos a = p # ps" using fresh_info [OF law 1] by (cases "a_infos a") auto
      have c: "calm f (live ?h) ?h" using 3 True by (auto simp: calm_def usable_def res_simps)
      have i: "Info (a_ptr a) \<in> live ?h" using True by (simp add: res_simps)
      have "wp (loop n (hello_client_round f p) 0) (\<lambda>_. calm f (live ?h)) (calm_stop f (live ?h)) os ?h"
        by (rule wp_counted [OF wp_hello_client_round [OF law] n c])
      note loop = this
      show ?thesis unfolding ps using True i
        by (simp add: wp_bindp [of "getp e x" for e x] wp_getp wp_bindp [of "loop n b s" for n b s] del: live.simps)
          (rule wp_mono [OF loop], auto simp: wp_simps calm_def calm_stop_def usable_def res_simps)
    qed (use 3 in \<open>simp add: calm_def res_simps\<close>)
  qed
qed (simp_all add: calm_def polite_def polite_stop_def)

text \<open>The HTTP client, where its request array can be written and the host name fits it.\<close>

lemma wp_fetch_main:
  assumes law: "lawful os" and junk: "length junk = 256" and host: "length argv = 2 \<longrightarrow> length (argv ! 1) < 215"
  shows "wp (fetch_main True junk n argv) (\<lambda>_. disciplined) clean_stop os []"
proof -
  have "wp (loop n (fetch_round f) ()) (\<lambda>_. calm f L) (calm_stop f L) os h" if "calm f L h" for f L h
  proof (rule wp_loop [where I = "\<lambda>_. calm f L"], goal_cases)
    case (1 u h')
    then show ?case by (simp add: fetch_round_def wp_simps)
  qed (use that in auto)
  note loop = this
  let ?text = "fmt [''GET / HTTP/1.1'', [LF], ''Host: '', argv ! 1, [LF], ''Connection: close'', [LF, LF]]"
  show ?thesis
  proof (cases "length argv = 2")
    case True
    then have fits: "length ?text < length junk" using junk host by (simp add: fmt_def)
    have rest: "wp (
         thenp (puts ''Connected'') (thenp (puts ''Sending http request...'')
         (thenp (guardp Const_Write True) (bindp (sprintf_to junk ?text) (\<lambda>http_request. bindp (sys (Send f http_request 0)) (\<lambda>w.
          thenp (if a_ret w > 0 then put_out (fmt [''Send '', dec (a_ret w), '' bytes'', [LF]])
                 else if a_ret w = 0 then thenp (put_out (fmt [''Connection closed by peer'', [LF]])) (halt (Exit 1))
                 else die ''send failed'')
          (thenp (puts ''Receiving http response...'')
          (thenp (loop n (fetch_round f) ())
          (thenp (sys (Close f)) (thenp (sys (FreeAddrInfo i)) (ret 0)))))))))))
        (\<lambda>_. disciplined) (calm_stop f (live h)) os h"
      if "calm f (live h) h" "Info i \<in> live h" for i f h
    proof -
      have "wp (loop n (fetch_round f) ()) (\<lambda>_ h'. \<forall>a b. disciplined ((FreeAddrInfo i, b) # (Close f, a) # h')) (calm_stop f (live h)) os h'"
        if "calm f (live h) h'" for h'
        by (rule wp_mono [OF loop [OF that]]) (use \<open>Info i \<in> live h\<close> in \<open>auto simp: calm_def calm_stop_def usable_def res_simps\<close>)
      note loop = this
      show ?thesis using that fits
        by (auto simp: puts_def wp_simps simp del: live.simps disciplined.simps intro!: wp_mono [OF loop])
    qed
    show ?thesis unfolding fetch_main_def using True
      by (simp add: puts_def [of "''Connecting...''"] wp_thenp [of "put_out t" for t] wp_put_out wp_bindp [of "connected_socket a p" for a p] del: One_nat_def)
        (intro allI impI wp_connected_socket [OF law], simp add: needs_def, simp only: prod.case, rule wp_mono [OF rest], simp_all add: calm_stop_def)
  qed (simp add: fetch_main_def puts_def wp_simps res_simps)
qed

text \<open>As C has it, the client never gets to its request: it stops at the write, if not before, and
  nothing is ever sent.\<close>

theorem fetch_writes_const:
  assumes "lawful os"
  shows "(\<forall>s fl b a. (Send s b fl, a) \<notin> set (snd (fetch_main False junk n argv os [])))
    \<and> (case fst (fetch_main False junk n argv os []) of Stop (Exit c) \<Rightarrow> c = 1 | r \<Rightarrow> r = Stop (Fault Const_Write))"
proof -
  let ?P = "\<lambda>_ c. case c of Send _ _ _ \<Rightarrow> False | _ \<Rightarrow> True"
  have "traced os ?P (fetch_main False junk n argv)"
    unfolding fetch_main_def connected_socket_def die_def perror_def puts_def put_err_def put_out_def guardp_def
    by (auto intro!: traced_intros)
  then have "(Send s b fl, a) \<notin> set (snd (fetch_main False junk n argv os []))" for s fl b a
    using trace_ok_member [OF traced_run, of os ?P _ "Send s b fl" a] by auto
  moreover have "wp (fetch_main False junk n argv) (\<lambda>_ _. False) (\<lambda>e _. e = Exit 1 \<or> e = Fault Const_Write) os []"
  proof -
    have "wp (connected_socket (argv ! 1) ''http'') (\<lambda>_ _. True) (\<lambda>e _. e = Exit 1 \<or> e = Fault Const_Write) os h" for h
      unfolding connected_socket_def by (auto simp: wp_simps die_def dest: fresh_info [OF assms] split: list.split)
    note open_it = this
    show ?thesis unfolding fetch_main_def guardp_def
      by (auto simp: puts_def wp_thenp wp_put_out wp_halt wp_bindp [of "connected_socket a p" for a p] intro!: wp_mono [OF open_it [simplified]])
  qed
  ultimately show ?thesis by (auto simp: wp_def split: prod.splits outcome.splits)
qed

lemma wp_mt_server_setup:
  assumes law: "lawful os"
  shows "wp (mt_server_setup strerror) (\<lambda>_. disciplined) clean_stop os []"
  unfolding mt_server_setup_def mt_listen_on_ipv4_tcp_socket_def listen_on_ipv4_tcp_socket_def puts_def
  by (auto simp: wp_simps res_simps)

section \<open>Properties\<close>

text \<open>
  C9: The ping servers, over TCP and over UDP, behave exactly as the reference says: in every
  environment that behaves as documented and however long they run, what they have sent is,
  in order, one pong for every received message that contains a ping, on the descriptor the
  message came from and to its sender, and nothing else.
\<close>

theorem pong_for_every_ping:
  assumes "lawful os"
  shows "said (snd (pong_server_main m n os [])) = concat (map pong_for (heard (snd (pong_server_main m n os []))))
    \<and> said (snd (hello_server_main n os [])) = concat (map pong_for (heard (snd (hello_server_main n os []))))"
  using wp_pong_server [OF assms, of m n] wp_hello_server [OF assms, of n]
  by (auto simp: wp_def polite_def polite_stop_def split: prod.splits outcome.splits)

theorem pong_for_every_ping_witness:
  "said (snd (pong_server_main 4 1 (sim_os [''a ping'', ''hello'', ''ping'', ''quit'']) []))
      = concat (map pong_for (heard (snd (pong_server_main 4 1 (sim_os [''a ping'', ''hello'', ''ping'', ''quit'']) []))))
    \<and> said (snd (hello_server_main 2 (sim_os [''ping'', ''hello'']) []))
      = concat (map pong_for (heard (snd (hello_server_main 2 (sim_os [''ping'', ''hello'']) []))))"
  by (rule conjI [OF conjunct1 [OF pong_for_every_ping [OF lawful_sim_os]] conjunct2 [OF pong_for_every_ping [OF lawful_sim_os]]])

text \<open>
  C29: No other program of this directory uses or closes a descriptor that is not open, frees an
  address list twice, or has undefined behaviour: no string is read past its array, and the
  counters of the clients do not overflow within 2147483646 rounds. (The HTTP client is not
  one of them: it writes to an array that is declared constant.)
\<close>

theorem my_programs_ok:
  assumes "lawful os" and "n < 2147483647"
  shows "safe_run (pong_server_main m k os []) \<and> safe_run (hello_server_main k os [])
    \<and> safe_run (ping_client_main n os []) \<and> safe_run (sleeping_client_main n argv os [])
    \<and> safe_run (client_main n argv os []) \<and> safe_run (hello_client_main n os [])
    \<and> safe_run (mt_server_setup strerror os [])"
proof -
  have "safe_run (pong_server_main m k os [])" "safe_run (hello_server_main k os [])"
    by (rule safe_runI, rule wp_mono [OF wp_pong_server [OF assms(1)]] wp_mono [OF wp_hello_server [OF assms(1)]],
        simp_all add: polite_def polite_stop_def)+
  moreover have "safe_run (sleeping_client_main n argv os [])"
    by (rule safe_runI) (auto simp: sleeping_client_main_def wp_simps res_simps intro!: wp_ping_client assms(1,2))
  ultimately show ?thesis using assms(1,2)
    by (simp add: client_main_def ping_client_main_def safe_runI wp_ping_client wp_hello_client wp_mt_server_setup)
qed

theorem my_programs_ok_witness:
  "safe_run (pong_server_main 4 1 (sim_os [''ping'', ''quit'']) []) \<and> safe_run (hello_server_main 1 (sim_os [''ping'', ''quit'']) [])
    \<and> safe_run (ping_client_main 3 (sim_os [''ping'', ''quit'']) [])
    \<and> safe_run (sleeping_client_main 3 [''ping_client'', ''2''] (sim_os [''ping'', ''quit'']) [])
    \<and> safe_run (client_main 3 [''ping_client'', ''2''] (sim_os [''ping'', ''quit'']) [])
    \<and> safe_run (hello_client_main 3 (sim_os [''ping'', ''quit'']) [])
    \<and> safe_run (mt_server_setup (\<lambda>_. ''failed'') (sim_os [''ping'', ''quit'']) [])"
  by (rule my_programs_ok [OF lawful_sim_os]) simp_all

text \<open>
  Where the HTTP client's request array can be written, it behaves as the others, for a host
  name that fits the array.
\<close>

theorem fetch_ok:
  assumes "lawful os" and "length junk = 256" and "length host < 215"
  shows "safe_run (fetch_main True junk k [prog, host] os [])"
  by (rule safe_runI [OF wp_fetch_main]) (use assms in simp_all)

text \<open>
  The client with a pause sleeps, after every message, for the number of seconds its
  argument spells, when that is a number that an \<open>int\<close> holds: \<open>atoi\<close> reads back what \<open>%d\<close>
  prints, and the conversion to \<open>unsigned\<close> keeps it.
\<close>

theorem sleeps_as_told:
  assumes "0 \<le> s" and "s < 2 ^ 31" and "(SleepCall t, e) \<in> set (snd (sleeping_client_main n [prog, dec s] os []))"
  shows "t = s"
proof -
  have "strtol (dec s) = s" using assms by (intro strtol_dec) simp
  then have "uint (word_of_int (atoi (dec s)) :: 32 word) = s"
    using assms by (simp add: atoi_def take_bit_int_eq_self uint_word_of_int)
  then have "traced os (\<lambda>_ c. case c of SleepCall t \<Rightarrow> t = s | _ \<Rightarrow> True) (sleeping_client_main n [prog, dec s])"
    unfolding sleeping_client_main_def ping_client_def connected_socket_def ping_client_round_def die_def perror_def put_err_def put_out_def
    by (auto simp: Let_def sprintf_to_def c_string_def intro!: traced_intros)
  from trace_ok_member [OF traced_run [OF this] assms(3)] show ?thesis by simp
qed

theorem sleeps_as_told_witness:
  "\<exists>(os :: os) t e. (SleepCall t, e) \<in> set (snd (sleeping_client_main 1 [''ping_client'', dec 2] os [])) \<and> t = 2"
proof -
  let ?os = "\<lambda>h c. case c of GetAddrInfo _ _ _ \<Rightarrow> (plain 0)\<lparr>a_infos := [zero_addrinfo]\<rparr> | Send _ _ _ \<Rightarrow> plain 4 | _ \<Rightarrow> plain 0"
  let ?h = "snd (sleeping_client_main 1 [''ping_client'', dec 2] ?os [])"
  have d: "dec 2 = ''2''" "dec 8888 = ''8888''" by (simp_all add: dec_def dec_nat.simps digit_def char_of_def bit_Suc_0_iff)
  have "SleepCall 2 \<in> fst ` set ?h"
    by (simp add: d sleeping_client_main_def ping_client_def connected_socket_def ping_client_round_def
        atoi_def strtol_def is_space_def prog_defs sprintf_to_def c_string_def put_out_def Let_def)
  then obtain e where "(SleepCall 2, e) \<in> set ?h" by fastforce
  with sleeps_as_told [OF _ _ this] show ?thesis by fastforce
qed

end
