(* ===== verification/Http_Message.thy ===== *)
theory Http_Message
  imports C_Number "HOL-Library.AList"
begin

text \<open>
  The messages of the C++ server \<open>01_networking_libraries/my_http_server\<close>: the parser of
  requests (\<open>http_parser.cpp\<close>) and the printer of responses (\<open>http_response.cpp\<close>). Both are
  functions on strings; an exception of the parser is the left value of a sum. The lemmas
  take a message apart line by line; the properties are that the parser reads back what a
  client that keeps to the format has printed, and also what the server itself prints.
\<close>

section \<open>Streams of characters\<close>

text \<open>\<open>std::getline(iss, line)\<close>: the line and what is left, or failure at the end.\<close>

definition getline :: "bytes \<Rightarrow> (bytes \<times> bytes) option" where
  "getline s = (if s = [] then None
     else Some (takeWhile (\<lambda>c. c \<noteq> LF) s, drop 1 (dropWhile (\<lambda>c. c \<noteq> LF) s)))"

text \<open>\<open>iss >> word\<close>: at the end of the stream the word is empty.\<close>

definition read_word :: "bytes \<Rightarrow> bytes \<times> bytes" where
  "read_word s = (let t = dropWhile is_space s
     in (takeWhile (\<lambda>c. \<not> is_space c) t, dropWhile (\<lambda>c. \<not> is_space c) t))"

lemma getline_shorter: "getline s = Some (line, rest) \<Longrightarrow> length rest < length s"
proof -
  assume "getline s = Some (line, rest)"
  then have "s \<noteq> []" and "rest = drop 1 (dropWhile (\<lambda>c. c \<noteq> LF) s)" by (auto simp: getline_def split: if_splits)
  moreover have "length (dropWhile (\<lambda>c. c \<noteq> LF) s) \<le> length s" by (rule length_dropWhile_le)
  ultimately show ?thesis by (cases "dropWhile (\<lambda>c. c \<noteq> LF) s") auto
qed

section \<open>Requests\<close>

record http_request =
  m_method :: bytes
  m_path :: bytes
  m_headers :: "bytes \<rightharpoonup> bytes"
  m_body :: bytes

definition empty_request :: http_request where
  "empty_request = \<lparr>m_method = [], m_path = [], m_headers = (\<lambda>k. None), m_body = []\<rparr>"

text \<open>The first line\<close>

definition parse_first_line :: "bytes \<Rightarrow> http_request \<Rightarrow> http_request" where
  "parse_first_line line request = (let (method, rest) = read_word line; (path, rest) = read_word rest
     in request\<lparr>m_method := method, m_path := path\<rparr>)"

text \<open>A line of the form \<open>key: value\<close>, with an optional CR at its end\<close>

definition header_of :: "bytes \<Rightarrow> (bytes \<times> bytes) option" where
  "header_of line0 = (let line = (if line0 \<noteq> [] \<and> last line0 = CR then butlast line0 else line0)
     in case first_index (\<lambda>c. c = CHR '':'') line of None \<Rightarrow> None
     | Some pivot \<Rightarrow> let val = drop (pivot + 1) line
         in Some (take pivot line, if val \<noteq> [] \<and> hd val = CHR '' '' then tl val else val))"

text \<open>The header lines up to the empty one; the second result is what is left of the stream.\<close>

function parse_headers :: "bytes \<Rightarrow> (bytes \<rightharpoonup> bytes) \<Rightarrow> (bytes \<rightharpoonup> bytes) \<times> bytes" where
  "parse_headers s headers = (case getline s of None \<Rightarrow> (headers, [])
   | Some (line, rest) \<Rightarrow> if line = [CR] then (headers, rest)
       else parse_headers rest (case header_of line of None \<Rightarrow> headers | Some (key, val) \<Rightarrow> headers(key \<mapsto> val)))"
  by pat_completeness auto
termination
  by (relation "measure (\<lambda>(s, headers). length s)") (auto dest: getline_shorter)

declare parse_headers.simps [simp del]

text \<open>\<open>HTTPParser::parse\<close>. The length of the body is converted to \<open>size_t\<close>, so that a negative
  one is beyond every string.\<close>

definition http_parse :: "bytes \<Rightarrow> exn + http_request" where
  "http_parse raw_request = (let
      (request, rest) = (case getline raw_request of None \<Rightarrow> (empty_request, [])
        | Some (line, rest) \<Rightarrow> (if line \<noteq> [CR] then parse_first_line line empty_request else empty_request, rest));
      (headers, rest) = parse_headers rest (m_headers request);
      request = request\<lparr>m_headers := headers\<rparr>
    in case headers ''Content-Length'' of None \<Rightarrow> Inr request
    | Some v \<Rightarrow> (case stoi v of Inl e \<Rightarrow> Inl e
      | Inr body_length \<Rightarrow> if body_length < 0 then Inl Length_Error
          else Inr (request\<lparr>m_body := overlay (zeros (nat body_length)) 0 (take (nat body_length) rest)\<rparr>)))"

section \<open>Responses\<close>

text \<open>The constructor ignores its arguments; \<open>m_status\<close> starts with whatever was there.\<close>

record http_response =
  m_status :: int
  rs_headers :: "(bytes \<times> bytes) list"
  rs_body :: bytes

definition new_response :: "int \<Rightarrow> http_response" where
  "new_response junk = \<lparr>m_status = junk, rs_headers = [], rs_body = []\<rparr>"

definition set_status :: "int \<Rightarrow> http_response \<Rightarrow> http_response" where
  "set_status status r = r\<lparr>m_status := status\<rparr>"

definition set_header :: "bytes \<Rightarrow> bytes \<Rightarrow> http_response \<Rightarrow> http_response" where
  "set_header key val r = r\<lparr>rs_headers := AList.update key val (rs_headers r)\<rparr>"

definition set_body :: "bytes \<Rightarrow> http_response \<Rightarrow> http_response" where
  "set_body body r = set_header ''Content-Length'' (dec (int (length body))) (r\<lparr>rs_body := body\<rparr>)"

definition code_to_message :: "int \<Rightarrow> bytes" where
  "code_to_message code = (if code = 200 then ''OK'' else if code = 404 then ''Not Found''
     else if code = 500 then ''Internal Server Error'' else ''Unknown'')"

definition response_text :: "http_response \<Rightarrow> bytes" where
  "response_text r = concat [''HTTP/1.1 '', dec (m_status r), '' '', code_to_message (m_status r), [CR, LF],
     concat (map (\<lambda>(key, val). concat [key, '':'', val, [CR, LF]]) (rs_headers r)),
     ''Content-Length: '', dec (int (length (rs_body r))), [CR, LF], [CR, LF], rs_body r]"

section \<open>Messages line by line\<close>

lemma getline_LF: "LF \<notin> set line \<Longrightarrow> getline (line @ LF # rest) = Some (line, rest)"
  by (auto simp: getline_def takeWhile_append dropWhile_append takeWhile_eq_all_conv [THEN iffD2])

text \<open>What the parser keeps of the text behind the colon\<close>

definition value_of :: "bytes \<Rightarrow> bytes" where
  "value_of w = (if w \<noteq> [] \<and> hd w = CHR '' '' then tl w else w)"

lemma header_of_line:
  assumes "CHR '':'' \<notin> set key"
  shows "header_of (key @ CHR '':'' # w @ [CR]) = Some (key, value_of w)"
proof -
  have "first_index (\<lambda>c. c = CHR '':'') (key @ CHR '':'' # w) = Some (length key)"
    using assms by (induction key) auto
  then show ?thesis by (simp add: header_of_def Let_def value_of_def butlast_append)
qed

text \<open>A block of header lines, each a key and what follows its colon\<close>

definition header_lines :: "(bytes \<times> bytes) list \<Rightarrow> bytes" where
  "header_lines hs = concat (map (\<lambda>(key, w). key @ CHR '':'' # w @ [CR, LF]) hs)"

definition header_ok :: "bytes \<times> bytes \<Rightarrow> bool" where
  "header_ok h \<longleftrightarrow> CHR '':'' \<notin> set (fst h) \<and> LF \<notin> set (fst h) \<and> LF \<notin> set (snd h)"

primrec collect :: "(bytes \<times> bytes) list \<Rightarrow> (bytes \<rightharpoonup> bytes) \<Rightarrow> (bytes \<rightharpoonup> bytes)" where
  "collect [] headers = headers"
| "collect (h # hs) headers = collect hs (headers(fst h \<mapsto> value_of (snd h)))"

lemma parse_header_lines:
  assumes "list_all header_ok hs"
  shows "parse_headers (header_lines hs @ [CR, LF] @ body) headers =
    (collect hs headers, body)"
  using assms
proof (induction hs arbitrary: headers)
  case Nil
  have "getline ([CR] @ LF # body) = Some ([CR], body)" by (rule getline_LF) simp
  then show ?case by (subst parse_headers.simps) (simp add: header_lines_def)
next
  case (Cons h hs)
  obtain key w where h: "h = (key, w)" by (cases h)
  with Cons.prems have ok: "CHR '':'' \<notin> set key" "LF \<notin> set (key @ CHR '':'' # w @ [CR])" by (auto simp: header_ok_def)
  have "header_lines (h # hs) @ [CR, LF] @ body = (key @ CHR '':'' # w @ [CR]) @ LF # (header_lines hs @ [CR, LF] @ body)"
    by (simp add: header_lines_def h)
  with getline_LF [OF ok(2)] have "getline (header_lines (h # hs) @ [CR, LF] @ body)
      = Some (key @ CHR '':'' # w @ [CR], header_lines hs @ [CR, LF] @ body)" by simp
  moreover have "key @ CHR '':'' # w @ [CR] \<noteq> [CR]" by (cases key) auto
  moreover have "parse_headers (header_lines hs @ [CR, LF] @ body) (headers(key \<mapsto> value_of w))
      = (collect hs (headers(key \<mapsto> value_of w)), body)"
    using Cons by simp
  ultimately show ?case using header_of_line [OF ok(1), of w]
    by (subst parse_headers.simps) (simp add: h)
qed

text \<open>Two words and the rest of a first line\<close>

lemma parse_first_words:
  assumes "\<forall>c \<in> set x. \<not> is_space c" and "\<forall>c \<in> set y. \<not> is_space c" and "x \<noteq> []" and "y \<noteq> []"
  shows "parse_first_line (x @ CHR '' '' # y @ CHR '' '' # rest) r = r\<lparr>m_method := x, m_path := y\<rparr>"
proof -
  have word: "read_word (w @ CHR '' '' # t) = (w, CHR '' '' # t)" if "\<forall>c \<in> set w. \<not> is_space c" "w \<noteq> []" for w t
    using that by (cases w) (auto simp: read_word_def Let_def is_space_def takeWhile_append dropWhile_append)
  have skip: "read_word (CHR '' '' # t) = read_word t" for t
    by (simp add: read_word_def is_space_def)
  show ?thesis
    using assms by (simp add: parse_first_line_def word skip)
qed

text \<open>A whole message: its body is read if its length is given.\<close>

lemma http_parse_head:
  assumes "\<forall>c \<in> set x. \<not> is_space c" and "\<forall>c \<in> set y. \<not> is_space c" and "x \<noteq> []" and "y \<noteq> []" and "LF \<notin> set rest"
    and hs: "list_all header_ok hs"
  shows "http_parse (x @ CHR '' '' # y @ CHR '' '' # rest @ [LF] @ header_lines hs @ [CR, LF] @ body)
    = (let m = collect hs (\<lambda>k. None) in case m ''Content-Length'' of
        None \<Rightarrow> Inr \<lparr>m_method = x, m_path = y, m_headers = m, m_body = []\<rparr>
      | Some v \<Rightarrow> (case stoi v of Inl e \<Rightarrow> Inl e
        | Inr n \<Rightarrow> if n < 0 then Inl Length_Error else Inr \<lparr>m_method = x, m_path = y, m_headers = m,
            m_body = overlay (zeros (nat n)) 0 (take (nat n) body)\<rparr>))"
proof -
  let ?first = "x @ CHR '' '' # y @ CHR '' '' # rest"
  have "is_space LF" by (simp add: is_space_def)
  then have "LF \<notin> set x" "LF \<notin> set y" using assms(1,2) by blast+
  then have no: "LF \<notin> set ?first" using assms(5) by simp
  have ne: "?first \<noteq> [CR]" using \<open>x \<noteq> []\<close> by (cases x) auto
  let ?raw = "x @ CHR '' '' # y @ CHR '' '' # rest @ [LF] @ header_lines hs @ [CR, LF] @ body"
  have g: "getline ?raw = Some (?first, header_lines hs @ [CR, LF] @ body)"
    using getline_LF [OF no, of "header_lines hs @ [CR, LF] @ body"] by simp
  note p = parse_first_words [OF assms(1-4), of rest empty_request]
  note q = parse_header_lines [OF hs, of body "\<lambda>k. None"]
  show ?thesis
    unfolding http_parse_def g Let_def option.case prod.case if_P [OF ne] p
    by (simp add: empty_request_def q del: append_Cons append.simps split: option.split sum.split)
qed

lemma length_of_body:
  assumes "length body < 2 ^ 31"
  shows "stoi (dec (int (length body))) = Inr (int (length body))" and "overlay (zeros (length body)) 0 body = body"
proof -
  have "int (length body) < 2 ^ 31" using assms by (metis of_nat_less_iff of_nat_numeral of_nat_power)
  then show "stoi (dec (int (length body))) = Inr (int (length body))" by (simp add: stoi_dec)
qed (simp add: overlay_def)

lemma dec_plain: "c \<in> set (dec i) \<Longrightarrow> c = CHR ''-'' \<or> (\<exists>d < 10. c = digit d)"
  by (auto simp: dec_def dest: dec_nat_digits split: if_splits)

lemma dec_clean: "c \<in> set (dec i) \<Longrightarrow> \<not> is_space c \<and> c \<noteq> CHR '':'' \<and> c \<noteq> CHR '' ''"
proof -
  have "\<not> is_space (digit d) \<and> digit d \<noteq> CHR '':'' \<and> digit d \<noteq> CHR '' ''" if "d < 10" for d
  proof -
    have "(of_char (digit d) :: nat) = 48 + d" using that by (simp add: digit_code)
    then show ?thesis using that by (auto simp: is_space_def)
  qed
  moreover assume "c \<in> set (dec i)"
  ultimately show ?thesis using dec_plain [of c i] by (auto simp: is_space_def)
qed

lemma dec_nonempty [simp]: "dec i \<noteq> []"
proof -
  have "dec_nat n \<noteq> []" for n by (subst dec_nat.simps) simp
  then show ?thesis by (simp add: dec_def)
qed

section \<open>Properties\<close>

text \<open>How a client prints a request\<close>

definition request_text :: "bytes \<Rightarrow> bytes \<Rightarrow> (bytes \<times> bytes) list \<Rightarrow> bytes \<Rightarrow> bytes" where
  "request_text method path headers body = concat [method, '' '', path, '' HTTP/1.1'', [CR, LF],
     concat (map (\<lambda>(key, val). concat [key, '': '', val, [CR, LF]]) headers), [CR, LF], body]"

lemma collect_spaced: "collect (map (\<lambda>(key, val). (key, CHR '' '' # val)) hs) m = m ++ map_of (rev hs)"
  by (induction hs arbitrary: m) (auto simp: value_of_def map_add_assoc)

text \<open>
  C11: The parser reads back every request that is printed as the format says: the method and
  path, which are words; the headers, the last one of a key counting, if no key has a colon
  or a line feed in it and no value a line feed; and the body, whose length is in the header
  \<open>Content-Length\<close> whenever there is a body.
\<close>

theorem request_roundtrip:
  assumes "method \<noteq> []" and "path \<noteq> []" and "\<forall>c \<in> set (method @ path). \<not> is_space c"
    and "\<forall>(key, val) \<in> set hs. CHR '':'' \<notin> set key \<and> LF \<notin> set key \<and> LF \<notin> set val"
    and "map_of (rev hs) ''Content-Length'' = (if with_body then Some (dec (int (length body))) else None)"
    and "length body < 2 ^ 31" and "\<not> with_body \<Longrightarrow> body = []"
  shows "http_parse (request_text method path hs body)
    = Inr \<lparr>m_method = method, m_path = path, m_headers = map_of (rev hs), m_body = body\<rparr>"
proof -
  let ?hs = "map (\<lambda>(key, val). (key, CHR '' '' # val)) hs"
  have ok: "list_all header_ok ?hs" using assms(4) by (auto simp: list_all_iff header_ok_def)
  have printed: "request_text method path hs body =
      method @ CHR '' '' # path @ CHR '' '' # (''HTTP/1.1'' @ [CR]) @ [LF] @ header_lines ?hs @ [CR, LF] @ body"
    by (simp add: request_text_def header_lines_def comp_def case_prod_unfold)
  show ?thesis
    unfolding printed using assms(1-3,5-7) length_of_body [OF assms(6)]
    by (subst http_parse_head [OF _ _ _ _ _ ok]) (auto simp: collect_spaced Let_def split: if_splits)
qed

theorem request_roundtrip_witness:
  "http_parse (request_text ''POST'' ''/a'' [(''Host'', ''x''), (''Content-Length'', dec (int (length ''hi'')))] ''hi'')
    = Inr \<lparr>m_method = ''POST'', m_path = ''/a'',
        m_headers = map_of (rev [(''Host'', ''x''), (''Content-Length'', dec (int (length ''hi'')))]), m_body = ''hi''\<rparr>"
  by (rule request_roundtrip [where with_body = True]) (auto simp: is_space_def dest: dec_clean)

text \<open>A response whose headers are what \<open>set_body\<close> leaves, or that has no body\<close>

definition framed :: "http_response \<Rightarrow> bool" where
  "framed r \<longleftrightarrow> rs_headers r = (if rs_body r = [] \<and> rs_headers r = [] then []
     else [(''Content-Length'', dec (int (length (rs_body r))))])"

lemma framed_intros: "framed (new_response c)" "framed r \<Longrightarrow> framed (set_status c r)" "framed r \<Longrightarrow> framed (set_body b r)"
  by (auto simp: framed_def new_response_def set_status_def set_body_def set_header_def split: if_splits)

text \<open>
  C15: What the server prints can be read back: the server's own parser finds the status code
  as the second word, the length and exactly the body in the text of a response. The length
  is printed twice, once from the headers and once by \<open>to_string\<close> itself, and both agree.
\<close>

theorem response_reads_back:
  assumes "framed r" and "length (rs_body r) < 2 ^ 31"
  shows "http_parse (response_text r) = Inr \<lparr>m_method = ''HTTP/1.1'', m_path = dec (m_status r),
      m_headers = [''Content-Length'' \<mapsto> dec (int (length (rs_body r)))], m_body = rs_body r\<rparr>"
proof -
  let ?n = "dec (int (length (rs_body r)))" and ?msg = "code_to_message (m_status r) @ [CR]"
  let ?hs = "rs_headers r @ [(''Content-Length'', CHR '' '' # ?n)]"
  have printed: "response_text r =
      ''HTTP/1.1'' @ CHR '' '' # dec (m_status r) @ CHR '' '' # ?msg @ [LF] @ header_lines ?hs @ [CR, LF] @ rs_body r"
    by (simp add: response_text_def header_lines_def comp_def case_prod_beta)
  have n: "CHR '':'' \<notin> set ?n" "LF \<notin> set ?n" by (auto dest: dec_clean)
  have ok: "list_all header_ok ?hs" using assms(1) n by (auto simp: framed_def header_ok_def split: if_splits)
  have v: "value_of ?n = ?n" using dec_clean [of "hd ?n", OF hd_in_set [OF dec_nonempty]] by (simp add: value_of_def)
  have m: "collect ?hs (\<lambda>k. None) = [''Content-Length'' \<mapsto> ?n]"
    using assms(1) v by (auto simp: framed_def value_of_def split: if_splits)
  have words: "\<forall>c \<in> set ''HTTP/1.1''. \<not> is_space c" "\<forall>c \<in> set (dec (m_status r)). \<not> is_space c"
    by (simp add: is_space_def, blast dest: dec_clean)
  have msg: "LF \<notin> set ?msg" by (simp add: code_to_message_def)
  show ?thesis
    unfolding printed using m length_of_body [OF assms(2)]
    by (subst http_parse_head [OF words _ dec_nonempty msg ok]) (simp_all add: Let_def)
qed

theorem response_reads_back_witness:
  "http_parse (response_text (set_body ''hello'' (set_status 200 (new_response 7))))
    = Inr \<lparr>m_method = ''HTTP/1.1'', m_path = dec 200, m_headers = [''Content-Length'' \<mapsto> dec 5], m_body = ''hello''\<rparr>"
  using response_reads_back [of "set_body ''hello'' (set_status 200 (new_response 7))"]
    framed_intros(3) [OF framed_intros(2) [OF framed_intros(1)], of "''hello''" 200 7]
  by (simp add: set_body_def set_header_def set_status_def new_response_def)

section \<open>What the parser can return\<close>

definition field_ok :: "bytes \<times> bytes \<Rightarrow> bool" where
  "field_ok f \<longleftrightarrow> CHR '':'' \<notin> set (fst f) \<and> LF \<notin> set (fst f) \<and> LF \<notin> set (snd f)"

text \<open>A well-formed request: two words, of which the second is not there without the first; finitely
  many fields; and a body of exactly the length that its field says.\<close>

definition wf_request :: "http_request \<Rightarrow> bool" where
  "wf_request r \<longleftrightarrow> (\<forall>c \<in> set (m_method r @ m_path r). \<not> is_space c) \<and> (m_method r = [] \<longrightarrow> m_path r = [])
     \<and> finite (dom (m_headers r)) \<and> (\<forall>k v. m_headers r k = Some v \<longrightarrow> field_ok (k, v))
     \<and> (case m_headers r ''Content-Length'' of None \<Rightarrow> m_body r = [] | Some v \<Rightarrow> stoi v = Inr (int (length (m_body r))))"

lemma getline_clean: "getline s = Some (line, rest) \<Longrightarrow> LF \<notin> set line"
  by (auto simp: getline_def split: if_splits dest: set_takeWhileD)

lemma header_of_ok:
  assumes "header_of line0 = Some f" and "LF \<notin> set line0"
  shows "field_ok f"
proof -
  define line where "line = (if line0 \<noteq> [] \<and> last line0 = CR then butlast line0 else line0)"
  have clean: "LF \<notin> set line" using assms(2) by (auto simp: line_def dest: in_set_butlastD)
  from assms(1) obtain i where i: "first_index (\<lambda>c. c = CHR '':'') line = Some i"
    and f: "f = (take i line, if drop (i + 1) line \<noteq> [] \<and> hd (drop (i + 1) line) = CHR '' '' then tl (drop (i + 1) line) else drop (i + 1) line)"
    by (auto simp: header_of_def line_def [symmetric] Let_def split: option.splits)
  have "CHR '':'' \<notin> set (take i line)"
    using first_index_Some [OF i] by (auto simp: in_set_conv_nth)
  moreover have "LF \<notin> set (take i line)" "LF \<notin> set (drop (i + 1) line)" using clean by (meson in_set_takeD in_set_dropD)+
  ultimately show ?thesis by (auto simp: field_ok_def f dest: list.set_sel(2) [rotated])
qed

lemma parse_headers_ok:
  assumes "finite (dom m)" and "\<forall>k v. m k = Some v \<longrightarrow> field_ok (k, v)"
  shows "finite (dom (fst (parse_headers s m))) \<and> (\<forall>k v. fst (parse_headers s m) k = Some v \<longrightarrow> field_ok (k, v))"
  using assms
proof (induction s m rule: parse_headers.induct)
  case (1 s m)
  show ?case
  proof (cases "getline s")
    case None
    with 1(2,3) show ?thesis by (subst (1 2) parse_headers.simps) simp
  next
    case (Some lr)
    obtain line rest where lr: "lr = (line, rest)" by (cases lr)
    let ?m = "case header_of line of None \<Rightarrow> m | Some (key, val) \<Rightarrow> m(key \<mapsto> val)"
    have "finite (dom ?m) \<and> (\<forall>k v. ?m k = Some v \<longrightarrow> field_ok (k, v))"
      using 1(2,3) getline_clean [of s line rest] Some lr header_of_ok [of line]
      by (auto split: option.splits if_splits)
    with 1 Some lr show ?thesis by (subst (1 2) parse_headers.simps) (auto split: if_splits)
  qed
qed

lemma first_line_words:
  "(\<forall>c \<in> set (m_method (parse_first_line line r) @ m_path (parse_first_line line r)). \<not> is_space c)
   \<and> (m_method (parse_first_line line r) = [] \<longrightarrow> m_path (parse_first_line line r) = [])
   \<and> m_headers (parse_first_line line r) = m_headers r \<and> m_body (parse_first_line line r) = m_body r"
proof -
  have words: "\<forall>c \<in> set (fst (read_word s)). \<not> is_space c" for s
    by (auto simp: read_word_def Let_def dest: set_takeWhileD)
  have empty: "fst (read_word s) = [] \<Longrightarrow> snd (read_word s) = []" for s
  proof (cases "dropWhile is_space s")
    case (Cons c t)
    then have "\<not> is_space c" by (simp add: dropWhile_eq_Cons_conv)
    with Cons show "fst (read_word s) = [] \<Longrightarrow> snd (read_word s) = []" by (simp add: read_word_def)
  next
    case Nil
    show "snd (read_word s) = []" unfolding read_word_def Let_def Nil by simp
  qed
  have "read_word [] = ([], [])" by (simp add: read_word_def)
  then show ?thesis
    using words [of line] words [of "snd (read_word line)"] empty [of line]
    by (auto simp: parse_first_line_def split: prod.splits)
qed

lemma request_without_fields:
  "http_parse (request_text ''GET'' ''/'' [] []) = Inr \<lparr>m_method = ''GET'', m_path = ''/'', m_headers = (\<lambda>k. None), m_body = []\<rparr>"
  using http_parse_head [of "''GET''" "''/''" "''HTTP/1.1'' @ [CR]" "[]" "[]"]
  by (simp add: request_text_def header_lines_def is_space_def)

lemma http_parse_wf:
  assumes "http_parse raw = Inr r"
  shows "wf_request r"
proof -
  define p where "p = (case getline raw of None \<Rightarrow> (empty_request, [])
        | Some (line, rest) \<Rightarrow> (if line \<noteq> [CR] then parse_first_line line empty_request else empty_request, rest))"
  obtain q rest where p: "p = (q, rest)" by (cases p)
  have "q = empty_request \<or> (\<exists>line. q = parse_first_line line empty_request)"
    using p by (auto simp: p_def split: option.splits if_splits)
  then have q: "(\<forall>c \<in> set (m_method q @ m_path q). \<not> is_space c) \<and> (m_method q = [] \<longrightarrow> m_path q = [])
    \<and> m_headers q = (\<lambda>k. None) \<and> m_body q = []"
  proof
    assume "\<exists>line. q = parse_first_line line empty_request"
    then obtain line where "q = parse_first_line line empty_request" ..
    with first_line_words [of line empty_request] show ?thesis by (simp add: empty_request_def)
  qed (simp add: empty_request_def)
  obtain m body where m: "parse_headers rest (m_headers q) = (m, body)" by fastforce
  have fields: "finite (dom m)" "\<And>k v. m k = Some v \<Longrightarrow> field_ok (k, v)"
    using parse_headers_ok [of "m_headers q" rest] m q by auto
  have "length (overlay (zeros n) 0 (take n body)) = n" for n by (simp add: overlay_def zeros_def)
  with assms p m q fields show ?thesis
    unfolding http_parse_def Let_def p_def [symmetric]
    by (auto simp: wf_request_def split: option.splits sum.splits if_splits)
qed

text \<open>The fields of a finite map can be listed, so that a well-formed request can be printed.\<close>

lemma fields_listed: "finite (dom m) \<Longrightarrow> \<exists>hs. map_of (rev hs) = m"
proof (induction m rule: finite_Map_induct)
  case empty
  show ?case by (rule exI [of _ "[]"]) simp
next
  case (update k v m)
  then obtain hs where "map_of (rev hs) = m" by blast
  then have "map_of (rev (hs @ [(k, v)])) = m(k \<mapsto> v)" by simp
  then show ?case by blast
qed

lemma reparse:
  assumes wf: "wf_request r" and path: "m_path r \<noteq> []" and hs: "map_of (rev hs) = m_headers r" "list_all field_ok hs"
  shows "http_parse (request_text (m_method r) (m_path r) hs (m_body r)) = Inr r"
proof -
  let ?hs = "map (\<lambda>(key, val). (key, CHR '' '' # val)) hs"
  have ok: "list_all header_ok ?hs" using hs by (auto simp: list_all_iff header_ok_def field_ok_def)
  have printed: "request_text (m_method r) (m_path r) hs (m_body r) =
      m_method r @ CHR '' '' # m_path r @ CHR '' '' # (''HTTP/1.1'' @ [CR]) @ [LF] @ header_lines ?hs @ [CR, LF] @ m_body r"
    by (simp add: request_text_def header_lines_def comp_def case_prod_unfold)
  have words: "\<forall>c \<in> set (m_method r). \<not> is_space c" "\<forall>c \<in> set (m_path r). \<not> is_space c" "m_method r \<noteq> []"
    using wf path by (auto simp: wf_request_def)
  have body: "overlay (zeros (length (m_body r))) 0 (m_body r) = m_body r" by (simp add: overlay_def)
  show ?thesis
    unfolding printed using wf hs body
    by (subst http_parse_head [OF words(1,2,3) path _ ok])
      (auto simp: collect_spaced Let_def wf_request_def split: option.splits)
qed

text \<open>A message may be accepted without a path; it is then no fixed point of printing.\<close>

lemma accepted_without_path:
  "http_parse ''GET'' = Inr \<lparr>m_method = ''GET'', m_path = [], m_headers = (\<lambda>k. None), m_body = []\<rparr>"
  by (simp add: http_parse_def parse_first_line_def read_word_def empty_request_def is_space_def getline_def parse_headers.simps Let_def)

text \<open>
  C12: Whatever the parser accepts is well-formed, with finitely many fields; and if it has a
  path, it is a fixed point of printing: printed again with its fields in any order that gives
  the same map, it is parsed to itself.
\<close>

theorem parsed_request_wf:
  assumes "http_parse raw = Inr r"
  shows "wf_request r \<and> (\<exists>hs. map_of (rev hs) = m_headers r)
    \<and> (\<forall>hs. m_path r \<noteq> [] \<and> map_of (rev hs) = m_headers r \<and> list_all field_ok hs \<longrightarrow>
         http_parse (request_text (m_method r) (m_path r) hs (m_body r)) = Inr r)"
proof (intro conjI allI impI)
  show wf: "wf_request r" using assms by (rule http_parse_wf)
  then show "\<exists>hs. map_of (rev hs) = m_headers r" by (simp add: fields_listed wf_request_def)
  show "http_parse (request_text (m_method r) (m_path r) hs (m_body r)) = Inr r"
    if "m_path r \<noteq> [] \<and> map_of (rev hs) = m_headers r \<and> list_all field_ok hs" for hs
    using reparse [OF wf] that by blast
qed

theorem parsed_request_wf_witness:
  "\<exists>r. http_parse (request_text ''GET'' ''/'' [] []) = Inr r \<and> wf_request r"
proof -
  have "http_parse (request_text ''GET'' ''/'' [] []) = Inr \<lparr>m_method = ''GET'', m_path = ''/'', m_headers = (\<lambda>k. None), m_body = []\<rparr>"
    by (rule request_without_fields)
  from parsed_request_wf [OF this] this show ?thesis by simp
qed

end
