(* ===== verification/Logger.thy ===== *)
theory Logger
  imports Posix
begin

text \<open>
  The logger of the C++ server, \<open>01_networking_libraries/my_http_server/logging.h\<close>: a singleton with
  a level and a mutex. Its methods lock the mutex for as long as they run (\<open>std::lock_guard\<close>).
  The mutex is modelled as the flag that it is held; locking it while it is held blocks for
  ever, since the server has no other thread that would release it.
\<close>

section \<open>Levels\<close>

datatype log_level = Inform | Debug | Error_Level

definition level_rank :: "log_level \<Rightarrow> nat" where
  "level_rank l = (case l of Inform \<Rightarrow> 0 | Debug \<Rightarrow> 1 | Error_Level \<Rightarrow> 2)"

text \<open>The enumerators are compared by their numbers.\<close>

instantiation log_level :: linorder
begin

definition less_eq_log_level :: "log_level \<Rightarrow> log_level \<Rightarrow> bool" where
  "l \<le> k \<longleftrightarrow> level_rank l \<le> level_rank k"

definition less_log_level :: "log_level \<Rightarrow> log_level \<Rightarrow> bool" where
  "l < k \<longleftrightarrow> level_rank l < level_rank k"

instance
proof
  fix x y :: log_level
  show "x \<le> y \<Longrightarrow> y \<le> x \<Longrightarrow> x = y"
    by (cases x; cases y) (simp_all add: less_eq_log_level_def level_rank_def)
qed (auto simp: less_eq_log_level_def less_log_level_def)

end

lemma Inform_least [simp]: "Inform \<le> l"
  by (simp add: less_eq_log_level_def level_rank_def)

section \<open>The singleton\<close>

record logger =
  m_logLevel :: log_level
  m_mutex :: bool

text \<open>\<open>getInstance\<close> gives the one instance, which starts with the lowest level.\<close>

definition new_logger :: logger where
  "new_logger = \<lparr>m_logLevel = Inform, m_mutex = False\<rparr>"

definition locked :: "(logger \<Rightarrow> logger prog) \<Rightarrow> logger \<Rightarrow> logger prog" where
  "locked body lg = (if m_mutex lg then halt Unfinished
     else bindp (body (lg\<lparr>m_mutex := True\<rparr>)) (\<lambda>lg. ret (lg\<lparr>m_mutex := False\<rparr>)))"

definition setLogLevel :: "log_level \<Rightarrow> logger \<Rightarrow> logger prog" where
  "setLogLevel level = locked (\<lambda>lg. ret (lg\<lparr>m_logLevel := level\<rparr>))"

definition log_message :: "log_level \<Rightarrow> bytes \<Rightarrow> bytes \<Rightarrow> logger \<Rightarrow> logger prog" where
  "log_message level prefix message = locked (\<lambda>lg. thenp (whenp (m_logLevel lg \<le> level)
     (bindp (sys TimeCall) (\<lambda>t. put_out (fmt [''['', dec (a_ret t), ''] '', prefix, message, [LF]])))) (ret lg))"

definition log_inform :: "bytes \<Rightarrow> logger \<Rightarrow> logger prog" where
  "log_inform message = log_message Inform ''[INFO] '' message"

definition log_debug :: "bytes \<Rightarrow> logger \<Rightarrow> logger prog" where
  "log_debug message = log_message Debug ''[DEBUG] '' message"

definition log_error :: "bytes \<Rightarrow> logger \<Rightarrow> logger prog" where
  "log_error message = log_message Error_Level ''[ERROR] '' message"

text \<open>The macros of the server, which never sets the level. By \<open>singleton_unchanged\<close> the instance is
  then always as it was created, so it need not be passed on.\<close>

definition LOGI :: "bytes \<Rightarrow> unit prog" where
  "LOGI message = thenp (log_inform message new_logger) (ret ())"

definition LOGE :: "bytes \<Rightarrow> unit prog" where
  "LOGE message = thenp (log_error message new_logger) (ret ())"

section \<open>What is logged\<close>

lemma wp_locked [wp_simps]:
  "wp (locked body lg) Q E os h = (if m_mutex lg then E Unfinished h
     else wp (body (lg\<lparr>m_mutex := True\<rparr>)) (\<lambda>lg. Q (lg\<lparr>m_mutex := False\<rparr>)) E os h)"
  by (simp add: locked_def wp_simps)

lemma wp_log_message:
  assumes "\<not> m_mutex lg"
  shows "wp (log_message level prefix message lg) Q E os h = (if m_logLevel lg \<le> level
     then (\<forall>t. answers os h TimeCall t \<longrightarrow> (\<forall>a. answers os ((TimeCall, t) # h)
        (Out (fmt [''['', dec (a_ret t), ''] '', prefix, message, [LF]])) a \<longrightarrow>
        Q lg ((Out (fmt [''['', dec (a_ret t), ''] '', prefix, message, [LF]]), a) # (TimeCall, t) # h)))
     else Q lg h)"
  using assms by (cases lg) (simp add: log_message_def wp_simps)

text \<open>Logging leaves the singleton as it was; only \<open>setLogLevel\<close> changes it, and only the level.\<close>

theorem singleton_unchanged:
  assumes "\<not> m_mutex lg"
  shows "wp (log_message level prefix message lg) (\<lambda>lg' h'. lg' = lg) (\<lambda>s h. False) os h"
    and "wp (setLogLevel l lg) (\<lambda>lg' h'. lg' = lg\<lparr>m_logLevel := l\<rparr> \<and> h' = h) (\<lambda>s h. False) os h"
  using assms by (simp_all add: wp_log_message wp_simps setLogLevel_def)

text \<open>After the level is set, exactly the messages that are not below it are printed.\<close>

theorem level_filters:
  "wp (bindp (setLogLevel l new_logger) (log_message k prefix message))
     (\<lambda>lg h'. \<not> m_mutex lg \<and> m_logLevel lg = l \<and>
        (if l \<le> k then \<exists>t a s. h' = (Out s, a) # (TimeCall, t) # h else h' = h)) (\<lambda>s h. False) os h"
  by (simp add: wp_simps setLogLevel_def new_logger_def wp_log_message)

lemma wp_LOG [wp_simps]:
  "wp (LOGI m) Q E os h = (\<forall>t. answers os h TimeCall t \<longrightarrow> (\<forall>a. answers os ((TimeCall, t) # h)
     (Out (fmt [''['', dec (a_ret t), ''] '', ''[INFO] '', m, [LF]])) a \<longrightarrow>
     Q () ((Out (fmt [''['', dec (a_ret t), ''] '', ''[INFO] '', m, [LF]]), a) # (TimeCall, t) # h)))"
  "wp (LOGE m) Q E os h = (\<forall>t. answers os h TimeCall t \<longrightarrow> (\<forall>a. answers os ((TimeCall, t) # h)
     (Out (fmt [''['', dec (a_ret t), ''] '', ''[ERROR] '', m, [LF]])) a \<longrightarrow>
     Q () ((Out (fmt [''['', dec (a_ret t), ''] '', ''[ERROR] '', m, [LF]]), a) # (TimeCall, t) # h)))"
  by (simp_all add: LOGI_def LOGE_def log_inform_def log_error_def wp_simps wp_log_message new_logger_def)

lemma quiet_LOG: "disciplined h \<Longrightarrow> quiet (LOGI m) os h" "disciplined h \<Longrightarrow> quiet (LOGE m) os h"
  by (simp_all add: quiet_def wp_LOG res_simps)

end
