(* ===== verification/Http_Server.thy ===== *)
theory Http_Server
  imports Poll_Server Http_Message Logger
begin

text \<open>
  The C++ server \<open>01_networking_libraries/my_http_server\<close> over its logger (theory \<open>Logger\<close>): the helpers
  (\<open>utils.cpp\<close>), the router over the file system (\<open>http_router.cpp\<close>), the handler of a
  connection (\<open>http_connection_handler.cpp\<close>), and the server loop over an array of two poll
  entries (\<open>http_server.cpp\<close>, \<open>main.cpp\<close>). What throws is a left value, which \<open>main\<close> catches.

  In the loop the \<open>else\<close> belongs to the test for \<open>POLLIN\<close>: an entry is handled as a client
  when it is \<^emph>\<open>not\<close> readable. The entry of a client that has just been accepted is tested before
  \<open>poll\<close> has ever written it, and the array is not initialised: \<open>first_client_undefined\<close>. The
  server works where the entry happens to hold a value without \<open>POLLIN\<close>: \<open>http_server_serial\<close>.
\<close>

section \<open>Helpers\<close>

definition cpp_print_sockaddr_info :: "sockaddr \<Rightarrow> unit prog" where
  "cpp_print_sockaddr_info sa =
     (if sa_family sa = AF_INET \<or> sa_family sa = AF_INET6
      then LOGI (fmt [sin_addr sa, '':'', dec (uint (ntohs (sin_port sa)))])
      else LOGE ''Unknown address family'')"

definition set_socket_nonblocking :: "int \<Rightarrow> unit prog" where
  "set_socket_nonblocking sock = bindp (sys (Fcntl sock F_GETFL 0)) (\<lambda>flags.
     if a_ret flags = - 1 then LOGE ''fcntl(F_GETFL) failed''
     else bindp (sys (Fcntl sock F_SETFL (a_ret flags OR O_NONBLOCK))) (\<lambda>a.
     whenp (a_ret a = - 1) (LOGE ''fcntl(F_SETFL, O_NONBLOCK) failed'')))"

section \<open>The router\<close>

text \<open>\<open>fs::exists(path) && fs::is_directory(path)\<close>; both throw when the status of the path
  cannot be determined.\<close>

definition is_site :: "bytes \<Rightarrow> (exn + bool) prog" where
  "is_site path = bindp (sys (PathExists path)) (\<lambda>e.
     if a_ret e < 0 then ret (Inl Filesystem_Error)
     else if a_ret e = 0 then ret (Inr False)
     else bindp (sys (IsDirectory path)) (\<lambda>d.
       ret (if a_ret d < 0 then Inl Filesystem_Error else Inr (a_ret d \<noteq> 0))))"

text \<open>The file is read as a whole; a size of -1 is beyond every string. A file that cannot be
  opened or read leaves the body empty.\<close>

definition load_page :: "bytes \<Rightarrow> http_response \<Rightarrow> (exn + http_response) prog" where
  "load_page filename response = bindp (sys (FileOpen filename)) (\<lambda>f.
     if a_ret f = 0 then ret (Inr response)
     else bindp (sys (FileSize filename)) (\<lambda>z.
     if a_ret z < 0 then ret (Inl Length_Error)
     else bindp (sys (FileRead filename (a_ret z))) (\<lambda>r.
     bindp (if a_ret r \<noteq> 0 then ret (set_body (overlay (zeros (nat (a_ret z))) 0 (a_buf r)) response)
            else thenp (LOGE ''Error reading the file'') (ret response)) (\<lambda>response.
     thenp (sys (FileClose filename)) (ret (Inr response))))))"

definition route :: "int \<Rightarrow> http_request \<Rightarrow> (exn + http_response) prog" where
  "route junk request = bindp (sys CurrentPath) (\<lambda>cwd.
     let path = fmt [a_buf cwd, ''/'', ''http_root'', m_path request] in
     thenp (LOGI path)
     (bindp (is_site path) (\<lambda>found. case found of Inl e \<Rightarrow> ret (Inl e)
     | Inr True \<Rightarrow> load_page (fmt [path, ''/'', ''index.html'']) (set_status 200 (new_response junk))
     | Inr False \<Rightarrow> thenp (LOGE ''Path is not found'')
       (bindp (sys CurrentPath) (\<lambda>cwd.
        load_page (fmt [a_buf cwd, ''/'', ''http_root'', ''/404'', ''/'', ''index.html''])
          (set_status 404 (new_response junk)))))))"

section \<open>A connection\<close>

datatype client_activity = Unknown_Activity | Waiting_Activity | Disconnect_Activity | Completed_Activity

definition handle_client :: "int \<Rightarrow> int \<Rightarrow> (exn + client_activity) prog" where
  "handle_client junk sock_client = bindp (sys (Recv sock_client (int MESSAGE_SIZE) 0)) (\<lambda>a.
     if a_ret a \<le> 0
     then thenp (LOGI ''Receive zero data from client'') (ret (Inr Disconnect_Activity))
     else bindp (c_string (overlay (zeros MESSAGE_SIZE) 0 (a_buf a))) (\<lambda>raw.
       case http_parse raw of Inl e \<Rightarrow> ret (Inl e)
       | Inr client_request \<Rightarrow> bindp (route junk client_request) (\<lambda>r. case r of Inl e \<Rightarrow> ret (Inl e)
         | Inr server_response \<Rightarrow> bindp (sys (Send sock_client (response_text server_response) 0)) (\<lambda>w.
             if a_ret w \<le> 0
             then thenp (LOGE ''Server is failed to respond'') (ret (Inr Disconnect_Activity))
             else ret (Inr Completed_Activity)))))"

section \<open>The server\<close>

fun cpp_bind_all :: "int \<Rightarrow> addrinfo list \<Rightarrow> int \<Rightarrow> int prog" where
  "cpp_bind_all s [] rc = ret rc"
| "cpp_bind_all s (p # ps) rc = thenp (cpp_print_sockaddr_info (ai_addr p))
     (bindp (sys (Bind s (ai_addr p) (ai_addrlen p))) (\<lambda>a.
      if a_ret a = 0 then ret 0 else cpp_bind_all s ps (a_ret a)))"

text \<open>The result is the listening socket, if there is one. \<open>start_listening\<close> is the part that
  has the socket; it gives back the address list in every case.\<close>

definition start_listening :: "int \<Rightarrow> addrinfo list \<Rightarrow> int \<Rightarrow> int option prog" where
  "start_listening info infos s = thenp (set_socket_nonblocking s)
     (bindp (cpp_bind_all s infos 0) (\<lambda>rc_bind.
      if rc_bind \<noteq> 0
      then thenp (LOGE ''Server bind() failed'') (thenp (sys (FreeAddrInfo info)) (thenp (sys (Close s)) (ret None)))
      else bindp (sys (Listen s 2)) (\<lambda>l.
      if a_ret l \<noteq> 0
      then thenp (LOGE ''Server listen() failed'') (thenp (sys (FreeAddrInfo info)) (thenp (sys (Close s)) (ret None)))
      else thenp (sys (FreeAddrInfo info)) (ret (Some s)))))"

definition setup_socket :: "int \<Rightarrow> int option prog" where
  "setup_socket port =
     bindp (sys (GetProtoByName ''tcp'')) (\<lambda>tcp_proto.
     if a_ptr tcp_proto = 0 then ret None
     else bindp (sys (GetAddrInfo (Some ''localhost'') (dec port) (inet_hints AI_PASSIVE SOCK_STREAM (a_ret tcp_proto)))) (\<lambda>r.
     if a_ret r \<noteq> 0 then thenp (LOGE ''Server getaddrinfo() failed'') (ret None)
     else bindp (getp Null_Deref (case a_infos r of [] \<Rightarrow> None | p # _ \<Rightarrow> Some p)) (\<lambda>p.
     bindp (sys (Socket (ai_family p) (ai_socktype p) (ai_protocol p))) (\<lambda>s.
     if a_ret s < 0
     then thenp (LOGE ''Server socket() failed'') (thenp (sys (FreeAddrInfo (a_ptr r))) (ret None))
     else start_listening (a_ptr r) (a_infos r) (a_ret s)))))"

text \<open>\<open>pollfd fds[MAX_CONNECTION]\<close> has two entries. A new client goes behind the last one.\<close>

text \<open>What \<open>revents\<close> holds before \<open>poll\<close> has written it: an indeterminate value, which no \<open>short\<close>
  is. An entry is \<open>idle\<close> when its \<open>revents\<close> has a value, and one without \<open>POLLIN\<close>.\<close>

definition unwritten :: int where
  "unwritten = 2 ^ 16"

definition idle :: "pollfd \<Rightarrow> bool" where
  "idle p \<longleftrightarrow> p_revents p \<noteq> unwritten \<and> \<not> readable p"

definition http_add :: "int \<Rightarrow> poll_state \<Rightarrow> poll_state" where
  "http_add sock_client st = (case st of (fds, nfds) \<Rightarrow>
     if nfds < 2 then (fds[nfds := (fds ! nfds)\<lparr>p_fd := sock_client, p_events := POLLIN\<rparr>], nfds + 1)
     else (fds, nfds))"

definition http_accept :: "int \<Rightarrow> poll_state \<Rightarrow> poll_state prog" where
  "http_accept sock_server st = bindp (sys (Accept sock_server)) (\<lambda>a.
     if a_ret a < 0 then thenp (LOGE ''Server accept() failed'') (ret st)
     else thenp (LOGI ''A client is connected'')
       (thenp (cpp_print_sockaddr_info (a_peer a)) (ret (http_add (a_ret a) st))))"

definition http_move :: "nat \<Rightarrow> poll_state \<Rightarrow> poll_state" where
  "http_move i st = (case st of (fds, nfds) \<Rightarrow> let last = fds ! (nfds - 1) in
     (fds[i := (fds ! i)\<lparr>p_fd := p_fd last, p_events := p_events last\<rparr>], nfds - 1))"

definition http_drop :: "nat \<Rightarrow> poll_state \<Rightarrow> poll_state prog" where
  "http_drop i st = (case st of (fds, nfds) \<Rightarrow>
     bindp (entry fds i) (\<lambda>p. thenp (LOGI ''A client is disconnected'') (thenp (sys (Close (p_fd p)))
     (bindp (entry fds (nfds - 1)) (\<lambda>last. ret (http_move i (fds, nfds)))))))"

text \<open>One round of the loop over the entries, which tests a \<open>revents\<close>: undefined when nothing has
  been written to it. After a drop the index goes on all the same.\<close>

definition http_step :: "int \<Rightarrow> int \<Rightarrow> nat \<times> poll_state \<Rightarrow> (nat \<times> poll_state, exn + poll_state) iter prog" where
  "http_step junk sock_server s = (case s of (i, fds, nfds) \<Rightarrow>
     if i < nfds
     then bindp (entry fds i) (\<lambda>p. thenp (guardp Uninitialised (p_revents p \<noteq> unwritten))
       (if readable p
       then if p_fd p = sock_server then bindp (http_accept sock_server (fds, nfds)) (\<lambda>st. ret (Again (i + 1, st)))
         else ret (Again (i + 1, fds, nfds))
       else bindp (handle_client junk (p_fd p)) (\<lambda>r. case r of Inl e \<Rightarrow> ret (Leave (Inl e))
         | Inr activity \<Rightarrow> if activity \<noteq> Waiting_Activity
             then bindp (http_drop i (fds, nfds)) (\<lambda>st. ret (Again (i + 1, st)))
             else ret (Again (i + 1, fds, nfds)))))
     else ret (Leave (Inr (fds, nfds))))"

definition http_round :: "int \<Rightarrow> int \<Rightarrow> poll_state \<Rightarrow> (poll_state, exn + unit) iter prog" where
  "http_round junk sock_server st = thenp (LOGI ''Server starts new poll()'')
     (bindp (poll_wait st) (\<lambda>(rc_poll, st).
      if rc_poll < 0 then thenp (LOGE ''Server poll() failed'') (ret (Leave (Inr ())))
      else bindp (loop 3 (http_step junk sock_server) (0, st)) (\<lambda>r. case r of
        Inl e \<Rightarrow> ret (Leave (Inl e)) | Inr st \<Rightarrow> ret (Again st))))"

text \<open>The constructor and \<open>start\<close>; \<open>stack\<close> is what the array holds before: \<open>start\<close> does not
  initialise it, so its entries are \<open>unwritten\<close>, unless something defines what they hold.\<close>

definition http_server :: "int \<Rightarrow> pollfd list \<Rightarrow> nat \<Rightarrow> int \<Rightarrow> (exn + unit) prog" where
  "http_server junk stack n port = bindp (setup_socket port) (\<lambda>s. case s of
       None \<Rightarrow> thenp (LOGE ''Server HTTP service is not ready'') (ret (Inr ()))
     | Some sock_server \<Rightarrow>
       loop n (http_round junk sock_server) (stack[0 := (stack ! 0)\<lparr>p_fd := sock_server, p_events := POLLIN\<rparr>], 1))"

definition http_usage :: "bytes \<Rightarrow> unit prog" where
  "http_usage program_name = put_err (fmt [''Usage: '', program_name, '' <port>'', [LF]])"

text \<open>\<open>what e\<close> is the text of an exception.\<close>

definition http_server_main :: "(exn \<Rightarrow> bytes) \<Rightarrow> int \<Rightarrow> pollfd list \<Rightarrow> nat \<Rightarrow> bytes list \<Rightarrow> int prog" where
  "http_server_main what junk stack n argv =
     bindp (getp Null_Deref (case argv of [] \<Rightarrow> None | p # _ \<Rightarrow> Some p)) (\<lambda>program_name.
     if length argv \<noteq> 2 then thenp (http_usage program_name) (ret (- 1))
     else bindp (case stoi (argv ! 1) of Inl e \<Rightarrow> ret (Inl e) | Inr port \<Rightarrow> http_server junk stack n port) (\<lambda>r.
       case r of Inl e \<Rightarrow> thenp (LOGE (what e)) (thenp (http_usage program_name) (ret 0))
       | Inr u \<Rightarrow> ret 0))"

section \<open>What leaves the descriptors alone\<close>

text \<open>The calls to the file system use nothing that is counted.\<close>

lemma quiet_files:
  assumes "disciplined h"
  shows "quiet (sys CurrentPath) os h" "quiet (sys (PathExists p)) os h" "quiet (sys (IsDirectory p)) os h"
    "quiet (sys (FileOpen p)) os h" "quiet (sys (FileSize p)) os h" "quiet (sys (FileRead p n)) os h"
    "quiet (sys (FileClose p)) os h"
  by (rule quiet_sys; use assms in \<open>simp add: res_simps\<close>)+

lemmas quiet_intros = quiet_bindp quiet_thenp quiet_if quiet_case_sum quiet_case_bool quiet_LOG quiet_files quiet_ret

lemma quiet_cpp_print: "disciplined h \<Longrightarrow> quiet (cpp_print_sockaddr_info sa) os h"
  by (simp add: cpp_print_sockaddr_info_def quiet_LOG)

lemma quiet_set_socket_nonblocking:
  "Fd s \<in> live h \<Longrightarrow> 0 \<le> s \<Longrightarrow> disciplined h \<Longrightarrow> quiet (set_socket_nonblocking s) os h"
  unfolding set_socket_nonblocking_def whenp_def
  by (intro quiet_intros quiet_sys) (simp_all add: res_simps)

lemma quiet_cpp_bind_all: "Fd s \<in> live h \<Longrightarrow> 0 \<le> s \<Longrightarrow> disciplined h \<Longrightarrow> quiet (cpp_bind_all s ps rc) os h"
proof (induction ps arbitrary: rc h)
  case (Cons p ps)
  then show ?case unfolding cpp_bind_all.simps
    by (intro quiet_intros quiet_cpp_print quiet_sys) (simp_all add: res_simps quiet_cpp_print)
qed (simp add: quiet_ret)

lemma quiet_is_site: "disciplined h \<Longrightarrow> quiet (is_site p) os h"
  unfolding is_site_def by (intro quiet_intros) simp_all

lemma quiet_load_page: "disciplined h \<Longrightarrow> quiet (load_page p r) os h"
  unfolding load_page_def by (intro quiet_intros) simp_all

lemma quiet_route: "disciplined h \<Longrightarrow> quiet (route junk q) os h"
  unfolding route_def Let_def by (intro quiet_intros quiet_is_site quiet_load_page) simp_all

section \<open>What clients see\<close>

text \<open>The clients that a history has accepted, read a message of, and closed, the last first.\<close>

primrec client_came :: "log \<Rightarrow> int list" where
  "client_came [] = []"
| "client_came (e # h) = (case fst e of
     Accept _ \<Rightarrow> (if 0 \<le> a_ret (snd e) then a_ret (snd e) # client_came h else client_came h)
   | _ \<Rightarrow> client_came h)"

primrec client_heard :: "log \<Rightarrow> int list" where
  "client_heard [] = []"
| "client_heard (e # h) = (case fst e of Recv f _ _ \<Rightarrow> f # client_heard h | _ \<Rightarrow> client_heard h)"

primrec client_gone :: "log \<Rightarrow> int list" where
  "client_gone [] = []"
| "client_gone (e # h) = (case fst e of Close f \<Rightarrow> f # client_gone h | _ \<Rightarrow> client_gone h)"

definition same_talk :: "log \<Rightarrow> log \<Rightarrow> bool" where
  "same_talk h h' \<longleftrightarrow> client_came h' = client_came h \<and> client_heard h' = client_heard h \<and> client_gone h' = client_gone h"

definition mute :: "log \<Rightarrow> call \<Rightarrow> bool" where
  "mute h c \<longleftrightarrow> (case c of Accept _ \<Rightarrow> False | Recv _ _ _ \<Rightarrow> False | Close _ \<Rightarrow> False | _ \<Rightarrow> True)"

text \<open>One message of \<open>f\<close> more, and nobody else comes or goes.\<close>

definition hears :: "int \<Rightarrow> log \<Rightarrow> log \<Rightarrow> bool" where
  "hears f h h' \<longleftrightarrow> client_came h' = client_came h \<and> client_heard h' = f # client_heard h \<and> client_gone h' = client_gone h"

lemma same_talk_Recv [simp]: "same_talk ((Recv f n k, a) # h) h' = hears f h h'"
  by (simp add: same_talk_def hears_def)

lemma hears_mute [simp]: "mute h0 c \<Longrightarrow> hears f h ((c, a) # h') = hears f h h'"
  by (auto simp: hears_def mute_def split: call.splits)

lemma hears_same: "hears f h h1 \<Longrightarrow> same_talk h1 h2 \<Longrightarrow> hears f h h2"
  by (simp add: hears_def same_talk_def)

lemma hears_Recv [simp]: "hears f h ((Recv f n k, a) # h)"
  by (simp add: hears_def)

lemma same_talk_trans: "same_talk h h1 \<Longrightarrow> same_talk h1 h2 \<Longrightarrow> same_talk h h2"
  by (simp add: same_talk_def)

lemma same_talk_refl [simp]: "same_talk h h"
  by (simp add: same_talk_def)

lemma same_talk_mute [simp]: "mute h0 c \<Longrightarrow> same_talk h ((c, a) # h') = same_talk h h'"
  by (auto simp: same_talk_def mute_def split: call.splits)

lemma same_talk_trace: "trace_ok mute evs h \<Longrightarrow> same_talk h (evs @ h)"
  by (induction mute evs h rule: trace_ok.induct) auto

lemma muteD:
  assumes "quiet m os h" and "traced os mute m"
    and "\<And>r h'. live h' = live h \<Longrightarrow> disciplined h' \<Longrightarrow> same_talk h h' \<Longrightarrow> Q r h'"
  shows "wp m Q E os h"
proof -
  have w: "wp m (\<lambda>_ h'. live h' = live h \<and> disciplined h') (\<lambda>_ _. False) os h"
    by (rule quietD [OF assms(1)]) simp
  obtain evs where "snd (m os h) = evs @ h" "trace_ok mute evs h" using assms(2) by (auto simp: traced_def)
  then have "same_talk h (snd (m os h))" by (simp add: same_talk_trace)
  with w show ?thesis by (auto simp: wp_def intro: assms(3) split: prod.splits outcome.splits)
qed

lemma traced_case_sum:
  "(\<And>e. traced os P (f e)) \<Longrightarrow> (\<And>a. traced os P (g a)) \<Longrightarrow> traced os P (case r of Inl e \<Rightarrow> f e | Inr a \<Rightarrow> g a)"
  by (simp split: sum.split)

lemma traced_case_bool:
  "traced os P m \<Longrightarrow> traced os P n \<Longrightarrow> traced os P (case b of True \<Rightarrow> m | False \<Rightarrow> n)"
  by (simp split: bool.split)

lemmas traced_cases = traced_case_sum traced_case_bool

lemma mute_LOG: "traced os mute (LOGI m)" "traced os mute (LOGE m)"
  unfolding LOGI_def LOGE_def log_inform_def log_error_def log_message_def locked_def put_out_def
  by (intro traced_intros; simp add: mute_def)+

lemma mute_cpp_print: "traced os mute (cpp_print_sockaddr_info sa)"
  by (simp add: cpp_print_sockaddr_info_def mute_LOG)

lemma mute_set_socket_nonblocking: "traced os mute (set_socket_nonblocking s)"
  unfolding set_socket_nonblocking_def by (intro traced_intros mute_LOG; simp add: mute_def)

lemma mute_cpp_bind_all: "traced os mute (cpp_bind_all s ps rc)"
proof (induction ps arbitrary: rc)
  case (Cons p ps)
  then show ?case unfolding cpp_bind_all.simps
    by (intro traced_intros mute_cpp_print) (simp_all add: mute_def)
qed (simp add: traced_ret)

lemma mute_route: "traced os mute (route junk q)"
  unfolding route_def is_site_def load_page_def
  by (intro traced_intros traced_cases mute_LOG; simp add: mute_def)

section \<open>The loop\<close>

lemma wp_handle_client:
  assumes law: "lawful os" and d: "disciplined h" and f: "0 \<le> f" "Fd f \<in> live h"
    and post: "\<And>r h'. live h' = live h \<Longrightarrow> disciplined h' \<Longrightarrow> r \<noteq> Inr Waiting_Activity \<Longrightarrow> hears f h h' \<Longrightarrow> Q r h'"
    and over: "\<And>e h'. overrun e h' \<Longrightarrow> disciplined h' \<Longrightarrow> E e h'"
  shows "wp (handle_client junk f) Q E os h"
  unfolding handle_client_def wp_bindp [of "sys (Recv f k l)" for k l] wp_sys
proof (intro allI impI, goal_cases)
  case (1 a)
  let ?h = "(Recv f 1024 0, a) # h"
  have h: "live ?h = live h" "disciplined ?h" using d f by (simp_all add: res_simps)
  note l = recv_law [OF law 1, simplified]
  consider "a_ret a \<le> 0" | "0 < a_ret a" "\<not> terminated (overlay (zeros 1024) 0 (a_buf a))"
    | "0 < a_ret a" "terminated (overlay (zeros 1024) 0 (a_buf a))" by linarith
  then show ?case
  proof cases
    case 1
    have "wp (thenp (LOGI ''Receive zero data from client'') (ret (Inr Disconnect_Activity))) Q E os ?h"
      unfolding wp_thenp wp_ret
      by (rule muteD [OF quiet_LOG(1) [OF h(2)] mute_LOG(1)], rule post) (simp_all add: h del: live.simps disciplined.simps)
    with 1 show ?thesis by simp
  next
    case 2
    then have "a_ret a = 1024" using l by auto
    then show ?thesis using 2 by (simp add: wp_bindp wp_c_string) (intro over overrunI, simp_all add: reads_full_def h del: live.simps disciplined.simps)
  next
    case 3
    have rest: "wp (bindp (route junk q) (\<lambda>r. case r of Inl e \<Rightarrow> ret (Inl e)
         | Inr server_response \<Rightarrow> bindp (sys (Send f (response_text server_response) 0)) (\<lambda>w.
             if a_ret w \<le> 0 then thenp (LOGE ''Server is failed to respond'') (ret (Inr Disconnect_Activity))
             else ret (Inr Completed_Activity)))) Q E os ?h" for q
      unfolding wp_bindp [of "route junk q"]
    proof (rule muteD [OF quiet_route [OF h(2)] mute_route], goal_cases)
      case (1 r h1)
      show ?case
      proof (cases r)
        case (Inl e)
        then show ?thesis using 1 h by (simp add: wp_ret post)
      next
        case (Inr resp)
        have s: "live ((Send f t 0, w) # h1) = live h" "disciplined ((Send f t 0, w) # h1)" "hears f h ((Send f t 0, w) # h1)" for t w
          using 1 h f by (simp_all add: res_simps mute_def)
        show ?thesis unfolding Inr sum.case wp_bindp wp_sys wp_if wp_thenp wp_ret
        proof (intro allI impI, goal_cases)
          case (1 w)
          have "wp (LOGE m) (\<lambda>_. Q (Inr Disconnect_Activity)) E os ((Send f (response_text resp) 0, w) # h1)" for m
            by (rule muteD [OF quiet_LOG(2) [OF s(2)] mute_LOG(2)], rule post)
              (use s in \<open>auto simp del: live.simps intro: hears_same [OF s(3)]\<close>)
          moreover have "Q (Inr Completed_Activity) ((Send f (response_text resp) 0, w) # h1)"
            by (rule post) (simp_all only: s, simp_all)
          ultimately show ?case by simp
        qed
      qed
    qed
    show ?thesis using 3 rest h
      by (simp add: wp_bindp [of "c_string b" for b] wp_c_string del: live.simps disciplined.simps split: sum.split)
        (simp add: wp_ret post)
  qed
qed

text \<open>The entries in use are different open descriptors.\<close>

definition http_inv :: "poll_state \<Rightarrow> log \<Rightarrow> bool" where
  "http_inv st h \<longleftrightarrow> length (fst st) = 2 \<and> snd st \<le> 2 \<and> distinct (poll_used st)
     \<and> (\<forall>f \<in> set (poll_used st). 0 \<le> f \<and> Fd f \<in> live h) \<and> disciplined h"

lemma http_inv_log: "http_inv st h \<Longrightarrow> live h' = live h \<Longrightarrow> disciplined h' \<Longrightarrow> http_inv st h'"
  by (simp add: http_inv_def)

lemma http_inv_disciplined: "http_inv st h \<Longrightarrow> disciplined h"
  by (simp add: http_inv_def)

lemma http_inv_entry:
  assumes "http_inv (fds, n) h" and "i < n"
  shows "i < length fds \<and> n - 1 < length fds \<and> 0 \<le> p_fd (fds ! i) \<and> Fd (p_fd (fds ! i)) \<in> live h"
proof -
  have "poll_used (fds, n) ! i \<in> set (poll_used (fds, n))"
    by (rule nth_mem) (use assms in \<open>simp add: http_inv_def poll_used_def\<close>)
  then have "p_fd (fds ! i) \<in> set (poll_used (fds, n))"
    using assms by (simp add: http_inv_def poll_used_def)
  with assms show ?thesis by (auto simp: http_inv_def)
qed

lemma http_inv_pair:
  assumes "http_inv (fds, n) h"
  obtains p q where "fds = [p, q]"
proof -
  have "length fds = Suc (Suc 0)" using assms by (simp add: http_inv_def)
  with that show ?thesis by (auto simp: length_Suc_conv)
qed

text \<open>The array as the interface sees it\<close>

definition http_fits :: "poll_state \<Rightarrow> bool" where
  "http_fits st \<longleftrightarrow> length (fst st) = 2 \<and> snd st \<le> 2"

interpretation http: slots poll_used http_fits "\<lambda>st. snd st < 2" http_move http_add
proof
  fix st :: poll_state and i and f
  obtain fds n where st: "st = (fds, n)" by (cases st)
  show "poll_used (http_move i st) = take (length (poll_used st) - 1) ((poll_used st)[i := last (poll_used st)])"
    if "http_fits st" "i < length (poll_used st)"
    using that poll_used_move [of n fds i "(fds ! i)\<lparr>p_fd := p_fd (fds ! (n - 1)), p_events := p_events (fds ! (n - 1))\<rparr>"]
    by (simp add: st http_move_def http_fits_def poll_used_def Let_def)
  show "http_fits (http_move i st)" if "http_fits st"
    using that by (auto simp: st http_fits_def http_move_def Let_def)
  show "poll_used (http_add f st) = poll_used st @ [f]" if "http_fits st" "snd st < 2"
    using that by (simp add: st poll_used_def http_add_def http_fits_def take_Suc_conv_app_nth)
  show "http_fits (http_add f st)" if "http_fits st"
    using that by (auto simp: st http_fits_def http_add_def)
qed

lemma http_inv_fits: "http_inv st h \<Longrightarrow> http_fits st \<and> distinct (poll_used st) \<and> length (poll_used st) = snd st"
  by (auto simp: http_inv_def http_fits_def poll_used_def)

lemma wp_http_drop:
  assumes inv: "http_inv (fds, n) h" and i: "i < n"
  shows "wp (http_drop i (fds, n)) (\<lambda>st h'. http_inv st h' \<and> snd st = n - 1 \<and> live h' = live h - {Fd (p_fd (fds ! i))}) E os h"
proof -
  note e = http_inv_entry [OF inv i]
  let ?f = "p_fd (fds ! i)" and ?st = "http_move i (fds, n)" and ?u = "poll_used (fds, n)"
  have d: "disciplined h" using inv by (simp add: http_inv_def)
  have slot: "http_fits (fds, n)" "i < length ?u" "distinct ?u" using http_inv_fits [OF inv] i by auto
  have "?u ! i = ?f" using slot(2) by (simp add: poll_used_def)
  with http.move_set [OF slot] have set: "set (poll_used ?st) = set ?u - {?f}" by simp
  have "length (fst ?st) = 2" "snd ?st = n - 1" "n \<le> 2" using slot(1) by (simp_all add: http_move_def http_fits_def Let_def)
  then have st: "http_inv ?st h'" if "live h' = live h - {Fd ?f}" "disciplined h'" for h'
    using inv that set http.move_distinct [OF slot] by (auto simp: http_inv_def)
  have drop: "wp (LOGI m) (\<lambda>_ h'. \<forall>a. http_inv ?st ((Close ?f, a) # h')
      \<and> live ((Close ?f, a) # h') = live h - {Fd ?f}) E os h" for m
  proof (rule quietD [OF quiet_LOG(1) [OF d]], intro allI conjI, goal_cases)
    case (1 u h' a)
    have "live ((Close ?f, a) # h') = live h - {Fd ?f}" "disciplined ((Close ?f, a) # h')"
      using 1 e by (simp_all add: res_simps)
    then show ?case by (rule st)
  qed (use e in \<open>simp add: res_simps\<close>)
  show ?thesis
    unfolding http_drop_def prod.case wp_bindp wp_entry wp_thenp wp_sys wp_ret
    using e drop [of "''A client is disconnected''"] \<open>snd ?st = n - 1\<close>
    by (auto simp del: One_nat_def live.simps elim!: wp_mono)
qed

lemma http_inv_add:
  assumes inv: "http_inv st h" and f: "0 \<le> f" "Fd f \<notin> live h" and l: "live h' = insert (Fd f) (live h)" and d: "disciplined h'"
  shows "http_inv (http_add f st) h'"
proof (cases "snd st < 2")
  case True
  have slot: "http_fits st" "snd st < 2" using http_inv_fits [OF inv] True by simp_all
  have "f \<notin> set (poll_used st)" using inv f by (auto simp: http_inv_def)
  then show ?thesis
    using inv f(1) l d http.add_distinct [OF slot] http.add_set [OF slot, of f] http.add_fits [OF slot, of f]
    by (auto simp: http_inv_def http_fits_def)
next
  case False
  then show ?thesis using inv l d by (auto simp: http_inv_def http_add_def split: prod.split)
qed

lemma wp_http_accept:
  assumes inv: "http_inv (fds, n) h" and law: "lawful os" and s: "s \<in> set (poll_used (fds, n))"
  shows "wp (http_accept s (fds, n)) (\<lambda>st h'. http_inv st h') E os h"
  unfolding http_accept_def wp_bindp wp_sys
proof (intro allI impI, goal_cases)
  case (1 a)
  let ?h = "(Accept s, a) # h"
  have d: "disciplined ?h" using inv s by (auto simp: http_inv_def res_simps)
  show ?case
  proof (cases "a_ret a < 0")
    case True
    have "http_inv (fds, n) ?h" using inv d True by (simp add: http_inv_def res_simps)
    with True d show ?thesis
      by (simp add: wp_thenp del: live.simps disciplined.simps) (rule quietD [OF quiet_LOG(2)], auto simp: wp_ret elim: http_inv_log)
  next
    case False
    then have f: "0 \<le> a_ret a" "Fd (a_ret a) \<notin> live h" using fresh_accept [OF law 1] by auto
    have "http_inv (http_add (a_ret a) (fds, n)) ?h"
      by (rule http_inv_add [OF inv f _ d]) (use f(1) in \<open>simp add: acquires_def releases_def\<close>)
    with False d show ?thesis
      by (simp add: wp_thenp del: live.simps disciplined.simps)
        (rule quietD [OF quiet_LOG(1)], simp, rule quietD [OF quiet_cpp_print], auto simp: wp_ret elim: http_inv_log)
  qed
qed

text \<open>How the server may stop: as the servers before it, or by reading an unwritten entry.\<close>

definition server_stop :: "stop \<Rightarrow> log \<Rightarrow> bool" where
  "server_stop e h \<longleftrightarrow> stop_ok e h \<or> (e = Fault Uninitialised \<and> disciplined h)"

lemma server_stopI [intro]: "stop_ok e h \<Longrightarrow> server_stop e h"
  by (simp add: server_stop_def)

abbreviation (input) http_stop :: "stop \<Rightarrow> log \<Rightarrow> bool" where
  "http_stop \<equiv> \<lambda>e h. server_stop e h \<and> e \<noteq> Unfinished"

lemma readable_written: "readable p \<Longrightarrow> p_revents p \<noteq> unwritten"
  by (auto simp: readable_def unwritten_def)

lemma idle_update [simp]: "idle (p\<lparr>p_fd := f, p_events := e\<rparr>) = idle p"
  by (simp add: idle_def readable_def)

lemma idle_no_entry: "idle no_entry"
  by (simp add: idle_def readable_def no_entry_def unwritten_def)

definition http_next :: "nat \<Rightarrow> nat \<Rightarrow> (nat \<times> poll_state, exn + poll_state) iter \<Rightarrow> log \<Rightarrow> bool" where
  "http_next i n r h \<longleftrightarrow> (case r of Again (j, st) \<Rightarrow> i < n \<and> j = i + 1 \<and> http_inv st h
     | Leave x \<Rightarrow> (case x of Inl e \<Rightarrow> disciplined h | Inr st \<Rightarrow> http_inv st h))"

lemma http_next_simps [simp]:
  "http_next i n (Again (j, st)) h \<longleftrightarrow> i < n \<and> j = i + 1 \<and> http_inv st h"
  "http_next i n (Leave (Inl e)) h \<longleftrightarrow> disciplined h" "http_next i n (Leave (Inr st)) h \<longleftrightarrow> http_inv st h"
  by (simp_all add: http_next_def)

lemma wp_http_step:
  assumes inv: "http_inv (fds, n) h" and law: "lawful os"
  shows "wp (http_step junk s (i, fds, n)) (http_next i n)
    http_stop os h"
proof (cases "i < n")
  case True
  note e = http_inv_entry [OF inv True]
  have used: "p_fd (fds ! i) \<in> set (poll_used (fds, n))"
  proof -
    have "poll_used (fds, n) ! i \<in> set (poll_used (fds, n))"
      by (rule nth_mem) (use inv True in \<open>simp add: http_inv_def poll_used_def\<close>)
    with inv True show ?thesis by (simp add: http_inv_def poll_used_def)
  qed
  have d: "disciplined h" by (rule http_inv_disciplined [OF inv])
  have accept: "wp (bindp (http_accept s (fds, n)) (\<lambda>st. ret (Again (i + 1, st)))) (http_next i n)
      http_stop os h" if "p_fd (fds ! i) = s"
    unfolding wp_bindp wp_ret using used that True by (auto intro!: wp_mono [OF wp_http_accept [OF inv law, where E = http_stop]])
  have handle: "wp (bindp (handle_client junk (p_fd (fds ! i))) (\<lambda>r. case r of Inl e \<Rightarrow> ret (Leave (Inl e))
         | Inr activity \<Rightarrow> if activity \<noteq> Waiting_Activity
             then bindp (http_drop i (fds, n)) (\<lambda>st. ret (Again (i + 1, st)))
             else ret (Again (i + 1, fds, n)))) (http_next i n)
      http_stop os h"
    unfolding wp_bindp [of "handle_client a b" for a b]
  proof (rule wp_handle_client [OF law d], goal_cases)
    case (3 r h1)
    then have inv1: "http_inv (fds, n) h1" using http_inv_log [OF inv] by blast
    from 3 show ?case
      by (cases r) (auto simp: wp_ret wp_bindp [of "http_drop i (fds, n)"] True intro!: wp_mono [OF wp_http_drop [OF inv1 True, where E = http_stop]])
  qed (use e in \<open>auto simp: server_stop_def stop_ok_def overrun_def\<close>)
  have stuck: "server_stop (Fault Uninitialised) h" using d by (simp add: server_stop_def)
  show ?thesis
    using True e accept handle stuck
    by (simp add: http_step_def wp_bindp [of "entry a b" for a b] wp_entry wp_thenp [of "guardp a b" for a b] wp_guardp wp_ret inv del: One_nat_def)
qed (simp add: http_step_def wp_ret inv)

lemma wp_http_scan:
  assumes inv: "http_inv st h" and law: "lawful os"
  shows "wp (loop 3 (http_step junk s) (0, st)) (\<lambda>r h'. case r of Inl e \<Rightarrow> disciplined h' | Inr st' \<Rightarrow> http_inv st' h')
    http_stop os h"
proof (rule wp_loop_total [where I = "\<lambda>(i, st) h'. http_inv st h' \<and> i \<le> 2" and mu = "\<lambda>(i, st). 2 - i"], goal_cases)
  case (1 s0 h0)
  obtain i fds n where s0: "s0 = (i, fds, n)" by (cases s0)
  with 1 have inv0: "http_inv (fds, n) h0" by simp
  then have "n \<le> 2" by (simp add: http_inv_def)
  then show ?case unfolding s0
    by (intro wp_mono [OF wp_http_step [OF inv0 law]]) (auto simp: http_next_def split: iter.splits sum.splits)
qed (use inv in auto)

lemma wp_http_wait:
  assumes inv: "http_inv st h" and law: "lawful os"
    and fail: "\<And>r h'. r < 0 \<Longrightarrow> live h' = live h \<Longrightarrow> disciplined h' \<Longrightarrow> Q (r, st) h'"
    and post: "\<And>r rs h'. 0 \<le> r \<Longrightarrow> length rs = snd st \<Longrightarrow> live h' = live h \<Longrightarrow>
      http_inv (map2 (\<lambda>p r. p\<lparr>p_revents := r\<rparr>) (take (snd st) (fst st)) rs @ drop (snd st) (fst st), snd st) h' \<Longrightarrow>
      (\<exists>a. hd h' = (PollCall (map (\<lambda>p. (p_fd p, p_events p)) (take (snd st) (fst st))) (- 1), a) \<and> rs = a_flags a \<and> r = a_ret a) \<Longrightarrow>
      Q (r, map2 (\<lambda>p r. p\<lparr>p_revents := r\<rparr>) (take (snd st) (fst st)) rs @ drop (snd st) (fst st), snd st) h'"
  shows "wp (poll_wait st) Q E os h"
proof -
  obtain fds n where st: "st = (fds, n)" by (cases st)
  let ?c = "PollCall (map (\<lambda>p. (p_fd p, p_events p)) (take n fds)) (- 1)"
  let ?st = "\<lambda>a. (map2 (\<lambda>p r. p\<lparr>p_revents := r\<rparr>) (take n fds) (a_flags a) @ drop n fds, n)"
  have len: "length fds = 2" "n \<le> 2" using inv by (auto simp: http_inv_def st)
  have need: "needs ?c \<subseteq> live h" using inv by (auto simp: http_inv_def st poll_used_def needs_def)
  have l: "live ((?c, a) # h) = live h" "disciplined ((?c, a) # h)" for a
    using need inv by (auto simp: http_inv_def acquires_def releases_def)
  have ok: "length (a_flags a) = n \<and> http_inv (?st a) ((?c, a) # h)" if "answers os h ?c a" "0 \<le> a_ret a" for a
  proof -
    from poll_law [OF law that] len have fl: "length (a_flags a) = n" by simp
    from map_fd_revents [of "take n fds" "a_flags a"] fl len have "poll_used (?st a) = poll_used (fds, n)" "length (fst (?st a)) = 2"
      by (simp_all add: poll_used_def)
    with fl inv l [of a] show ?thesis by (simp add: http_inv_def st del: live.simps disciplined.simps)
  qed
  show ?thesis
    unfolding poll_wait_def st prod.case wp_bindp wp_sys wp_ret
  proof (intro allI impI, goal_cases)
    case (1 a)
    show ?case
    proof (cases "a_ret a < 0")
      case True
      with fail [of "a_ret a" "(?c, a) # h"] l show ?thesis by (simp add: st del: live.simps disciplined.simps)
    next
      case False
      with post [of "a_ret a" "a_flags a" "(?c, a) # h"] ok [OF 1] l show ?thesis by (simp add: st del: live.simps disciplined.simps)
    qed
  qed
qed

lemma wp_http_round:
  assumes inv: "http_inv st h" and law: "lawful os"
  shows "wp (http_round junk s st) (\<lambda>r h'. case r of Again st' \<Rightarrow> http_inv st' h' | Leave e \<Rightarrow> disciplined h') http_stop os h"
  unfolding http_round_def wp_thenp [of "LOGI m" for m]
proof (rule quietD [OF quiet_LOG(1) [OF http_inv_disciplined [OF inv]]], goal_cases)
  case (1 u h1)
  note inv1 = http_inv_log [OF inv 1]
  show ?case
    unfolding wp_bindp [of "poll_wait st"] prod.case
  proof (rule wp_http_wait [OF inv1 law], goal_cases)
    case (1 r h2)
    then show ?case by (simp add: wp_thenp) (rule quietD [OF quiet_LOG(2)], auto simp: wp_ret)
  next
    case (2 r rs h2)
    note scan = wp_http_scan [OF 2(4) law]
    from 2(1) show ?case
      by (simp add: wp_bindp [of "loop 3 b x" for b x]) (rule wp_mono [OF scan], auto simp: wp_ret split: sum.splits)
  qed
qed

text \<open>One scan when only the listening socket is polled and is readable: a client is accepted and
  handled at once, because its entry is not readable.\<close>

definition parts :: "int \<Rightarrow> log \<Rightarrow> log \<Rightarrow> bool" where
  "parts f h h' \<longleftrightarrow> client_came h' = client_came h \<and> client_heard h' = client_heard h \<and> client_gone h' = f # client_gone h"

definition comes :: "int \<Rightarrow> log \<Rightarrow> log \<Rightarrow> bool" where
  "comes f h h' \<longleftrightarrow> client_came h' = f # client_came h \<and> client_heard h' = client_heard h \<and> client_gone h' = client_gone h"

lemma comes_Accept [simp]: "0 \<le> a_ret a \<Longrightarrow> same_talk ((Accept s, a) # h) h' = comes (a_ret a) h h'"
  by (simp add: same_talk_def comes_def)

lemma same_talk_comes: "same_talk h h1 \<Longrightarrow> comes f h1 h2 \<Longrightarrow> comes f h h2"
  "comes f h h1 \<Longrightarrow> same_talk h1 h2 \<Longrightarrow> comes f h h2"
  by (simp_all add: same_talk_def comes_def)

lemma refused_same [simp]: "a_ret a < 0 \<Longrightarrow> same_talk ((Accept s, a) # h) h' = same_talk h h'"
  by (simp add: same_talk_def)

lemma parts_Close [simp]: "same_talk h h' \<Longrightarrow> parts f h ((Close f, a) # h')"
  by (simp add: same_talk_def parts_def)

text \<open>The last of two entries is visited and dropped; the index goes on behind the end.\<close>

lemma wp_http_drop_last:
  assumes "disciplined h" and "Fd (p_fd q) \<in> live h" and "0 \<le> p_fd q"
    and post: "\<And>h'. live h' = live h - {Fd (p_fd q)} \<Longrightarrow> disciplined h' \<Longrightarrow> parts (p_fd q) h h' \<Longrightarrow> Q ([p, q], 1) h'"
  shows "wp (http_drop 1 ([p, q], 2)) Q E os h"
proof -
  have eq: "http_drop 1 ([p, q], 2) =
      thenp (LOGI ''A client is disconnected'') (thenp (sys (Close (p_fd q))) (ret ([p, q], 1)))"
    by (simp add: http_drop_def http_move_def entry_def getp_def)
  show ?thesis
    unfolding eq wp_thenp wp_sys wp_ret
    by (rule muteD [OF quiet_LOG(1) [OF assms(1)] mute_LOG(1)], intro allI impI post)
      (use assms(2,3) in \<open>auto simp: res_simps\<close>)
qed

lemma http_loop_end: "Q (Inr ([p, q], n)) h \<Longrightarrow> n \<le> i \<Longrightarrow> wp (loop (Suc k) (http_step junk s) (i, [p, q], n)) Q E os h"
  by (simp add: wp_loop_Suc http_step_def wp_ret)

lemma wp_http_visit_last:
  assumes q: "idle q" and live: "Fd (p_fd q) \<in> live h" "0 \<le> p_fd q"
    and handle: "wp (handle_client junk (p_fd q)) (\<lambda>r h2. case r of Inl e \<Rightarrow> Q (Inl e) h2 | Inr activity \<Rightarrow>
      activity \<noteq> Waiting_Activity \<and> live h2 = live h \<and> disciplined h2 \<and>
      (\<forall>h3. live h3 = live h - {Fd (p_fd q)} \<longrightarrow> disciplined h3 \<longrightarrow> parts (p_fd q) h2 h3 \<longrightarrow> Q (Inr ([p, q], 1)) h3)) E os h"
  shows "wp (loop (Suc (Suc 0)) (http_step junk s) (1, [p, q], 2)) Q E os h"
proof -
  have step: "http_step junk s (1, [p, q], 2) = bindp (handle_client junk (p_fd q)) (\<lambda>r. case r of Inl e \<Rightarrow> ret (Leave (Inl e))
       | Inr activity \<Rightarrow> if activity \<noteq> Waiting_Activity
           then bindp (http_drop 1 ([p, q], 2)) (\<lambda>st. ret (Again (2, st))) else ret (Again (2, [p, q], 2)))"
    unfolding http_step_def prod.case one_add_one using q by (simp add: entry_def getp_def idle_def guardp_def)
  show ?thesis
    unfolding wp_loop_Suc [of "Suc 0"] step wp_bindp [of "handle_client a b" for a b]
  proof (rule wp_mono [OF handle], goal_cases)
    case (1 r h2)
    show ?case
    proof (cases r)
      case (Inl e)
      with 1 show ?thesis by (simp add: wp_ret)
    next
      case (Inr activity)
      with 1 have w: "activity \<noteq> Waiting_Activity" by simp
      show ?thesis unfolding Inr sum.case if_P [OF w] wp_bindp [of "http_drop a b" for a b] wp_ret iter.case
      proof (rule wp_http_drop_last, goal_cases)
        case (4 h')
        show ?case by (rule http_loop_end) (use 1 4 Inr in simp_all)
      qed (use 1 Inr live in simp_all)
    qed
  qed
qed

lemma wp_http_scan_one:
  assumes law: "lawful os" and d: "disciplined h" and s: "0 \<le> s" "Fd s \<in> live h"
    and p: "p_fd p = s" "readable p" and q: "idle q"
    and refuse: "\<And>a h'. a_ret a < 0 \<Longrightarrow> answers os h (Accept s) a \<Longrightarrow> live h' = live h \<Longrightarrow> disciplined h' \<Longrightarrow> same_talk h h' \<Longrightarrow> Q (Inr ([p, q], 1)) h'"
    and handle: "\<And>c h1. 0 \<le> c \<Longrightarrow> Fd c \<notin> live h \<Longrightarrow> live h1 = insert (Fd c) (live h) \<Longrightarrow> disciplined h1 \<Longrightarrow> comes c h h1 \<Longrightarrow>
      wp (handle_client junk c) (\<lambda>r h2. case r of Inl e \<Rightarrow> Q (Inl e) h2 | Inr activity \<Rightarrow> activity \<noteq> Waiting_Activity \<and>
        live h2 = live h1 \<and> disciplined h2 \<and>
        (\<forall>q' h3. live h3 = live h \<longrightarrow> disciplined h3 \<longrightarrow> idle q' \<longrightarrow> parts c h2 h3 \<longrightarrow> Q (Inr ([p, q'], 1)) h3)) E os h1"
  shows "wp (loop 3 (http_step junk s) (0, [p, q], 1)) Q E os h"
proof -
  let ?c = "\<lambda>c. q\<lparr>p_fd := c, p_events := POLLIN\<rparr>"
  have visit: "wp (loop (Suc (Suc 0)) (http_step junk s) (1, [p, ?c c], 2)) Q E os h1"
    if c: "0 \<le> c" "Fd c \<notin> live h" "live h1 = insert (Fd c) (live h)" "disciplined h1" "comes c h h1" for c h1
    by (rule wp_http_visit_last, use c q in \<open>simp_all\<close>)
      (rule wp_mono [OF handle [OF c]], use c q in \<open>auto split: sum.splits\<close>)
  have first: "http_step junk s (0, [p, q], 1) = bindp (http_accept s ([p, q], 1)) (\<lambda>st. ret (Again (1, st)))"
    unfolding http_step_def prod.case add_0 using p readable_written [OF p(2)] by (simp add: entry_def getp_def guardp_def)
  have onward: "wp (loop (Suc (Suc 0)) (http_step junk s) (1, [p, q], 1)) Q E os h'" if "Q (Inr ([p, q], 1)) h'" for h'
    using that by (simp add: wp_loop_Suc [of "Suc 0"] http_step_def wp_ret)
  have accept: "wp (http_accept s ([p, q], 1)) (\<lambda>st. wp (loop (Suc (Suc 0)) (http_step junk s) (1, st)) Q E os) E os h"
    unfolding http_accept_def wp_bindp wp_sys
  proof (intro allI impI, goal_cases)
    case (1 a)
    let ?h = "(Accept s, a) # h"
    show ?case
    proof (cases "a_ret a < 0")
      case True
      have h: "live ?h = live h" "disciplined ?h" using True d s by (simp_all add: res_simps)
      have "wp (LOGE m) (\<lambda>_. wp (loop (Suc (Suc 0)) (http_step junk s) (1, [p, q], 1)) Q E os) E os ?h" for m
        by (rule muteD [OF quiet_LOG(2) [OF h(2)] mute_LOG(2)], rule onward, rule refuse [OF True 1])
          (simp_all only: h refused_same [OF True])
      with True show ?thesis by (simp add: wp_thenp wp_ret)
    next
      case False
      have h: "live ?h = insert (Fd (a_ret a)) (live h)" "disciplined ?h" using False d s by (auto simp: res_simps)
      have c: "0 \<le> a_ret a" "Fd (a_ret a) \<notin> live h" using False fresh_accept [OF law 1] by auto
      have add: "http_add (a_ret a) ([p, q], 1) = ([p, ?c (a_ret a)], 2)" by (simp add: http_add_def)
      have "wp (thenp (LOGI m) (thenp (cpp_print_sockaddr_info (a_peer a)) (ret (http_add (a_ret a) ([p, q], 1)))))
          (\<lambda>st. wp (loop (Suc (Suc 0)) (http_step junk s) (1, st)) Q E os) E os ?h" for m
        unfolding wp_thenp wp_ret add
        by (rule muteD [OF quiet_LOG(1) [OF h(2)] mute_LOG(1)], rule muteD [OF quiet_cpp_print mute_cpp_print], assumption, rule visit [OF c])
          (simp_all only: h comes_Accept [OF c(1)] same_talk_comes(2))
      with False show ?thesis by simp
    qed
  qed
  show ?thesis
    unfolding numeral_3_eq_3 wp_loop_Suc [of "Suc (Suc 0)"] first wp_bindp wp_ret iter.case by (rule accept)
qed

section \<open>The whole server\<close>

text \<open>An environment in which the socket can be set up and clients come.\<close>

definition obliging :: "os \<Rightarrow> bool" where
  "obliging os \<longleftrightarrow> (\<forall>h. (\<forall>n. a_ptr (os h (GetProtoByName n)) \<noteq> 0) \<and> (\<forall>n p i. a_ret (os h (GetAddrInfo n p i)) = 0)
     \<and> (\<forall>d t p. 0 \<le> a_ret (os h (Socket d t p))) \<and> (\<forall>f a l. a_ret (os h (Bind f a l)) = 0)
     \<and> (\<forall>f n. a_ret (os h (Listen f n)) = 0) \<and> (\<forall>f. 0 \<le> a_ret (os h (Accept f)))
     \<and> (\<forall>es t. 0 \<le> a_ret (os h (PollCall es t))))"

text \<open>\<open>poll\<close> reports the first entry readable whenever it returns.\<close>

definition listener_ready :: "os \<Rightarrow> bool" where
  "listener_ready os \<longleftrightarrow> (\<forall>h es t r rs. 0 \<le> a_ret (os h (PollCall es t)) \<longrightarrow>
     a_flags (os h (PollCall es t)) = r # rs \<longrightarrow> r AND POLLIN \<noteq> 0)"

lemma obligingD:
  assumes "obliging os"
  shows "answers os h (GetProtoByName n) a \<Longrightarrow> a_ptr a \<noteq> 0" "answers os h (GetAddrInfo x p i) a \<Longrightarrow> a_ret a = 0"
    "answers os h (Socket d t k) a \<Longrightarrow> 0 \<le> a_ret a" "answers os h (Bind f ad l) a \<Longrightarrow> a_ret a = 0"
    "answers os h (Listen f m) a \<Longrightarrow> a_ret a = 0" "answers os h (Accept f) a \<Longrightarrow> 0 \<le> a_ret a"
    "answers os h (PollCall es u) a \<Longrightarrow> 0 \<le> a_ret a"
  using assms by (auto simp: obliging_def answers_def)

lemma wp_cpp_bind_all:
  "Fd s \<in> live h \<Longrightarrow> 0 \<le> s \<Longrightarrow> disciplined h \<Longrightarrow> rc = 0 \<or> \<not> obliging os \<Longrightarrow>
   (\<And>rc h'. live h' = live h \<Longrightarrow> disciplined h' \<Longrightarrow> rc = 0 \<or> \<not> obliging os \<Longrightarrow> same_talk h h' \<Longrightarrow> Q rc h') \<Longrightarrow>
   wp (cpp_bind_all s ps rc) Q E os h"
proof (induction ps arbitrary: rc h)
  case (Cons p ps)
  show ?case unfolding cpp_bind_all.simps wp_thenp wp_bindp wp_sys wp_if wp_ret
  proof (rule muteD [OF quiet_cpp_print [OF Cons.prems(3)] mute_cpp_print], intro allI impI, goal_cases)
    case (1 u h1 a)
    let ?h = "(Bind s (ai_addr p) (ai_addrlen p), a) # h1"
    have h: "live ?h = live h" "disciplined ?h" "same_talk h ?h" using 1 Cons.prems by (simp_all add: res_simps mute_def)
    show ?case
    proof (cases "a_ret a = 0")
      case True
      then show ?thesis using Cons.prems(5) [OF h(1,2) _ h(3)] by simp
    next
      case False
      then have no: "\<not> obliging os" using obligingD(4) [OF _ 1(4)] by blast
      have "wp (cpp_bind_all s ps (a_ret a)) Q E os ?h"
        by (rule Cons.IH) (use Cons.prems h no same_talk_trans [OF h(3)] in \<open>simp_all del: live.simps disciplined.simps\<close>)
      with False show ?thesis by simp
    qed
  qed
qed (simp add: wp_ret)

lemma wp_start_listening:
  assumes h: "live h = insert (Fd s) (insert (Info i) L)" "disciplined h" and f: "0 \<le> s" "Fd s \<notin> L" "Info i \<notin> L"
    and none: "\<And>h'. live h' = L \<Longrightarrow> disciplined h' \<Longrightarrow> \<not> obliging os \<Longrightarrow> Q None h'"
    and some: "\<And>h'. live h' = insert (Fd s) L \<Longrightarrow> disciplined h' \<Longrightarrow> same_talk h h' \<Longrightarrow> Q (Some s) h'"
  shows "wp (start_listening i ps s) Q E os h"
proof -
  let ?L = "insert (Fd s) (insert (Info i) L)"
  have drop: "wp (thenp (LOGE m) (thenp (sys (FreeAddrInfo i)) (thenp (sys (Close s)) (ret None)))) Q E os h'"
    if "live h' = ?L" "disciplined h'" "\<not> obliging os" for m h'
    unfolding wp_thenp wp_sys wp_ret
    by (rule quietD [OF quiet_LOG(2) [OF that(2)]], intro allI impI none) (use that f in \<open>auto simp: res_simps\<close>)
  have finish: "wp (thenp (sys (FreeAddrInfo i)) (ret (Some s))) Q E os h'" if "live h' = ?L" "disciplined h'" "same_talk h h'" for h'
    unfolding wp_thenp wp_sys wp_ret by (intro allI impI some) (use that f in \<open>auto simp: res_simps mute_def\<close>)
  have listen: "wp (if a_ret l \<noteq> 0
      then thenp (LOGE ''Server listen() failed'') (thenp (sys (FreeAddrInfo i)) (thenp (sys (Close s)) (ret None)))
      else thenp (sys (FreeAddrInfo i)) (ret (Some s))) Q E os ((Listen s 2, l) # h')"
    if "live h' = ?L" "disciplined h'" "answers os h' (Listen s 2) l" "same_talk h h'" for l h'
  proof -
    have l: "live ((Listen s 2, l) # h') = ?L" "disciplined ((Listen s 2, l) # h')"
      "same_talk h ((Listen s 2, l) # h')" using that f by (auto simp: res_simps mute_def)
    show ?thesis
    proof (cases "a_ret l = 0")
      case False
      then have "\<not> obliging os" using obligingD(5) [OF _ that(3)] by blast
      with False drop [OF l(1,2)] show ?thesis by simp
    qed (use finish [OF l] in simp)
  qed
  show ?thesis
    unfolding start_listening_def wp_thenp [of "set_socket_nonblocking x" for x] wp_bindp [of "cpp_bind_all x y z" for x y z]
  proof (rule muteD [OF quiet_set_socket_nonblocking mute_set_socket_nonblocking], goal_cases)
    case (4 u h4)
    then have h4: "Fd s \<in> live h4" "live h4 = ?L" "disciplined h4" using h by simp_all
    show ?case
    proof (rule wp_cpp_bind_all [OF h4(1) f(1) h4(3)], goal_cases)
      case (2 rc h5)
      then have h5: "live h5 = ?L" using h4 by simp
      show ?case
      proof (cases "rc = 0")
        case True
        with listen [OF h5 2(2) _ same_talk_trans [OF 4(3) 2(4)]] show ?thesis by (simp add: wp_bindp wp_sys del: live.simps disciplined.simps)
      next
        case False
        with 2 drop [OF h5] show ?thesis by simp
      qed
    qed simp
  qed (use h f in simp_all)
qed

lemma wp_setup_socket:
  assumes law: "lawful os" and d: "disciplined h"
    and none: "\<And>h'. live h' = live h \<Longrightarrow> disciplined h' \<Longrightarrow> \<not> obliging os \<Longrightarrow> Q None h'"
    and some: "\<And>s h'. 0 \<le> s \<Longrightarrow> live h' = insert (Fd s) (live h) \<Longrightarrow> disciplined h' \<Longrightarrow> same_talk h h' \<Longrightarrow> Q (Some s) h'"
  shows "wp (setup_socket port) Q E os h"
  unfolding setup_socket_def wp_bindp [of "sys c" for c] wp_sys wp_if
proof (intro allI impI if_bool_eq_conj [THEN iffD2] conjI, goal_cases)
  case (1 proto)
  then have "\<not> obliging os" using obligingD(1) [of os h "''tcp''" proto] by blast
  then show ?case unfolding wp_ret by (intro none) (use d in \<open>simp_all add: res_simps\<close>)
next
  case (2 proto r)
  then have "\<not> obliging os" using obligingD(2) [OF _ 2(3)] by blast
  then show ?case unfolding wp_thenp wp_ret
    by (intro quietD [OF quiet_LOG(2)] none) (use d 2 in \<open>auto simp: res_simps\<close>)
next
  case (3 proto r)
  let ?h2 = "(GetAddrInfo (Some ''localhost'') (dec port) (inet_hints 1 1 (a_ret proto)), r) # (GetProtoByName ''tcp'', proto) # h"
  have r0: "a_ret r = 0" using 3 by simp
  from fresh_info [OF law 3(3) r0] obtain p ps where ps: "a_infos r = p # ps" and i: "Info (a_ptr r) \<notin> live h"
    by (cases "a_infos r") (auto simp: res_simps)
  let ?s = "Socket (ai_family p) (ai_socktype p) (ai_protocol p)"
  have h2: "live ?h2 = insert (Info (a_ptr r)) (live h)" "disciplined ?h2" using d r0 by (auto simp: res_simps)
  have talk: "same_talk h ((?s, s) # ?h2)" for s by (simp add: mute_def)
  have "wp (if a_ret s < 0 then thenp (LOGE ''Server socket() failed'') (thenp (sys (FreeAddrInfo (a_ptr r))) (ret None))
      else start_listening (a_ptr r) (p # ps) (a_ret s)) Q E os ((?s, s) # ?h2)" if s: "answers os ?h2 ?s s" for s
  proof (cases "a_ret s < 0")
    case True
    then have no: "\<not> obliging os" using obligingD(3) [OF _ s] by linarith
    have h3: "live ((?s, s) # ?h2) = insert (Info (a_ptr r)) (live h)" "disciplined ((?s, s) # ?h2)" using h2 True by (auto simp: res_simps)
    have "wp (thenp (LOGE m) (thenp (sys (FreeAddrInfo (a_ptr r))) (ret None))) Q E os ((?s, s) # ?h2)" for m
      unfolding wp_thenp wp_sys wp_ret
      by (rule quietD [OF quiet_LOG(2) [OF h3(2)]], intro allI impI none) (use h3 i no in \<open>auto simp: res_simps\<close>)
    with True show ?thesis by simp
  next
    case False
    then have f: "0 \<le> a_ret s" "Fd (a_ret s) \<notin> live ?h2" using fresh_socket [OF law s] by auto
    have "wp (start_listening (a_ptr r) (p # ps) (a_ret s)) Q E os ((?s, s) # ?h2)"
      by (rule wp_start_listening [where L = "live h"])
        (use h2 f i none some same_talk_trans [OF talk] in \<open>auto simp: res_simps\<close>)
    with False show ?thesis by simp
  qed
  then show ?case unfolding ps by (simp add: wp_bindp [of "getp a b" for a b] wp_getp wp_bindp [of "sys c" for c] wp_sys)
qed

lemma listener_readyD:
  "listener_ready os \<Longrightarrow> answers os h (PollCall es t) a \<Longrightarrow> 0 \<le> a_ret a \<Longrightarrow> a_flags a = r # rs \<Longrightarrow> r AND POLLIN \<noteq> 0"
  unfolding listener_ready_def answers_def by blast

lemma wp_http_round_one:
  assumes law: "lawful os" and ready: "listener_ready os" and d: "disciplined h" and s: "0 \<le> s" "Fd s \<in> live h"
    and p: "p_fd p = s" and q: "idle q"
    and fail: "\<And>h'. \<not> obliging os \<Longrightarrow> live h' = live h \<Longrightarrow> disciplined h' \<Longrightarrow> Q (Leave (Inr ())) h'"
    and refuse: "\<And>p' h'. \<not> obliging os \<Longrightarrow> p_fd p' = s \<Longrightarrow> live h' = live h \<Longrightarrow> disciplined h' \<Longrightarrow> same_talk h h' \<Longrightarrow> Q (Again ([p', q], 1)) h'"
    and handle: "\<And>p' c h1. p_fd p' = s \<Longrightarrow> 0 \<le> c \<Longrightarrow> Fd c \<notin> live h \<Longrightarrow> live h1 = insert (Fd c) (live h) \<Longrightarrow> disciplined h1 \<Longrightarrow> comes c h h1 \<Longrightarrow>
      wp (handle_client junk c) (\<lambda>r h2. case r of Inl e \<Rightarrow> Q (Leave (Inl e)) h2 | Inr activity \<Rightarrow> activity \<noteq> Waiting_Activity \<and>
        live h2 = live h1 \<and> disciplined h2 \<and>
        (\<forall>q' h3. live h3 = live h \<longrightarrow> disciplined h3 \<longrightarrow> idle q' \<longrightarrow> parts c h2 h3 \<longrightarrow> Q (Again ([p', q'], 1)) h3)) E os h1"
  shows "wp (http_round junk s ([p, q], 1)) Q E os h"
  unfolding http_round_def wp_thenp [of "LOGI m" for m]
proof (rule muteD [OF quiet_LOG(1) [OF d] mute_LOG(1)], goal_cases)
  case (1 u h1)
  have inv: "http_inv ([p, q], 1) h1" using 1 s p by (simp add: http_inv_def poll_used_def)
  show ?case
    unfolding wp_bindp [of "poll_wait st" for st] prod.case poll_wait_def wp_bindp wp_sys wp_ret
  proof (intro allI impI, goal_cases)
    case c: (1 a)
    let ?h = "(PollCall (map (\<lambda>p. (p_fd p, p_events p)) (take 1 [p, q])) (- 1), a) # h1"
    have h: "live ?h = live h" "disciplined ?h" "same_talk h ?h" using 1 s p by (simp_all add: res_simps mute_def)
    show ?case
    proof (cases "a_ret a < 0")
      case True
      then have no: "\<not> obliging os" using obligingD(7) [OF _ c] by linarith
      have "wp (thenp (LOGE m) (ret (Leave (Inr ())))) Q E os ?h" for m
        unfolding wp_thenp wp_ret by (rule quietD [OF quiet_LOG(2) [OF h(2)]], rule fail [OF no]) (simp_all only: h)
      with True show ?thesis by (simp del: live.simps disciplined.simps)
    next
      case False
      then obtain r where r: "a_flags a = [r]" using poll_law [OF law c] by (auto simp: length_Suc_conv)
      let ?p = "p\<lparr>p_revents := r\<rparr>"
      have pr: "readable ?p" "p_fd ?p = s" using listener_readyD [OF ready c _ r] False p by (simp_all add: readable_def)
      have "wp (loop 3 (http_step junk s) (0, [?p, q], 1)) (\<lambda>r h'. case r of
          Inl e \<Rightarrow> Q (Leave (Inl e)) h' | Inr st \<Rightarrow> Q (Again st) h') E os ?h"
      proof (rule wp_http_scan_one [OF law h(2) s(1) _ pr(2,1) q], goal_cases)
        case (2 a' h')
        then have "\<not> obliging os" using obligingD(6) [OF _ 2(2)] by linarith
        with refuse [OF _ pr(2)] 2 h same_talk_trans [OF h(3)] show ?case by (simp del: live.simps)
      next
        case (3 cl h2)
        have "Fd cl \<notin> live h" "live h2 = insert (Fd cl) (live h)" using 3(2,3) unfolding h(1) .
        from wp_mono [OF handle [OF pr(2) 3(1) this 3(4) same_talk_comes(1) [OF h(3) 3(5)]]] show ?case
          by (rule wp_mono) (use h(1) in \<open>auto simp del: live.simps split: sum.splits\<close>)
      qed (use s h in simp)
      then have "wp (bindp (loop 3 (http_step junk s) (0, [?p, q], 1)) (\<lambda>r. case r of
          Inl e \<Rightarrow> ret (Leave (Inl e)) | Inr st \<Rightarrow> ret (Again st))) Q E os ?h"
        unfolding wp_bindp by (rule wp_mono) (auto simp: wp_ret split: sum.splits)
      with False show ?thesis by (simp add: r del: live.simps disciplined.simps)
    qed
  qed
qed

lemma wp_http_server:
  assumes law: "lawful os" and two: "length stack = 2" and d: "disciplined h"
  shows "wp (http_server junk stack n port) (\<lambda>_. disciplined) server_stop os h"
  unfolding http_server_def wp_bindp
proof (rule wp_setup_socket [OF law d], goal_cases)
  case (1 h')
  then show ?case by (simp add: wp_thenp) (rule quietD [OF quiet_LOG(2)], auto simp: wp_ret)
next
  case (2 s h')
  let ?st = "(stack[0 := (stack ! 0)\<lparr>p_fd := s, p_events := POLLIN\<rparr>], 1)"
  obtain p q where "stack = [p, q]" using two by (auto simp: length_Suc_conv numeral_2_eq_2)
  with 2 have start: "http_inv ?st h'" by (simp add: http_inv_def poll_used_def)
  show ?case
    unfolding option.case
  proof (rule wp_loop [where I = http_inv, OF _ _ start], goal_cases)
    case (1 st h0)
    show ?case by (rule wp_mono [OF wp_http_round [OF 1 law]]) (auto split: iter.splits)
  qed (auto dest: http_inv_disciplined simp: server_stop_def)
qed

text \<open>Between two rounds of the serial case every client that came has been heard once, and closed
  once, in the order in which they came.\<close>

definition all_served :: "log \<Rightarrow> bool" where
  "all_served h \<longleftrightarrow> client_heard h = client_came h \<and> client_gone h = client_came h"

definition only_listener :: "int \<Rightarrow> poll_state \<Rightarrow> log \<Rightarrow> bool" where
  "only_listener s st h \<longleftrightarrow> (\<exists>p q. st = ([p, q], 1) \<and> p_fd p = s \<and> idle q) \<and> 0 \<le> s \<and>
     live h = {Fd s, Fd 0, Fd 1, Fd 2} \<and> disciplined h \<and> all_served h"

lemma all_served_Nil [simp]: "all_served []"
  by (simp add: all_served_def)

lemma all_served_round: "all_served h \<Longrightarrow> comes c h h1 \<Longrightarrow> hears c h1 h2 \<Longrightarrow> parts c h2 h3 \<Longrightarrow> all_served h3"
  by (simp add: all_served_def comes_def hears_def parts_def)

lemma all_served_same: "all_served h \<Longrightarrow> same_talk h h' \<Longrightarrow> all_served h'"
  by (simp add: all_served_def same_talk_def)

lemma wp_http_round_serial:
  assumes law: "lawful os" and ready: "listener_ready os" and st: "only_listener s st h"
  shows "wp (http_round junk s st) (\<lambda>r h'. case r of Again st' \<Rightarrow> only_listener s st' h' | Leave _ \<Rightarrow> True)
    (\<lambda>e h. stop_ok e h \<and> e \<noteq> Unfinished) os h"
proof -
  obtain p q where pq: "st = ([p, q], 1)" "p_fd p = s" "idle q" using st by (auto simp: only_listener_def)
  have h: "0 \<le> s" "live h = {Fd s, Fd 0, Fd 1, Fd 2}" "disciplined h" "all_served h" using st by (auto simp: only_listener_def)
  show ?thesis
    unfolding pq(1)
  proof (rule wp_http_round_one [OF law ready h(3,1) _ pq(2,3)], goal_cases)
    case (4 p' c h1)
    show ?case
      by (rule wp_handle_client [OF law 4(5,2)])
        (use 4 h in \<open>auto simp: only_listener_def stop_ok_def overrun_def split: sum.splits intro: all_served_round [OF h(4)]\<close>)
  qed (use h pq in \<open>auto simp: only_listener_def intro: all_served_same\<close>)
qed

lemma only_listener_start:
  assumes "length stack = 2" and "idle (stack ! 1)" and "0 \<le> s" and "live h = {Fd s, Fd 0, Fd 1, Fd 2}" and "disciplined h"
    and "all_served h"
  shows "only_listener s (stack[0 := (stack ! 0)\<lparr>p_fd := s, p_events := POLLIN\<rparr>], 1) h"
proof -
  obtain p q where "stack = [p, q]" using assms(1) by (auto simp: length_Suc_conv numeral_2_eq_2)
  with assms show ?thesis by (simp add: only_listener_def)
qed

lemma wp_http_server_serial:
  assumes law: "lawful os" and ready: "listener_ready os" and two: "length stack = 2" and q: "idle (stack ! 1)"
    and h: "live h = {Fd 0, Fd 1, Fd 2}" "disciplined h" "all_served h"
  shows "wp (http_server junk stack n port) (\<lambda>_ _. True)
    (\<lambda>e h. e = Unfinished \<longrightarrow> (\<exists>s. live h = {Fd s, Fd 0, Fd 1, Fd 2}) \<and> all_served h) os h"
  unfolding http_server_def wp_bindp
proof (rule wp_setup_socket [OF law h(2)], goal_cases)
  case (1 h')
  then show ?case by (simp add: wp_thenp) (rule quietD [OF quiet_LOG(2)], auto simp: wp_ret)
next
  case (2 s h')
  then have start: "only_listener s (stack[0 := (stack ! 0)\<lparr>p_fd := s, p_events := POLLIN\<rparr>], 1) h'"
    by (intro only_listener_start two q) (use h all_served_same [OF h(3) 2(4)] in auto)
  show ?case
    unfolding option.case
  proof (rule wp_loop [where I = "only_listener s", OF _ _ start], goal_cases)
    case (1 st h0)
    show ?case by (rule wp_mono [OF wp_http_round_serial [OF law ready 1]]) (auto split: iter.splits)
  qed (auto simp: only_listener_def)
qed

text \<open>A message whose parsing throws\<close>

lemma wp_handle_bad:
  assumes a: "os h (Recv f 1024 0) = a" "a_ret a = int (length msg)" "a_buf a = msg" and m: "msg \<noteq> []" "length msg < 1024"
    and bad: "http_parse (cstr msg) = Inl e" and post: "\<And>h'. Q (Inl e) h'"
  shows "wp (handle_client junk f) Q E os h"
proof -
  have "terminated (overlay (zeros 1024) 0 msg)" "cstr (overlay (zeros 1024) 0 msg) = cstr msg"
    using m by (simp_all add: cstr_received)
  then show ?thesis using a m bad
    by (auto simp: handle_client_def wp_bindp wp_sys answers_def wp_c_string wp_ret post)
qed

lemma wp_http_server_bad:
  assumes law: "lawful os" and ready: "listener_ready os" and obl: "obliging os" and two: "length stack = 2" and q: "idle (stack ! 1)"
    and a: "\<And>h f. a_ret (os h (Recv f 1024 0)) = int (length msg) \<and> a_buf (os h (Recv f 1024 0)) = msg"
    and m: "msg \<noteq> []" "length msg < 1024" and bad: "http_parse (cstr msg) = Inl e"
  shows "wp (http_server junk stack (Suc n) port) (\<lambda>r _. r = Inl e) (\<lambda>_ _. False) os []"
  unfolding http_server_def wp_bindp
proof (rule wp_setup_socket [OF law], goal_cases)
  case (3 s h')
  then have start: "only_listener s (stack[0 := (stack ! 0)\<lparr>p_fd := s, p_events := POLLIN\<rparr>], 1) h'"
    by (intro only_listener_start two q all_served_same [OF _ 3(4)]) (auto simp: all_served_def)
  obtain p q where pq: "stack[0 := (stack ! 0)\<lparr>p_fd := s, p_events := POLLIN\<rparr>] = [p, q]" "p_fd p = s" "idle q"
    using start by (auto simp: only_listener_def)
  have d: "disciplined h'" "Fd s \<in> live h'" using start by (auto simp: only_listener_def)
  show ?case
    unfolding option.case wp_loop_Suc pq(1)
    by (rule wp_http_round_one [OF law ready d(1) 3(1) d(2) pq(2,3)])
      (use obl in \<open>auto intro!: wp_handle_bad [OF refl _ _ m bad] simp: a\<close>)
qed (use obl in simp_all)

text \<open>The array as the declaration leaves it: the first client of the server\<close>

lemma wp_http_round_unwritten:
  assumes law: "lawful os" and ready: "listener_ready os" and obl: "obliging os" and d: "disciplined h" and s: "0 \<le> s" "Fd s \<in> live h"
    and p: "p_fd p = s" and q: "p_revents q = unwritten"
    and stuck: "\<And>c h'. comes c h h' \<Longrightarrow> Q (Fault Uninitialised) h'"
  shows "wp (http_round junk s ([p, q], 1)) (\<lambda>_ _. False) Q os h"
  unfolding http_round_def wp_thenp [of "LOGI m" for m]
proof (rule muteD [OF quiet_LOG(1) [OF d] mute_LOG(1)], goal_cases)
  case (1 u h1)
  show ?case
    unfolding wp_bindp [of "poll_wait st" for st] prod.case poll_wait_def wp_bindp wp_sys wp_ret
  proof (intro allI impI, goal_cases)
    case c: (1 a)
    let ?h = "(PollCall (map (\<lambda>p. (p_fd p, p_events p)) (take 1 [p, q])) (- 1), a) # h1"
    have h: "Fd s \<in> live ?h" "disciplined ?h" "same_talk h ?h" using 1 s p by (simp_all add: res_simps mute_def)
    have ok: "0 \<le> a_ret a" using obligingD(7) [OF obl c] .
    then obtain r where r: "a_flags a = [r]" using poll_law [OF law c] by (auto simp: length_Suc_conv)
    let ?p = "p\<lparr>p_revents := r\<rparr>" and ?q = "\<lambda>c. q\<lparr>p_fd := c, p_events := POLLIN\<rparr>"
    have pr: "readable ?p" "p_fd ?p = s" using listener_readyD [OF ready c ok r] p by (simp_all add: readable_def)
    have first: "http_step junk s (0, [?p, q], 1) = bindp (http_accept s ([?p, q], 1)) (\<lambda>st. ret (Again (1, st)))"
      unfolding http_step_def prod.case add_0 using pr readable_written [OF pr(1)] by (simp add: entry_def getp_def guardp_def)
    have second: "http_step junk s (1, [?p, ?q f], 2) = halt (Fault Uninitialised)" for f
      unfolding http_step_def prod.case using q by (simp add: entry_def getp_def guardp_def)
    have "wp (http_accept s ([?p, q], 1)) (\<lambda>st. wp (loop (Suc (Suc 0)) (http_step junk s) (1, st)) R Q os) Q os ?h" for R
      unfolding http_accept_def wp_bindp wp_sys
    proof (intro allI impI, goal_cases)
      case (1 a)
      let ?h' = "(Accept s, a) # ?h"
      have f: "0 \<le> a_ret a" using obligingD(6) [OF obl 1] .
      have d: "disciplined ?h'" using h s by (simp add: res_simps)
      have add: "http_add (a_ret a) ([?p, q], 1) = ([?p, ?q (a_ret a)], 2)" by (simp add: http_add_def)
      have "wp (thenp (LOGI m) (thenp (cpp_print_sockaddr_info (a_peer a)) (ret (http_add (a_ret a) ([?p, q], 1)))))
          (\<lambda>st. wp (loop (Suc (Suc 0)) (http_step junk s) (1, st)) R Q os) Q os ?h'" for m
        unfolding wp_thenp wp_ret add wp_loop_Suc [of "Suc 0"] second wp_halt
        by (rule muteD [OF quiet_LOG(1) [OF d] mute_LOG(1)], rule muteD [OF quiet_cpp_print mute_cpp_print], assumption,
          rule stuck, rule same_talk_comes(1) [OF h(3)])
            (simp only: comes_Accept [OF f], erule same_talk_comes(2), assumption)
      with f show ?case by simp
    qed
    then have "wp (loop 3 (http_step junk s) (0, [?p, q], 1)) R Q os ?h" for R
      unfolding numeral_3_eq_3 wp_loop_Suc [of "Suc (Suc 0)"] first wp_bindp wp_ret iter.case .
    with ok show ?case by (simp add: r wp_bindp del: live.simps disciplined.simps)
  qed
qed

lemma wp_http_server_unwritten:
  assumes law: "lawful os" and ready: "listener_ready os" and obl: "obliging os" and two: "length stack = 2"
    and q: "p_revents (stack ! 1) = unwritten"
  shows "wp (http_server junk stack (Suc n) port) (\<lambda>_ _. False)
    (\<lambda>e h. e = Fault Uninitialised \<and> (\<exists>c. client_came h = [c] \<and> client_heard h = [] \<and> client_gone h = [])) os []"
  unfolding http_server_def wp_bindp
proof (rule wp_setup_socket [OF law], goal_cases)
  case (3 s h')
  obtain p q where pq: "stack[0 := (stack ! 0)\<lparr>p_fd := s, p_events := POLLIN\<rparr>] = [p, q]" "p_fd p = s" "p_revents q = unwritten"
    using two q by (auto simp: length_Suc_conv numeral_2_eq_2)
  have talk: "same_talk [] h'" using 3 by simp
  show ?case
    unfolding option.case wp_loop_Suc pq(1)
    by (rule wp_mono [OF wp_http_round_unwritten [OF law ready obl 3(3,1) _ pq(2,3)]])
      (use 3 in \<open>auto simp: comes_def same_talk_def\<close>)
qed (use obl in simp_all)

text \<open>The concrete environment: every client closes its connection without a word.\<close>

lemma obliging_sim_os: "obliging (sim_os msgs)" and listener_ready_sim_os: "listener_ready (sim_os msgs)"
proof -
  have "0 \<le> next_val h" for h using next_val_gt [of h] by linarith
  then show "obliging (sim_os msgs)" by (simp add: obliging_def sim_os_def)
  show "listener_ready (sim_os msgs)" by (auto simp: listener_ready_def sim_os_def)
qed

lemma wp_http_server_quiet_client:
  assumes two: "length stack = 2" and q: "idle (stack ! 1)"
  shows "wp (http_server junk stack 1 port) (\<lambda>_ _. False) (\<lambda>e _. e = Unfinished) (sim_os []) []"
  unfolding http_server_def wp_bindp
proof (rule wp_setup_socket [OF lawful_sim_os], goal_cases)
  case (3 s h')
  then have start: "only_listener s (stack[0 := (stack ! 0)\<lparr>p_fd := s, p_events := POLLIN\<rparr>], 1) h'"
    by (intro only_listener_start two q all_served_same [OF _ 3(4)]) (auto simp: all_served_def)
  obtain p q where pq: "stack[0 := (stack ! 0)\<lparr>p_fd := s, p_events := POLLIN\<rparr>] = [p, q]" "p_fd p = s" "idle q"
    using start by (auto simp: only_listener_def)
  have d: "disciplined h'" "Fd s \<in> live h'" using start by (auto simp: only_listener_def)
  have mute: "a_ret (sim_os [] h (Recv f k l)) = 0" for h f k l by (simp add: sim_os_def sim_read_def)
  show ?case
    unfolding option.case One_nat_def wp_loop_Suc pq(1) [unfolded One_nat_def]
  proof (rule wp_http_round_one [OF lawful_sim_os listener_ready_sim_os d(1) 3(1) d(2) pq(2,3), unfolded One_nat_def], goal_cases)
    case (3 p' c h1)
    show ?case
      unfolding handle_client_def wp_bindp [of "sys c" for c] wp_sys
    proof (intro allI impI, goal_cases)
      case (1 a)
      then have a: "a_ret a \<le> 0" using mute by (auto simp: answers_def)
      have h2: "live ((Recv c 1024 0, a) # h1) = live h1" "disciplined ((Recv c 1024 0, a) # h1)"
        using 3 by (simp_all add: res_simps)
      show ?case unfolding of_nat_numeral if_P [OF a] wp_thenp wp_ret
        by (rule quietD [OF quiet_LOG(1) [OF h2(2)]]) (simp add: h2(1) wp_halt del: live.simps)
    qed
  qed (use obliging_sim_os in simp_all)
qed (use obliging_sim_os in simp_all)

section \<open>Properties\<close>

text \<open>The array as the declaration leaves it\<close>

definition fresh_stack :: "pollfd list" where
  "fresh_stack = replicate 2 (no_entry\<lparr>p_revents := unwritten\<rparr>)"

text \<open>What \<open>main\<close> adds to a run of the server: an exception is shown.\<close>

abbreviation caught :: "bytes \<Rightarrow> bytes \<Rightarrow> int prog" where
  "caught name m \<equiv> thenp (LOGE m) (thenp (http_usage name) (ret 0))"

lemma wp_http_server_main:
  assumes "\<And>port. wp (http_server junk stack n port) (\<lambda>r h. case r of Inl e \<Rightarrow> wp (caught name (what e)) Q E os h | Inr u \<Rightarrow> Q 0 h) E os []"
    and "wp (thenp (http_usage name) (ret (- 1))) Q E os []" and "\<And>e. wp (caught name (what e)) Q E os []"
  shows "wp (http_server_main what junk stack n (name # rest)) Q E os []"
proof -
  have "wp (case r of Inl e \<Rightarrow> caught name (what e) | Inr u \<Rightarrow> ret 0) Q E os h
      \<longleftrightarrow> (case r of Inl e \<Rightarrow> wp (caught name (what e)) Q E os h | Inr u \<Rightarrow> Q 0 h)" for r :: "exn + unit" and h
    by (simp add: wp_ret split: sum.split)
  then show ?thesis
    using assms by (simp add: http_server_main_def wp_bindp wp_getp wp_ret split: sum.split)
qed

text \<open>
  C13: The C++ server, in every environment that behaves as documented, with every content of
  its array and whatever the clients send: it never uses or closes a descriptor that is not
  open, and every exception ends in \<open>main\<close>. Two kinds of undefined behaviour are left: the
  search for the end of a message of 1024 bytes, and the test of a \<open>revents\<close> that \<open>poll\<close>
  has not written.
\<close>

theorem http_server_ok:
  assumes "lawful os" and "length stack = 2" and "argv \<noteq> []"
    and "http_server_main what junk stack n argv os [] = (r, h)"
  shows "disciplined h \<and> (case r of Done _ \<Rightarrow> True | Stop e \<Rightarrow> server_stop e h)"
proof -
  obtain name rest where argv: "argv = name # rest" using assms(3) by (cases argv) auto
  have usage: "wp (thenp (http_usage name) (ret k)) (\<lambda>_. disciplined) server_stop os h" if "disciplined h" for k :: int and h
    using that by (simp add: http_usage_def wp_simps res_simps)
  have c: "wp (caught name m) (\<lambda>_. disciplined) server_stop os h" if "disciplined h" for m h
    unfolding wp_thenp [of "LOGE m" for m] by (rule quietD [OF quiet_LOG(2) [OF that]], rule usage)
  have "wp (http_server_main what junk stack n argv) (\<lambda>_. disciplined) server_stop os []"
    unfolding argv
    by (intro wp_http_server_main wp_mono [OF wp_http_server [OF assms(1,2)]]) (auto intro: usage c split: sum.split)
  with assms(4) show ?thesis
    by (auto simp: wp_def server_stop_def stop_ok_def split: outcome.split)
qed

theorem http_server_ok_witness:
  "disciplined (snd (http_server_main (\<lambda>_. ''stoi'') 7 fresh_stack 3 [''http_server'', ''8080''] (sim_os [''GET / HTTP/1.1'']) []))"
  using http_server_ok [OF lawful_sim_os _ _ prod.collapse [symmetric]] by (simp add: fresh_stack_def)

text \<open>
  C37: The array \<open>fds\<close> of \<open>start\<close> is not initialised, and the test of the second entry comes
  right after a client has been put there, before \<open>poll\<close> has written it: in an environment in
  which the socket can be set up and a client comes, the server accepts its first client, then
  reads an indeterminate value, and nothing of that client is read.
\<close>

theorem first_client_undefined:
  assumes "lawful os" and "listener_ready os" and "obliging os" and "length stack = 2"
    and "p_revents (stack ! 1) = unwritten" and "stoi port_s = Inr port"
  shows "\<exists>h c. http_server_main what junk stack (Suc n) [name, port_s] os [] = (Stop (Fault Uninitialised), h)
    \<and> client_came h = [c] \<and> client_heard h = [] \<and> client_gone h = []"
proof -
  have "wp (http_server_main what junk stack (Suc n) [name, port_s]) (\<lambda>_ _. False)
      (\<lambda>e h. e = Fault Uninitialised \<and> (\<exists>c. client_came h = [c] \<and> client_heard h = [] \<and> client_gone h = [])) os []"
    unfolding http_server_main_def list.case wp_bindp wp_getp option.case using assms(6)
    by (simp add: wp_bindp wp_ret) (rule wp_mono [OF wp_http_server_unwritten [OF assms(1-5)]], auto)
  then show ?thesis by (auto simp: wp_def split: prod.splits outcome.splits)
qed

theorem first_client_undefined_witness:
  "\<exists>h c. http_server_main (\<lambda>_. ''stoi'') 7 fresh_stack (Suc 3) [''http_server'', dec 8080] (sim_os [''GET / HTTP/1.1'']) []
      = (Stop (Fault Uninitialised), h) \<and> client_came h = [c] \<and> client_heard h = [] \<and> client_gone h = []"
  by (rule first_client_undefined [OF lawful_sim_os listener_ready_sim_os obliging_sim_os _ _ stoi_dec])
    (simp_all add: fresh_stack_def)

text \<open>
  C10: The server is serial, because it handles an entry as a client exactly when that entry is
  not readable. If the second entry of its array holds, to begin with, a value without
  \<open>POLLIN\<close>, and \<open>poll\<close> returns for the listening socket, then after any number of rounds
  every client it has accepted has been given to the handler once (which reads one message) and
  closed once, one after the other in the order of their coming, and the listening socket is
  all that is open.
\<close>

theorem http_server_serial:
  assumes "lawful os" and "listener_ready os" and "length stack = 2" and "idle (stack ! 1)"
    and "http_server_main what junk stack n argv os [] = (Stop Unfinished, h)"
  shows "\<exists>s. live h = {Fd s, Fd 0, Fd 1, Fd 2} \<and> client_heard h = client_came h \<and> client_gone h = client_came h"
proof -
  let ?E = "\<lambda>e h. e = Unfinished \<longrightarrow> (\<exists>s. live h = {Fd s, Fd 0, Fd 1, Fd 2}) \<and> all_served h"
  have t: "wp (thenp (http_usage name) (ret k)) (\<lambda>_ _. True) ?E os h" "wp (caught name m) (\<lambda>_ _. True) ?E os h" for name m h and k :: int
    by (simp_all add: wp_simps http_usage_def)
  have "wp (http_server_main what junk stack n argv) (\<lambda>_ _. True) ?E os []"
  proof (cases argv)
    case (Cons name rest)
    show ?thesis unfolding Cons
      by (intro wp_http_server_main t wp_mono [OF wp_http_server_serial [OF assms(1-4)]]) (auto simp: t split: sum.split)
  qed (simp add: http_server_main_def wp_simps)
  from wp_Stop [OF this assms(5)] show ?thesis by (simp add: all_served_def)
qed

theorem http_server_serial_witness:
  "\<exists>h s. http_server_main (\<lambda>_. ''stoi'') 7 [no_entry, no_entry] 1 [''http_server'', dec 8080] (sim_os []) [] = (Stop Unfinished, h)
    \<and> live h = {Fd s, Fd 0, Fd 1, Fd 2} \<and> client_heard h = client_came h \<and> client_gone h = client_came h"
proof -
  let ?m = "http_server_main (\<lambda>_. ''stoi'') 7 [no_entry, no_entry] 1 [''http_server'', dec 8080]"
  have "wp (http_server 7 [no_entry, no_entry] 1 port) (\<lambda>_ _. False) (\<lambda>e _. e = Unfinished) (sim_os []) []" for port
    by (rule wp_http_server_quiet_client) (simp_all add: idle_no_entry)
  note run = this
  have "wp ?m (\<lambda>_ _. False) (\<lambda>e _. e = Unfinished) (sim_os []) []"
    by (simp add: http_server_main_def wp_bindp wp_getp wp_ret stoi_dec del: One_nat_def) (rule wp_mono [OF run], simp_all)
  then obtain h where h: "?m (sim_os []) [] = (Stop Unfinished, h)" by (auto simp: wp_def split: prod.splits outcome.splits)
  have "idle no_entry" by (simp add: idle_no_entry)
  with http_server_serial [OF lawful_sim_os listener_ready_sim_os _ _ h] h show ?thesis by auto
qed

text \<open>
  C14: One bad request ends the server. When a client sends a message that the parser throws
  on, such as one whose \<open>Content-Length\<close> is not a number or is negative, the exception leaves
  the server loop, and the process returns 0 after its usage text.
\<close>

theorem bad_length_ends_server:
  assumes "lawful os" and "listener_ready os" and "obliging os" and "length stack = 2" and "idle (stack ! 1)"
    and "\<And>h f. a_ret (os h (Recv f 1024 0)) = int (length msg) \<and> a_buf (os h (Recv f 1024 0)) = msg"
    and "msg \<noteq> []" and "length msg < 1024" and "http_parse (cstr msg) = Inl e" and "stoi port_s = Inr port"
  shows "\<exists>h. http_server_main what junk stack (Suc n) [name, port_s] os [] = (Done 0, h)
    \<and> fst (hd h) = Err (fmt [''Usage: '', name, '' <port>'', [LF]])"
proof -
  have "wp (http_server_main what junk stack (Suc n) [name, port_s])
      (\<lambda>r h. r = 0 \<and> fst (hd h) = Err (fmt [''Usage: '', name, '' <port>'', [LF]])) (\<lambda>_ _. False) os []"
    unfolding http_server_main_def list.case wp_bindp wp_getp option.case using assms(10)
    by (simp add: wp_bindp wp_ret)
      (rule wp_mono [OF wp_http_server_bad [OF assms(1-5,6-9)]], auto simp: wp_simps http_usage_def)
  then show ?thesis by (auto simp: wp_def split: prod.splits outcome.splits)
qed

text \<open>Every client sends \<open>msg\<close>.\<close>

definition insistent_os :: "bytes \<Rightarrow> os" where
  "insistent_os msg h c = (case c of
      Recv f n fl \<Rightarrow> (plain (int (length (take (nat n) msg))))\<lparr>a_buf := take (nat n) msg\<rparr>
    | _ \<Rightarrow> sim_os [] h c)"

lemma insistent_os_ok: "lawful (insistent_os msg)" "obliging (insistent_os msg)" "listener_ready (insistent_os msg)"
proof -
  have "answer_ok h c (insistent_os msg h c)" if "case c of Fgets n \<Rightarrow> 0 < n | _ \<Rightarrow> True" for h c
  proof (cases "\<exists>f n fl. c = Recv f n fl")
    case True
    then show ?thesis
      by (auto simp: insistent_os_def answer_ok_def sane_read_def sane_count_def acquires_def)
  next
    case False
    then have "insistent_os msg h c = sim_os [] h c" by (cases c) (simp_all add: insistent_os_def)
    with lawful_sim_os that show ?thesis by (auto simp: lawful_def)
  qed
  then show "lawful (insistent_os msg)" by (simp add: lawful_def)
  show "obliging (insistent_os msg)" using obliging_sim_os [of "[]"] by (simp add: obliging_def insistent_os_def)
  show "listener_ready (insistent_os msg)" using listener_ready_sim_os [of "[]"] by (simp add: listener_ready_def insistent_os_def)
qed

definition bad_request :: bytes where
  "bad_request = concat [''GET / HTTP/1.1'', [CR, LF], ''Content-Length: x'', [CR, LF], [CR, LF]]"

lemma bad_request_throws: "http_parse (cstr bad_request) = Inl Invalid_Argument"
proof -
  let ?hs = "[(''Content-Length'', '' x'')]"
  have "cstr bad_request = ''GET'' @ CHR '' '' # ''/'' @ CHR '' '' # (''HTTP/1.1'' @ [CR]) @ [LF] @ header_lines ?hs @ [CR, LF] @ []"
    by (simp add: bad_request_def cstr_def header_lines_def)
  moreover have "stoi ''x'' = Inl Invalid_Argument" by (simp add: stoi_def is_space_def)
  ultimately show ?thesis
    by (simp only:) (subst http_parse_head, auto simp: is_space_def header_ok_def value_of_def)
qed

theorem bad_length_ends_server_witness:
  "\<exists>h. http_server_main (\<lambda>_. ''stoi'') 7 [no_entry, no_entry] (Suc 3) [''http_server'', dec 8080] (insistent_os bad_request) [] = (Done 0, h)
    \<and> fst (hd h) = Err (fmt [''Usage: '', ''http_server'', '' <port>'', [LF]])"
proof (rule bad_length_ends_server [OF insistent_os_ok(1,3,2) _ _ _ _ _ bad_request_throws stoi_dec])
  show "idle ([no_entry, no_entry] ! 1)" by (simp add: idle_no_entry)
qed (simp_all add: insistent_os_def bad_request_def)

end
