(* ===== verification/Api_Examples.thy ===== *)
theory Api_Examples
  imports Ping_Pong
begin

text \<open>
  The small programs of \<open>my_code/sockets_api_examples\<close>, one socket call each, and the first
  steps of \<open>00_tutorials\<close> (00, 01 and 04). The comments of the C files are quotations of the
  manual pages. One of the programs, \<open>listsen_on_socket.c\<close>, reads into its whole buffer and
  then writes a NUL behind what it read.
\<close>

section \<open>Programs\<close>

definition bind_example :: "int prog" where
  "bind_example = bindp (bound_socket SOCK_STREAM ''0.0.0.0'' 3490) (\<lambda>sockfd. thenp (sys (Close sockfd)) (ret 0))"

definition connect_example :: "int prog" where
  "connect_example = bindp (connected_socket ''127.0.0.1'' ''8080'') (\<lambda>(res, sockfd).
     bindp (sys (Send sockfd ''Hello, World!'' 0)) (\<lambda>w.
     thenp (if a_ret w > 0 then put_out (fmt [''Write '', dec (a_ret w), '' bytes''])
            else if a_ret w = 0 then thenp (put_out (fmt [''Connection closed by peer'', [LF]])) (halt (Exit 1))
            else die ''recv failed'')
     (thenp (sys (Close sockfd)) (thenp (sys (FreeAddrInfo res)) (ret 0)))))"

text \<open>\<open>%x\<close>\<close>

definition hex_digit :: "nat \<Rightarrow> char" where
  "hex_digit d = (if d < 10 then char_of (48 + d) else char_of (87 + d))"

fun hex_nat :: "nat \<Rightarrow> bytes" where
  "hex_nat n = (if n < 16 then [hex_digit n] else hex_nat (n div 16) @ [hex_digit (n mod 16)])"

definition byte_order_example :: "int prog" where
  "byte_order_example = (let net_port = htons 8080; host_port = ntohs net_port in
     thenp (put_out (fmt [''Network byte order: 0x'', hex_nat (unat net_port), [LF]]))
     (thenp (put_out (fmt [''   Host byte order: 0x'', hex_nat (unat host_port), [LF]])) (ret 0)))"

text \<open>The address of a name, and a socket for it; \<open>hints\<close> are all zero.\<close>

definition web_socket :: "(int \<times> int) prog" where
  "web_socket = bindp (sys (GetAddrInfo (Some ''www.example.com'') ''http'' zero_addrinfo)) (\<lambda>r.
     if a_ret r \<noteq> 0 then die ''getaddrinfo''
     else bindp (getp Null_Deref (case a_infos r of [] \<Rightarrow> None | p # _ \<Rightarrow> Some p)) (\<lambda>res.
     bindp (sys (Socket (ai_family res) (ai_socktype res) (ai_protocol res))) (\<lambda>s.
     if a_ret s = - 1 then die ''socket'' else ret (a_ptr r, a_ret s))))"

definition create_example :: "int prog" where
  "create_example = bindp web_socket (\<lambda>(res, sockfd). thenp (sys (FreeAddrInfo res)) (ret 0))"

definition options_example :: "int prog" where
  "options_example = bindp web_socket (\<lambda>(res, sockfd).
     bindp (sys (SetSockOpt sockfd SOL_SOCKET SO_REUSEADDR)) (\<lambda>o1.
     if a_ret o1 = - 1 then die ''setsockopt''
     else thenp (sys (Close sockfd)) (thenp (sys (FreeAddrInfo res)) (ret 0))))"

text \<open>The session of the listening example: \<open>continue\<close> goes to the condition, with the buffer
  all zeros.\<close>

definition listen_read :: "int \<Rightarrow> unit \<Rightarrow> (unit, unit) iter prog" where
  "listen_read new_fd u = bindp (sys (Recv new_fd 1024 0)) (\<lambda>a.
     if a_ret a > 0
     then let buffer = overlay (zeros 1024) 0 (a_buf a) in
       thenp (put_out (fmt [''Read '', dec (a_ret a), '' bytes: '', cstr (a_buf a)]))
       (bindp (poke buffer (a_ret a) NUL) unless_quit)
     else if a_ret a = 0 then thenp (put_out (fmt [''Connection closed by peer'', [LF]])) (ret (Leave ()))
     else thenp (perror ''recv failed'') (unless_quit (zeros 1024)))"

definition listen_example :: "nat \<Rightarrow> int prog" where
  "listen_example n = bindp (bound_socket SOCK_STREAM ''0.0.0.0'' 3490) (\<lambda>sockfd.
     bindp (sys (Listen sockfd LISTEN_BACKLOG)) (\<lambda>l.
     if a_ret l = - 1 then die ''listen''
     else bindp (sys (Accept sockfd)) (\<lambda>c.
     if a_ret c = - 1 then die ''accept''
     else thenp (loop n (listen_read (a_ret c)) ())
       (thenp (sys (Close (a_ret c))) (thenp (sys (Close sockfd)) (ret 0))))))"

text \<open>The loop over the addresses; \<open>gai_strerror\<close> is a parameter.\<close>

fun show_addresses :: "addrinfo list \<Rightarrow> unit prog" where
  "show_addresses [] = ret ()"
| "show_addresses (p # ps) = thenp
     (let line = (\<lambda>ipver. put_out (fmt [ipver, '': '', sin_addr (ai_addr p), '':'', dec (uint (ntohs (sin_port (ai_addr p)))), [LF]]))
      in if ai_family p = AF_INET then line ''IPv4'' else if ai_family p = AF_INET6 then line ''IPv6'' else ret ())
     (show_addresses ps)"

definition addr_info_example :: "(int \<Rightarrow> bytes) \<Rightarrow> int prog" where
  "addr_info_example gai_strerror =
     bindp (sys (GetAddrInfo None ''3490'' (zero_addrinfo\<lparr>ai_family := AF_UNSPEC, ai_socktype := SOCK_STREAM, ai_flags := AI_PASSIVE\<rparr>))) (\<lambda>r.
     if a_ret r \<noteq> 0 then thenp (put_err (fmt [''getaddrinfo error: '', gai_strerror (a_ret r), [LF]])) (halt (Exit 1))
     else thenp (show_addresses (a_infos r)) (thenp (sys (FreeAddrInfo (a_ptr r))) (ret 0)))"

definition proto_example :: "int prog" where
  "proto_example = (let line = (\<lambda>name title. bindp (sys (GetProtoByName name)) (\<lambda>a.
       whenp (a_ptr a \<noteq> 0) (put_out (fmt [''Protocol number for '', title, '': '', dec (a_ret a), [LF]]))))
     in thenp (line ''tcp'' ''TCP'') (thenp (line ''udp'' ''UDP'') (thenp (line ''rdp'' ''RDP'') (ret 0))))"

definition service_example :: "int prog" where
  "service_example = (let line = (\<lambda>name proto title. bindp (sys (GetServByName name proto)) (\<lambda>a.
       whenp (a_ptr a \<noteq> 0) (put_out (fmt [''Protocol number for '', title, '': '', dec (uint (ntohs (word_of_int (a_ret a)))), [LF]]))))
     in thenp (line ''http'' ''tcp'' ''HTTP/TCP'') (thenp (line ''git'' ''tcp'' ''GIT/TCP'') (thenp (line ''rtsp'' ''udp'' ''RTSP/UDP'') (ret 0))))"

text \<open>\<open>getprotobyname("tcp")->p_proto\<close>, without a check\<close>

definition tcp_number :: "int prog" where
  "tcp_number = bindp (sys (GetProtoByName ''tcp'')) (\<lambda>a. thenp (guardp Null_Deref (a_ptr a \<noteq> 0)) (ret (a_ret a)))"

definition hello_main :: "int prog" where
  "hello_main = bindp tcp_number (\<lambda>p. thenp (put_out (fmt [dec p, [LF]])) (ret 0))"

definition create_main :: "int prog" where
  "create_main = bindp tcp_number (\<lambda>p. bindp (sys (Socket AF_INET SOCK_STREAM p)) (\<lambda>s.
     thenp (if a_ret s = - 1 then put_out (fmt [''failed to create a new socket'', [LF]])
            else thenp (put_out (fmt [''closing newly created socket'', [LF]])) (thenp (sys (Close (a_ret s))) (ret ())))
     (ret 0)))"

text \<open>\<open>sizeof(struct sockaddr)\<close> is 16.\<close>

definition connect_main :: "int prog" where
  "connect_main = bindp tcp_number (\<lambda>p. bindp (sys (Socket AF_INET SOCK_STREAM p)) (\<lambda>s.
     if a_ret s < 0 then thenp (put_err (fmt [''Error: socket() return invalid fd'', [LF]])) (ret (- 1))
     else bindp (sys (GetAddrInfo (Some ''httpstat.us'') ''80'' (inet_hints 0 SOCK_STREAM 0))) (\<lambda>r.
     if a_ret r \<noteq> 0 then thenp (put_err (fmt [''Error: getaddrinfo() failed'', [LF]])) (ret (- 1))
     else bindp (getp Null_Deref (case a_infos r of [] \<Rightarrow> None | p # _ \<Rightarrow> Some p)) (\<lambda>res.
     thenp (sys (FreeAddrInfo (a_ptr r)))
     (bindp (sys (Connect (a_ret s) (ai_addr res) 16)) (\<lambda>c.
      if a_ret c \<noteq> 0 then thenp (put_err (fmt [''Error: connect() failed'', [LF]])) (ret (- 1))
      else thenp (sys (Close (a_ret s))) (ret 0)))))))"

section \<open>What they do\<close>

lemma head_of_infos:
  assumes "lawful os" and "answers os h (GetAddrInfo n s i) r" and "a_ret r = 0"
  obtains p ps where "a_infos r = p # ps"
  using fresh_info [OF assms] by (cases "a_infos r") auto

lemma wp_web_socket:
  assumes law: "lawful os" and post: "\<And>i f h'. disciplined h' \<Longrightarrow> Info i \<in> live h' \<Longrightarrow> usable f (live h') \<Longrightarrow> Q (i, f) h'"
  shows "wp web_socket Q clean_stop os []"
  unfolding web_socket_def wp_bindp [of "sys c" for c] wp_sys
proof (intro allI impI, goal_cases)
  case (1 r)
  show ?case
  proof (cases "a_ret r = 0")
    case True
    then obtain p ps where "a_infos r = p # ps" by (rule head_of_infos [OF law 1])
    with True show ?thesis by (auto simp: wp_simps res_simps usable_def intro!: post)
  qed (simp add: wp_simps res_simps)
qed

lemma wp_bound_disciplined:
  assumes law: "lawful os"
    and "\<And>f h'. disciplined h' \<Longrightarrow> usable f (live h') \<Longrightarrow> wp (g f) (\<lambda>_. disciplined) E os h'"
    and "\<And>e h'. clean_stop e h' \<Longrightarrow> E e h'"
  shows "wp (bindp (bound_socket t a p) g) (\<lambda>_. disciplined) E os []"
  unfolding wp_bindp
  by (rule wp_mono [OF wp_bound_socket [OF law, where Q = "\<lambda>f h. disciplined h \<and> usable f (live h)"]])
    (auto simp: polite_def polite_stop_def intro: assms)

lemma quiet_show_addresses: "disciplined h \<Longrightarrow> quiet (show_addresses ps) os h"
proof (induction ps arbitrary: h)
  case (Cons p ps)
  then show ?case by (auto simp: quiet_def wp_simps res_simps Let_def)
qed (simp add: quiet_def wp_simps)

text \<open>Every name the programs ask for is a known protocol.\<close>

definition protocols_known :: "os \<Rightarrow> bool" where
  "protocols_known os \<longleftrightarrow> (\<forall>h n. a_ptr (os h (GetProtoByName n)) \<noteq> 0)"

lemma wp_connect_example:
  assumes law: "lawful os"
  shows "wp connect_example (\<lambda>_. disciplined) clean_stop os []"
  unfolding connect_example_def wp_bindp [of "connected_socket a p" for a p]
proof (rule wp_connected_socket [OF law], goal_cases)
  case (2 i f h)
  then show ?case by (auto simp: wp_simps calm_def usable_def res_simps)
qed simp

text \<open>The listening example stops cleanly, or behind a read that filled the buffer.\<close>

definition listen_stop :: "stop \<Rightarrow> log \<Rightarrow> bool" where
  "listen_stop e h \<longleftrightarrow> disciplined h \<and> (clean_stop e h \<or> e = Fault Out_Of_Bounds \<and>
     (\<exists>s x f a h'. h = (Out s, x) # (Recv f 1024 0, a) # h' \<and> a_ret a = 1024))"

lemma listen_stop_simps [simp]:
  "listen_stop (Exit c) h \<longleftrightarrow> disciplined h" "listen_stop Unfinished h \<longleftrightarrow> disciplined h"
  by (auto simp: listen_stop_def)

lemma wp_listen_read:
  assumes law: "lawful os" and f: "usable f (live h)" and d: "disciplined h"
  shows "wp (listen_read f u) (\<lambda>_ h'. live h' = live h \<and> disciplined h') listen_stop os h"
  unfolding listen_read_def wp_bindp [of "sys c" for c] wp_sys
proof (intro allI impI, goal_cases)
  case (1 a)
  note l = recv_law [OF law 1, simplified]
  consider "a_ret a \<le> 0" | "0 < a_ret a" "a_ret a < 1024" | "a_ret a = 1024" using l by linarith
  then show ?case
  proof cases
    case 1
    then show ?thesis using f d by (auto simp: wp_simps res_simps usable_def)
  next
    case 2
    then have len: "length (a_buf a) < 1024" "length (a_buf a) = nat (a_ret a)" using l by auto
    with 2 f d poke_received [OF len(1)] show ?thesis
      by (auto simp: wp_simps Let_def res_simps usable_def)
  next
    case 3
    then have "length (a_buf a) = 1024" using l by simp
    with 3 f d show ?thesis
      by (auto simp: wp_simps Let_def res_simps usable_def listen_stop_def)
  qed
qed

lemma wp_listen_example:
  assumes law: "lawful os"
  shows "wp (listen_example n) (\<lambda>_. disciplined) listen_stop os []"
proof -
  have session: "wp (loop n (listen_read f) ()) (\<lambda>_ h'. live h' = live h \<and> disciplined h') listen_stop os h"
    if "usable f (live h)" "disciplined h" for f h
  proof (rule wp_loop [where I = "\<lambda>_ h'. live h' = live h \<and> disciplined h'"], goal_cases)
    case (1 u h')
    then show ?case using that by (intro wp_mono [OF wp_listen_read [OF law]]) (auto split: iter.splits)
  qed (use that in auto)
  have whole: "wp (thenp (loop n (listen_read f) ()) (thenp (sys (Close f)) (thenp (sys (Close s)) (ret (0 :: int))))) (\<lambda>_. disciplined) listen_stop os h"
    if "usable f (live h)" "usable s (live h)" "disciplined h" "0 \<le> f \<longrightarrow> 0 \<le> s \<longrightarrow> f \<noteq> s" for f s h
    unfolding wp_thenp [of "loop n b u" for b u]
    by (rule wp_mono [OF session [OF that(1,3)]]) (use that in \<open>auto simp: wp_simps usable_def res_simps\<close>)
  have "wp (bindp (sys (Accept s)) (\<lambda>c. if a_ret c = - 1 then die ''accept''
     else thenp (loop n (listen_read (a_ret c)) ()) (thenp (sys (Close (a_ret c))) (thenp (sys (Close s)) (ret (0 :: int))))))
     (\<lambda>_. disciplined) listen_stop os h" if "disciplined h" "usable s (live h)" for s h
    unfolding wp_bindp [of "sys c" for c] wp_sys
  proof (intro allI impI, goal_cases)
    case (1 c)
    have "wp (thenp (loop n (listen_read (a_ret c)) ()) (thenp (sys (Close (a_ret c))) (thenp (sys (Close s)) (ret (0 :: int)))))
        (\<lambda>_. disciplined) listen_stop os ((Accept s, c) # h)"
      by (rule whole) (use that fresh_accept [OF law 1] in \<open>auto simp: usable_def res_simps\<close>)
    with that show ?case by (simp add: wp_die res_simps usable_def)
  qed
  note accept = this
  show ?thesis unfolding listen_example_def
  proof (rule wp_bound_disciplined [OF law], goal_cases)
    case (1 f h)
    have l: "disciplined ((Listen f 50, l) # h)" "usable f (live ((Listen f 50, l) # h))" for l
      using 1 by (simp_all add: usable_def res_simps)
    then show ?case unfolding wp_bindp [of "sys (Listen s k)" for s k] wp_sys
      by (auto simp: wp_die res_simps simp del: live.simps intro!: accept)
  qed (simp add: listen_stop_def clean_stop_def)
qed

lemma wp_simple_examples:
  assumes law: "lawful os"
  shows "wp bind_example (\<lambda>_. disciplined) clean_stop os []" "wp create_example (\<lambda>_. disciplined) clean_stop os []"
    "wp options_example (\<lambda>_. disciplined) clean_stop os []" "wp byte_order_example (\<lambda>_. disciplined) clean_stop os []"
    "wp proto_example (\<lambda>_. disciplined) clean_stop os []" "wp service_example (\<lambda>_. disciplined) clean_stop os []"
proof -
  show "wp bind_example (\<lambda>_. disciplined) clean_stop os []"
    unfolding bind_example_def by (rule wp_bound_disciplined [OF law]) (auto simp: wp_simps res_simps usable_def)
  show "wp create_example (\<lambda>_. disciplined) clean_stop os []"
    unfolding create_example_def wp_bindp by (rule wp_web_socket [OF law]) (simp add: wp_simps res_simps)
  show "wp options_example (\<lambda>_. disciplined) clean_stop os []"
    unfolding options_example_def wp_bindp by (rule wp_web_socket [OF law]) (auto simp: wp_simps res_simps usable_def)
qed (simp_all add: byte_order_example_def proto_example_def service_example_def Let_def wp_simps res_simps del: hex_nat.simps)

lemma wp_addr_info_example:
  assumes law: "lawful os"
  shows "wp (addr_info_example err) (\<lambda>_. disciplined) clean_stop os []"
  unfolding addr_info_example_def wp_bindp [of "sys c" for c] wp_sys
proof (intro allI impI, goal_cases)
  case (1 r)
  show ?case
  proof (cases "a_ret r = 0")
    case True
    let ?h = "[(GetAddrInfo None ''3490'' (zero_addrinfo\<lparr>ai_family := 0, ai_socktype := 1, ai_flags := 1\<rparr>), r)]"
    have "wp (show_addresses ps) (\<lambda>_ h'. \<forall>a. disciplined ((FreeAddrInfo (a_ptr r), a) # h')) clean_stop os ?h" for ps
      by (rule quietD [OF quiet_show_addresses]) (use True in \<open>auto simp: res_simps\<close>)
    note shown = this
    from True show ?thesis
      by (simp add: wp_thenp [of "show_addresses ps" for ps] wp_thenp [of "sys c" for c] wp_sys wp_ret del: disciplined.simps live.simps)
        (rule wp_mono [OF shown], auto)
  qed (simp add: wp_simps res_simps)
qed

text \<open>The first steps need the protocol to be known.\<close>

lemma wp_first_steps:
  assumes law: "lawful os" and tcp: "protocols_known os"
  shows "wp hello_main (\<lambda>_. disciplined) clean_stop os []" "wp create_main (\<lambda>_. disciplined) clean_stop os []"
    "wp connect_main (\<lambda>_. disciplined) clean_stop os []"
proof -
  have number: "wp tcp_number Q E os []" if "\<And>n h. live h = {Fd 0, Fd 1, Fd 2} \<Longrightarrow> disciplined h \<Longrightarrow> Q n h" for Q E
    using tcp by (auto simp: tcp_number_def wp_simps protocols_known_def answers_def res_simps intro!: that)
  show "wp hello_main (\<lambda>_. disciplined) clean_stop os []"
    unfolding hello_main_def wp_bindp by (rule number) (simp add: wp_simps res_simps)
  show "wp create_main (\<lambda>_. disciplined) clean_stop os []"
    unfolding create_main_def wp_bindp by (rule number) (auto simp: wp_simps res_simps)
  show "wp connect_main (\<lambda>_. disciplined) clean_stop os []"
    unfolding connect_main_def wp_bindp [of tcp_number]
  proof (rule number, goal_cases)
    case (1 p h)
    show ?case unfolding wp_bindp [of "sys (Socket a b c)" for a b c] wp_sys
    proof (intro allI impI, goal_cases)
      case s: (1 s)
      show ?case
      proof (cases "a_ret s < 0")
        case False
        let ?h = "(Socket 2 1 p, s) # h" and ?g = "GetAddrInfo (Some ''httpstat.us'') ''80'' (inet_hints 0 1 0)"
        let ?rest = "\<lambda>r. if a_ret r \<noteq> 0 then thenp (put_err (fmt [''Error: getaddrinfo() failed'', [LF]])) (ret (- 1))
          else bindp (getp Null_Deref (case a_infos r of [] \<Rightarrow> None | p # _ \<Rightarrow> Some p)) (\<lambda>res.
            thenp (sys (FreeAddrInfo (a_ptr r))) (bindp (sys (Connect (a_ret s) (ai_addr res) 16)) (\<lambda>c.
              if a_ret c \<noteq> 0 then thenp (put_err (fmt [''Error: connect() failed'', [LF]])) (ret (- 1))
              else thenp (sys (Close (a_ret s))) (ret (0 :: int)))))"
        have rest: "wp (?rest r) (\<lambda>_. disciplined) clean_stop os ((?g, r) # ?h)" if r: "answers os ?h ?g r" for r
        proof (cases "a_ret r = 0")
          case True
          then obtain q qs where "a_infos r = q # qs" by (rule head_of_infos [OF law r])
          with True 1 False show ?thesis by (auto simp: wp_simps res_simps)
        qed (use 1 False in \<open>auto simp: wp_simps res_simps\<close>)
        have "wp (bindp (sys ?g) ?rest) (\<lambda>_. disciplined) clean_stop os ?h"
          unfolding wp_bindp [of "sys ?g"] wp_sys using rest by blast
        with False show ?thesis by simp
      qed (use 1 in \<open>simp add: wp_simps res_simps\<close>)
    qed
  qed
qed

section \<open>Properties\<close>

text \<open>
  C30: The small programs never use or close a descriptor that is not open, never free an
  address list twice and have no undefined behaviour, in every environment that behaves as
  documented and knows the protocols they ask for. The one exception is the listening
  example: a message of 1024 bytes makes it write the NUL behind its buffer.
\<close>

theorem api_examples_ok:
  assumes "lawful os" and "protocols_known os"
  shows "list_all (\<lambda>m. safe_run (m os [])) [bind_example, connect_example, create_example, options_example,
      byte_order_example, addr_info_example gai_strerror, proto_example, service_example, hello_main, create_main, connect_main]
    \<and> (case listen_example n os [] of (Done r, h) \<Rightarrow> disciplined h | (Stop e, h) \<Rightarrow> listen_stop e h)"
  using wp_simple_examples [OF assms(1)] wp_connect_example [OF assms(1)] wp_addr_info_example [OF assms(1)]
    wp_first_steps [OF assms] wp_listen_example [OF assms(1), of n]
  by (auto simp: wp_def [of "listen_example n"] intro!: safe_runI split: prod.splits outcome.splits)

theorem api_examples_ok_witness:
  "list_all (\<lambda>m. safe_run (m (sim_os [''quit'']) [])) [bind_example, connect_example, create_example, options_example,
      byte_order_example, addr_info_example (\<lambda>e. ''failed''), proto_example, service_example, hello_main, create_main, connect_main]
    \<and> (case listen_example 3 (sim_os [''quit'']) [] of (Done r, h) \<Rightarrow> disciplined h | (Stop e, h) \<Rightarrow> listen_stop e h)"
  by (rule api_examples_ok [OF lawful_sim_os]) (simp add: protocols_known_def sim_os_def)

end
