(* ===== verification/Name_Lookup.thy ===== *)
theory Name_Lookup
  imports Tcp_Setup
begin

text \<open>
  The look-ups of \<open>00_tutorials\<close>: \<open>02_resolve_hostname.c\<close>, which prints what \<open>gethostbyname\<close> and
  \<open>getaddrinfo\<close> know of a host, and \<open>03_resolve_port_number.c\<close>, which prints a service. The
  dotted notation of an address is written out, since it decides whether the buffer of
  \<open>INET_ADDRSTRLEN\<close> bytes is large enough, and whether two addresses can be told apart by it.
\<close>

section \<open>Dotted notation\<close>

text \<open>\<open>inet_ntoa\<close>: the four bytes as they are in memory, the least significant one of the
  number first, on the little-endian hosts the programs are built for.\<close>

definition octet :: "nat \<Rightarrow> 32 word \<Rightarrow> nat" where
  "octet k w = unat (drop_bit (8 * k) w) mod 256"

definition inet_ntoa :: "32 word \<Rightarrow> bytes" where
  "inet_ntoa w = concat [dec_nat (octet 0 w), ''.'', dec_nat (octet 1 w), ''.'',
     dec_nat (octet 2 w), ''.'', dec_nat (octet 3 w)]"

text \<open>\<open>inet_ntop(AF_INET, addr, ip_str, sizeof(ip_str))\<close>, the address being kept as its text: where
  text and NUL do not fit it fails, and \<open>ip_str\<close> stays as it was.\<close>

definition INET_ADDRSTRLEN :: nat where
  "INET_ADDRSTRLEN = 16"

definition inet_ntop4 :: "bytes \<Rightarrow> bytes option" where
  "inet_ntop4 text = (if length text < INET_ADDRSTRLEN then Some text else None)"

section \<open>The programs\<close>

text \<open>The loops over the two arrays that end with NULL\<close>

fun print_aliases :: "nat \<Rightarrow> bytes list \<Rightarrow> unit prog" where
  "print_aliases i [] = ret ()"
| "print_aliases i (alias # rest) =
     thenp (put_out (fmt [''Alias name '', dec (int i), '': '', alias, [LF]])) (print_aliases (i + 1) rest)"

fun print_addresses :: "nat \<Rightarrow> int list \<Rightarrow> unit prog" where
  "print_addresses i [] = ret ()"
| "print_addresses i (addr # rest) =
     thenp (put_out (fmt [''IP address '', dec (int i), '': '', inet_ntoa (word_of_int addr), [LF]]))
       (print_addresses (i + 1) rest)"

definition CPP_HOSTNAME :: bytes where
  "CPP_HOSTNAME = ''httpstat.us''"

definition print_server_address :: "sockaddr \<Rightarrow> unit prog" where
  "print_server_address server_address = bindp (getp Uninitialised (inet_ntop4 (sin_addr server_address))) (\<lambda>ip_str.
     thenp (put_out (fmt [''IP address: '', ip_str, [LF]]))
       (put_out (fmt [''Port: '', dec (uint (ntohs (sin_port server_address))), [LF]])))"

definition resolve_main :: "int prog" where
  "resolve_main = bindp (sys (GetHostByName CPP_HOSTNAME)) (\<lambda>host_info.
     if a_ptr host_info = 0
     then thenp (put_err (fmt [''Error: Could not resolve hostname '', CPP_HOSTNAME, [LF]])) (ret (- 1))
     else thenp (put_out (fmt [''Official name: '', a_buf host_info, [LF]]))
       (thenp (print_aliases 0 (a_names host_info))
       (thenp (print_addresses 0 (a_flags host_info))
       (bindp (sys (GetAddrInfo (Some CPP_HOSTNAME) ''80'' (zero_addrinfo\<lparr>ai_family := AF_INET, ai_socktype := SOCK_STREAM\<rparr>))) (\<lambda>r.
        if a_ret r \<noteq> 0 then thenp (put_err ''Error: getaddrinfo failed'') (ret (- 1))
        else bindp (getp Null_Deref (case a_infos r of [] \<Rightarrow> None | p # _ \<Rightarrow> Some p)) (\<lambda>res.
          thenp (print_server_address (ai_addr res)) (thenp (sys (FreeAddrInfo (a_ptr r))) (ret 0))))))))"

text \<open>\<open>getservbyname("http", getprotobyname("tcp")->p_name)\<close>: the protocol is not checked.\<close>

definition port_main :: "int prog" where
  "port_main = bindp (sys (GetProtoByName ''tcp'')) (\<lambda>proto.
     thenp (guardp Null_Deref (a_ptr proto \<noteq> 0))
     (bindp (sys (GetServByName ''http'' (a_buf proto))) (\<lambda>service_info.
      if a_ptr service_info = 0
      then thenp (put_err (fmt [''Error: Can not resolve service http'', [LF]])) (ret (- 1))
      else thenp (put_out (fmt [''Service name: '', a_buf service_info, [LF]]))
        (thenp (put_out (fmt [''Port number: '', dec (uint (ntohs (word_of_int (a_ret service_info)))), [LF]]))
        (bindp (getp Null_Deref (case a_names service_info of [] \<Rightarrow> None | s_proto # _ \<Rightarrow> Some s_proto)) (\<lambda>s_proto.
         thenp (put_out (fmt [''Protocol: '', s_proto, [LF]])) (ret 0)))))))"

section \<open>Bounds and uniqueness of the notation\<close>

lemma dec_nat_octet: "n < 256 \<Longrightarrow> 1 \<le> length (dec_nat n) \<and> length (dec_nat n) \<le> 3"
  using dec_nat_length [of n 3] by (subst (1) dec_nat.simps) simp

lemma inet_ntoa_length: "7 \<le> length (inet_ntoa w) \<and> length (inet_ntoa w) \<le> 15"
proof -
  have "1 \<le> length (dec_nat (octet k w)) \<and> length (dec_nat (octet k w)) \<le> 3" for k
    by (rule dec_nat_octet) (simp add: octet_def)
  from this [of 0] this [of 1] this [of 2] this [of 3] show ?thesis by (simp add: inet_ntoa_def)
qed

lemma no_dot: "CHR ''.'' \<notin> set (dec_nat n)"
proof
  assume "CHR ''.'' \<in> set (dec_nat n)"
  then obtain d where "d < 10" "CHR ''.'' = digit d" using dec_nat_digits by blast
  then have "(of_char CHR ''.'' :: nat) = 48 + d" by (simp add: digit_code)
  then show False by simp
qed

lemma dotted_cancel:
  "CHR ''.'' \<notin> set x \<Longrightarrow> CHR ''.'' \<notin> set y \<Longrightarrow> x @ CHR ''.'' # s = y @ CHR ''.'' # t \<longleftrightarrow> x = y \<and> s = t"
proof (induction x arbitrary: y)
  case Nil
  then show ?case by (cases y) auto
next
  case (Cons c x)
  then show ?case by (cases y) auto
qed

lemma dec_nat_inj: "dec_nat m = dec_nat n \<longleftrightarrow> m = n"
  by (metis undec_nat_dec_nat)

text \<open>The four bytes make the number.\<close>

lemma octets_eq: "unat w = octet 0 w + 256 * octet 1 w + 65536 * octet 2 w + 16777216 * octet 3 w"
proof -
  define n where "n = unat w"
  have "n < 4294967296" using unsigned_less [of w, where 'a = nat] by (simp add: n_def)
  then have top: "n div 16777216 mod 256 = n div 16777216" by simp
  have split: "k mod 256 + 256 * (k div 256) = k" for k :: nat by simp
  have "n div 65536 = n div 256 div 256" "n div 16777216 = n div 65536 div 256" by (simp_all add: div_mult2_eq [symmetric])
  with split [of n] split [of "n div 256"] split [of "n div 65536"] top
  have "n = n mod 256 + 256 * (n div 256 mod 256) + 65536 * (n div 65536 mod 256) + 16777216 * (n div 16777216 mod 256)"
    by linarith
  moreover have "octet k w = n div 2 ^ (8 * k) mod 256" for k
    by (simp add: octet_def n_def unat_drop_bit_eq drop_bit_eq_div [where 'a = nat])
  ultimately show ?thesis unfolding n_def [symmetric] using top by simp
qed

lemma inet_ntoa_inj: "inet_ntoa v = inet_ntoa w \<longleftrightarrow> v = w"
proof
  assume "inet_ntoa v = inet_ntoa w"
  then have "octet 0 v = octet 0 w" "octet 1 v = octet 1 w" "octet 2 v = octet 2 w" "octet 3 v = octet 3 w"
    by (simp_all add: inet_ntoa_def dotted_cancel no_dot dec_nat_inj)
  then have "unat v = unat w" by (simp add: octets_eq)
  then show "v = w" by (rule unsigned_word_eqI)
qed simp

text \<open>
  The dotted notation of every address, with its NUL, fits the buffer of \<open>INET_ADDRSTRLEN\<close>
  bytes, so that \<open>inet_ntop\<close> succeeds on it; and two addresses that are printed alike are the
  same, whatever the leading digits of their bytes.
\<close>

theorem address_text_fits:
  "7 \<le> length (inet_ntoa v) \<and> inet_ntop4 (inet_ntoa v) = Some (inet_ntoa v)
    \<and> (inet_ntoa v = inet_ntoa w \<longleftrightarrow> v = w)"
  using inet_ntoa_length [of v] by (simp_all add: inet_ntop4_def INET_ADDRSTRLEN_def inet_ntoa_inj)

section \<open>The programs are safe\<close>

text \<open>What the resolver promises: an IPv4 address is four bytes; a known service has a protocol.\<close>

definition netdb_ok :: "os \<Rightarrow> bool" where
  "netdb_ok os \<longleftrightarrow>
     (\<forall>h n s i p. a_ret (os h (GetAddrInfo n s i)) = 0 \<longrightarrow> ai_family i = AF_INET \<longrightarrow>
        p \<in> set (a_infos (os h (GetAddrInfo n s i))) \<longrightarrow> (\<exists>w. sin_addr (ai_addr p) = inet_ntoa w))
   \<and> (\<forall>h n s. a_ptr (os h (GetServByName n s)) \<noteq> 0 \<longrightarrow> a_names (os h (GetServByName n s)) \<noteq> [])"

lemma quiet_print_aliases: "disciplined h \<Longrightarrow> quiet (print_aliases i xs) os h"
  by (induction xs arbitrary: i h) (auto intro!: quiet_thenp quiet_put_out simp: quiet_ret)

lemma quiet_print_addresses: "disciplined h \<Longrightarrow> quiet (print_addresses i xs) os h"
  by (induction xs arbitrary: i h) (auto intro!: quiet_thenp quiet_put_out simp: quiet_ret)

lemma quiet_print_server_address:
  "sin_addr sa = inet_ntoa w \<Longrightarrow> disciplined h \<Longrightarrow> quiet (print_server_address sa) os h"
  using inet_ntoa_length [of w]
  by (simp add: print_server_address_def inet_ntop4_def INET_ADDRSTRLEN_def getp_def quiet_thenp quiet_put_out)

text \<open>The second half of \<open>resolve_main\<close>: the address list is given back.\<close>

lemma quiet_address_of_host:
  assumes law: "lawful os" and net: "netdb_ok os" and d: "disciplined h"
  shows "quiet (bindp (sys (GetAddrInfo (Some CPP_HOSTNAME) ''80'' (zero_addrinfo\<lparr>ai_family := AF_INET, ai_socktype := SOCK_STREAM\<rparr>))) (\<lambda>r.
        if a_ret r \<noteq> 0 then thenp (put_err ''Error: getaddrinfo failed'') (ret (- 1))
        else bindp (getp Null_Deref (case a_infos r of [] \<Rightarrow> None | p # _ \<Rightarrow> Some p)) (\<lambda>res.
          thenp (print_server_address (ai_addr res)) (thenp (sys (FreeAddrInfo (a_ptr r))) (ret (0 :: int)))))) os h"
  unfolding quiet_def wp_bindp [of "sys c" for c] wp_sys
proof (intro allI impI, goal_cases)
  case (1 Q E r)
  let ?i = "zero_addrinfo\<lparr>ai_family := AF_INET, ai_socktype := SOCK_STREAM\<rparr>"
  let ?h = "(GetAddrInfo (Some CPP_HOSTNAME) ''80'' ?i, r) # h"
  note post = 1(1) [rule_format]
  show ?case
  proof (cases "a_ret r = 0")
    case False
    then have "live ?h = live h" "disciplined ?h" using d by (simp_all add: res_simps)
    with False post show ?thesis by (auto simp: wp_simps res_simps)
  next
    case True
    with fresh_info [OF law 1(2)] obtain p ps where p: "Info (a_ptr r) \<notin> live h" "a_infos r = p # ps"
      by (auto simp: neq_Nil_conv)
    have "\<exists>w. sin_addr (ai_addr p) = inet_ntoa w"
      using net [unfolded netdb_ok_def, THEN conjunct1, rule_format, of h "Some CPP_HOSTNAME" "''80''" ?i p]
        1(2) True p(2) by (simp add: answers_def)
    then obtain w where w: "sin_addr (ai_addr p) = inet_ntoa w" ..
    have "live ?h = insert (Info (a_ptr r)) (live h)" "disciplined ?h" using True d by (simp_all add: res_simps)
    then have "wp (thenp (print_server_address (ai_addr p)) (thenp (sys (FreeAddrInfo (a_ptr r))) (ret 0))) Q E os ?h"
      unfolding wp_thenp wp_sys wp_ret
    proof (intro quietD [OF quiet_print_server_address [OF w]] allI impI post, goal_cases)
      case (2 u h' a)
      with p(1) show ?case by (simp add: releases_def acquires_def)
    qed (simp_all add: needs_def)
    with True p show ?thesis by (simp add: wp_bindp wp_getp)
  qed
qed

lemma quiet_resolve_main:
  assumes "lawful os" and "netdb_ok os" and "disciplined h"
  shows "quiet resolve_main os h"
  unfolding resolve_main_def
  by (intro quiet_rules quiet_sys quiet_print_aliases quiet_print_addresses quiet_address_of_host)
    (use assms in \<open>simp_all add: res_simps\<close>)

definition knows_tcp :: "os \<Rightarrow> bool" where
  "knows_tcp os \<longleftrightarrow> (\<forall>h. a_ptr (os h (GetProtoByName ''tcp'')) \<noteq> 0)"

lemma quiet_port_main:
  assumes "netdb_ok os" and "knows_tcp os" and "disciplined h"
  shows "quiet port_main os h"
  using assms
  by (auto simp: quiet_def port_main_def wp_simps res_simps netdb_ok_def knows_tcp_def answers_def split: list.split)

text \<open>
  C31: The two look-ups always return, with every address list given back and no undefined
  behaviour, if the resolver keeps its promises and the protocol \<open>tcp\<close> is known.
\<close>

theorem lookups_return:
  assumes "lawful os" and "netdb_ok os" and "knows_tcp os" and "m \<in> {resolve_main, port_main}"
  shows "\<exists>r h. m os [] = (Done r, h) \<and> live h = live [] \<and> disciplined h"
proof -
  have "quiet m os []"
    using assms quiet_resolve_main [of os "[]"] quiet_port_main [of os "[]"] by auto
  then have "wp m (\<lambda>r h. live h = live [] \<and> disciplined h) (\<lambda>s h. False) os []"
    by (rule quietD) simp
  then show ?thesis by (auto simp: wp_def split: prod.splits outcome.splits)
qed

text \<open>A host that has an address and an alias, in an environment that grants everything\<close>

definition netdb_os :: os where
  "netdb_os h c = (case c of
      GetHostByName n \<Rightarrow> (plain 0)\<lparr>a_ptr := 1, a_buf := n, a_names := [''alias''], a_flags := [16777343]\<rparr>
    | GetServByName n s \<Rightarrow> (plain 20480)\<lparr>a_ptr := 1, a_buf := n, a_names := [s]\<rparr>
    | GetAddrInfo n s i \<Rightarrow> (plain 0)\<lparr>a_ptr := next_val h, a_infos :=
        [zero_addrinfo\<lparr>ai_addr := zero_sockaddr\<lparr>sin_addr := inet_ntoa 16777343\<rparr>\<rparr>]\<rparr>
    | _ \<Rightarrow> sim_os [] h c)"

lemma netdb_os_ok: "lawful netdb_os" "netdb_ok netdb_os" "knows_tcp netdb_os"
proof -
  have "answer_ok h c (netdb_os h c)" if "case c of Fgets n \<Rightarrow> 0 < n | _ \<Rightarrow> True" for h c
    using that lawful_sim_os [of "[]", unfolded lawful_def, rule_format, of c h] next_val_fresh [of h]
    by (cases c) (auto simp: netdb_os_def answer_ok_def acquires_def releases_def)
  then show "lawful netdb_os" by (simp add: lawful_def)
  show "netdb_ok netdb_os"
    unfolding netdb_ok_def by (auto simp: netdb_os_def intro: exI [of _ 16777343])
  show "knows_tcp netdb_os" by (simp add: knows_tcp_def netdb_os_def sim_os_def)
qed

theorem lookups_return_witness:
  "\<exists>r h. resolve_main netdb_os [] = (Done r, h) \<and> live h = live [] \<and> disciplined h"
  by (rule lookups_return [OF netdb_os_ok]) simp

text \<open>The number of \<open>127.0.0.1\<close> on a little-endian host\<close>

lemma loopback_text: "inet_ntoa 16777343 = ''127.0.0.1''"
  by (simp add: inet_ntoa_def octet_def drop_bit_eq_div digit_def dec_nat.simps, code_simp)

text \<open>Where the protocol is not known, \<open>getprotobyname\<close> returns NULL, and its \<open>p_name\<close> is read.\<close>

theorem unknown_protocol_crashes:
  "a_ptr (os [] (GetProtoByName ''tcp'')) = 0 \<Longrightarrow> outcome_of port_main os = Stop (Fault Null_Deref)"
  by (simp add: outcome_of_def port_main_def prog_defs Let_def)

end
