(* ===== verification/Interleave.thy ===== *)
theory Interleave
  imports Posix
begin

text \<open>
  Programs whose calls can be interleaved. A process is the next call with what follows each
  answer, so that it can be stopped between any two calls; \<open>run_proc\<close> runs it without
  interruption and makes it a program. A system is a main process with the threads it has
  started. A step lets any one of them make its next call; a thread is born where main
  creates it, and main waits where it joins one.

  The lemma that carries everything to the threads is \<open>thread_replay\<close>: in every reachable
  state, what a thread has done so far is a run of its own process with some answers. So an
  invariant of all runs of one process (\<open>holds\<close>) is an invariant of every thread in every
  interleaving.
\<close>

section \<open>Processes\<close>

datatype (plugins only: code) 'a process = Return 'a | Stopped stop | Do call "answer \<Rightarrow> 'a process"

primrec pbind :: "'a process \<Rightarrow> ('a \<Rightarrow> 'b process) \<Rightarrow> 'b process" where
  "pbind (Return a) f = f a"
| "pbind (Stopped s) f = Stopped s"
| "pbind (Do c k) f = Do c (\<lambda>a. pbind (k a) f)"

definition pthen :: "'a process \<Rightarrow> 'b process \<Rightarrow> 'b process" where
  "pthen m n = pbind m (\<lambda>_. n)"

definition call_of :: "call \<Rightarrow> answer process" where
  "call_of c = Do c Return"

primrec ploop :: "nat \<Rightarrow> ('s \<Rightarrow> ('s, 'b) iter process) \<Rightarrow> 's \<Rightarrow> 'b process" where
  "ploop 0 body s = Stopped Unfinished"
| "ploop (Suc n) body s =
     pbind (body s) (\<lambda>r. case r of Again s' \<Rightarrow> ploop n body s' | Leave b \<Rightarrow> Return b)"

primrec run_proc :: "'a process \<Rightarrow> 'a prog" where
  "run_proc (Return a) = ret a"
| "run_proc (Stopped s) = halt s"
| "run_proc (Do c k) = bindp (sys c) (\<lambda>a. run_proc (k a))"

lemma run_pbind: "run_proc (pbind m f) = bindp (run_proc m) (\<lambda>a. run_proc (f a))"
  by (induction m) (simp_all add: bindp_assoc)

lemma run_pthen: "run_proc (pthen m n) = thenp (run_proc m) (run_proc n)"
  by (simp add: pthen_def run_pbind thenp_def)

lemma run_call_of: "run_proc (call_of c) = sys c"
  by (rule ext)+ (simp add: call_of_def bindp_def sys_def ret_def Let_def)

lemma pbind_simps [simp]:
  "pbind (call_of c) f = Do c f" "pthen (call_of c) n = Do c (\<lambda>_. n)" "pthen (Return a) n = n"
  "pthen (Do c k) n = Do c (\<lambda>a. pthen (k a) n)"
  by (simp_all add: call_of_def pthen_def)

section \<open>Invariants of all runs\<close>

text \<open>
  \<open>holds L I E m Q h\<close>: from the history \<open>h\<close> on, whatever answers that satisfy the law \<open>L\<close> the
  process gets, its history satisfies \<open>I\<close> at every moment, \<open>Q\<close> holds when it returns, and where
  it stops the reason and the history satisfy \<open>E\<close>.
\<close>

type_synonym law = "log \<Rightarrow> call \<Rightarrow> answer \<Rightarrow> bool"

primrec holds :: "law \<Rightarrow> (log \<Rightarrow> bool) \<Rightarrow> (stop \<Rightarrow> log \<Rightarrow> bool) \<Rightarrow> 'a process \<Rightarrow> ('a \<Rightarrow> log \<Rightarrow> bool) \<Rightarrow> log \<Rightarrow> bool" where
  "holds L I E (Return a) = (\<lambda>Q h. I h \<and> Q a h)"
| "holds L I E (Stopped s) = (\<lambda>Q h. I h \<and> E s h)"
| "holds L I E (Do c k) = (\<lambda>Q h. I h \<and> (\<forall>a. L h c a \<longrightarrow> holds L I E (k a) Q ((c, a) # h)))"

lemma holds_now: "holds L I E m Q h \<Longrightarrow> I h"
  by (cases m) auto

lemma holds_mono:
  "holds L I E m Q h \<Longrightarrow> (\<And>a h'. I h' \<Longrightarrow> Q a h' \<Longrightarrow> Q' a h') \<Longrightarrow> holds L I E m Q' h"
  by (induction m arbitrary: h) auto

lemma holds_pbind: "holds L I E m (\<lambda>a h'. holds L I E (f a) Q h') h \<Longrightarrow> holds L I E (pbind m f) Q h"
  by (induction m arbitrary: h) auto

lemma holds_pthen: "holds L I E m (\<lambda>_ h'. holds L I E n Q h') h \<Longrightarrow> holds L I E (pthen m n) Q h"
  by (simp add: pthen_def holds_pbind)

lemma holds_ploop:
  assumes step: "\<And>s h. J s h \<Longrightarrow> I h \<Longrightarrow>
      holds L I E (body s) (\<lambda>r h'. case r of Again s' \<Rightarrow> J s' h' | Leave b \<Rightarrow> Q b h') h"
    and "J s h" and "I h" and running: "\<And>s h. J s h \<Longrightarrow> E Unfinished h"
  shows "holds L I E (ploop n body s) Q h"
  using assms(2,3)
proof (induction n arbitrary: s h)
  case (Suc n)
  show ?case unfolding ploop.simps
    by (rule holds_pbind, rule holds_mono [OF step [OF Suc.prems]]) (auto intro: Suc.IH split: iter.splits)
qed (simp add: running)

text \<open>The same with an invariant that knows how many rounds are left.\<close>

lemma holds_ploop_fuel:
  assumes step: "\<And>k s h. J (Suc k) s h \<Longrightarrow>
      holds L I E (body s) (\<lambda>r h'. case r of Again s' \<Rightarrow> J k s' h' | Leave b \<Rightarrow> Q b h') h"
    and running: "\<And>s h. J 0 s h \<Longrightarrow> I h \<and> E Unfinished h"
    and "J n s h"
  shows "holds L I E (ploop n body s) Q h"
  using assms(3)
proof (induction n arbitrary: s h)
  case (Suc n)
  show ?case unfolding ploop.simps
    by (rule holds_pbind, rule holds_mono [OF step [OF Suc.prems]]) (auto intro: Suc.IH split: iter.splits)
qed (use running in simp)

lemma wp_holds:
  assumes "\<And>h c. L h c (os h c)" and "holds L I E m Q h"
  shows "wp (run_proc m) (\<lambda>a h'. I h' \<and> Q a h') (\<lambda>s h'. I h' \<and> E s h') os h"
  using assms(2) by (induction m arbitrary: h) (auto simp: wp_simps answers_def assms(1))

section \<open>Replaying a history\<close>

fun replay :: "event list \<Rightarrow> 'a process \<Rightarrow> 'a process option" where
  "replay [] m = Some m"
| "replay ((c, a) # es) (Do c' k) = (if c = c' then replay es (k a) else None)"
| "replay (e # es) m = None"

lemma replay_append: "replay (es @ es') m = Option.bind (replay es m) (replay es')"
  by (induction es m rule: replay.induct) auto

lemma holds_replay:
  assumes "replay es m = Some m'" and "holds (\<lambda>_. L) I E m Q h" and "\<forall>(c, a) \<in> set es. L c a"
  shows "holds (\<lambda>_. L) I E m' Q (rev es @ h)"
  using assms by (induction es m arbitrary: h rule: replay.induct) (auto split: if_splits)

section \<open>Systems\<close>

text \<open>The history says whose call it was: 0 is main, \<open>i + 1\<close> the thread \<open>i\<close>. \<open>body\<close> is the
  thread function; the argument of \<open>StdThread\<close> is what it is given.\<close>

record 'a system =
  trace :: "(nat \<times> event) list"
  main_proc :: "'a process"
  threads :: "unit process list"

definition calls :: "'a system \<Rightarrow> log" where
  "calls s = map snd (trace s)"

definition events_of :: "nat \<Rightarrow> (nat \<times> event) list \<Rightarrow> log" where
  "events_of i tr = map snd (filter (\<lambda>(j, e). j = i) tr)"

text \<open>What the threads that were created have been given, the first one first.\<close>

fun created :: "log \<Rightarrow> bytes list" where
  "created [] = []"
| "created ((StdThread u, a) # h) = created h @ (if a_ret a = 0 then [u] else [])"
| "created (e # h) = created h"

definition returned :: "'a process \<Rightarrow> bool" where
  "returned m \<longleftrightarrow> (case m of Return _ \<Rightarrow> True | _ \<Rightarrow> False)"

definition waits :: "call \<Rightarrow> unit process list \<Rightarrow> bool" where
  "waits c ts \<longleftrightarrow> (case c of StdJoin j \<Rightarrow> \<not> (nat j < length ts \<and> returned (ts ! nat j)) | _ \<Rightarrow> False)"

definition spawned :: "(bytes \<Rightarrow> unit process) \<Rightarrow> call \<Rightarrow> answer \<Rightarrow> unit process list \<Rightarrow> unit process list" where
  "spawned body c a ts = (case c of StdThread u \<Rightarrow> if a_ret a = 0 then ts @ [body u] else ts | _ \<Rightarrow> ts)"

text \<open>The program goes on while main is before a call and no thread has stopped it; only a thread
  whose fuel is spent has not stopped anything.\<close>

definition alive :: "'a system \<Rightarrow> bool" where
  "alive s \<longleftrightarrow> (case main_proc s of Do _ _ \<Rightarrow> True | Stopped e \<Rightarrow> e = Unfinished | Return _ \<Rightarrow> False)
     \<and> list_all (\<lambda>t. case t of Stopped e \<Rightarrow> e = Unfinished | _ \<Rightarrow> True) (threads s)"

inductive sys_step :: "(bytes \<Rightarrow> unit process) \<Rightarrow> os \<Rightarrow> 'a system \<Rightarrow> 'a system \<Rightarrow> bool"
  for body os where
  main_step: "alive s \<Longrightarrow> main_proc s = Do c k \<Longrightarrow> \<not> waits c (threads s) \<Longrightarrow> a = os (calls s) c \<Longrightarrow>
     sys_step body os s \<lparr>trace = (0, c, a) # trace s, main_proc = k a, threads = spawned body c a (threads s)\<rparr>"
| thread_step: "alive s \<Longrightarrow> i < length (threads s) \<Longrightarrow> threads s ! i = Do c k \<Longrightarrow> a = os (calls s) c \<Longrightarrow>
     sys_step body os s \<lparr>trace = (Suc i, c, a) # trace s, main_proc = main_proc s, threads = (threads s)[i := k a]\<rparr>"

inductive reaches :: "(bytes \<Rightarrow> unit process) \<Rightarrow> os \<Rightarrow> 'a process \<Rightarrow> 'a system \<Rightarrow> bool"
  for body os m where
  start: "reaches body os m \<lparr>trace = [], main_proc = m, threads = []\<rparr>"
| onward: "reaches body os m s \<Longrightarrow> sys_step body os s s' \<Longrightarrow> reaches body os m s'"

inductive_cases sys_stepE: "sys_step body os s s'"

section \<open>A thread runs its process\<close>

lemma created_event: "created ((c, a) # h) = (case c of StdThread u \<Rightarrow> created h @ (if a_ret a = 0 then [u] else []) | _ \<Rightarrow> created h)"
  by (cases c) auto

lemma events_of_simps [simp]:
  "events_of i [] = []"
  "events_of i ((j, e) # tr) = (if j = i then e # events_of i tr else events_of i tr)"
  by (simp_all add: events_of_def)

lemma spawned_created:
  "length ts = length (created h) \<Longrightarrow>
   length (spawned body c a ts) = length (created ((c, a) # h))"
  by (cases c) (auto simp: spawned_def)

definition replays :: "(bytes \<Rightarrow> unit process) \<Rightarrow> 'a process \<Rightarrow> 'a system \<Rightarrow> bool" where
  "replays body m s \<longleftrightarrow> replay (rev (events_of 0 (trace s))) m = Some (main_proc s)
     \<and> length (threads s) = length (created (events_of 0 (trace s)))
     \<and> (\<forall>i < length (threads s).
          replay (rev (events_of (Suc i) (trace s))) (body (created (events_of 0 (trace s)) ! i)) = Some (threads s ! i))
     \<and> (\<forall>i \<ge> length (threads s). events_of (Suc i) (trace s) = [])"

lemma replays_step: "sys_step body os s s' \<Longrightarrow> replays body m s \<Longrightarrow> replays body m s'"
proof (induction rule: sys_step.induct)
  case (main_step s c k a)
  let ?ts = "spawned body c a (threads s)" and ?h = "events_of 0 (trace s)"
  have len: "length ?ts = length (created ((c, a) # ?h))"
    using main_step by (intro spawned_created) (simp add: replays_def)
  have "replay (rev (events_of (Suc i) (trace s))) (body (created ((c, a) # ?h) ! i)) = Some (?ts ! i)"
    if "i < length ?ts" for i
    using main_step that
    by (cases c) (auto simp: replays_def spawned_def nth_append less_Suc_eq split: if_splits)
  moreover have "length (threads s) \<le> length ?ts" by (auto simp: spawned_def split: call.split)
  ultimately show ?case using main_step len by (auto simp: replays_def replay_append)
next
  case (thread_step i s c k a)
  then show ?case by (auto simp: replays_def replay_append nth_list_update)
qed

lemma reaches_replays: "reaches body os m s \<Longrightarrow> replays body m s"
  by (induction rule: reaches.induct) (auto intro: replays_step simp: replays_def [of _ _ "\<lparr>trace = [], main_proc = _, threads = []\<rparr>"])

lemma thread_replay:
  assumes "reaches body os m s" and "i < length (threads s)"
  shows "replay (rev (events_of (Suc i) (trace s))) (body (created (events_of 0 (trace s)) ! i)) = Some (threads s ! i)"
  using reaches_replays [OF assms(1)] assms(2) by (simp add: replays_def)

text \<open>Every answer of a reachable history is one of the environment.\<close>

lemma reaches_answers:
  assumes "reaches body os m s" and "\<And>h c. L c (os h c)"
  shows "\<forall>(i, c, a) \<in> set (trace s). L c a"
  using assms(1) by induction (auto elim!: sys_stepE simp: assms(2))

lemma set_events_of: "e \<in> set (events_of i tr) \<longleftrightarrow> (i, e) \<in> set tr"
  by (force simp: events_of_def)

theorem thread_holds:
  assumes "reaches body os m s" and "i < length (threads s)" and "\<And>h c. L c (os h c)"
    and "holds (\<lambda>_. L) I E (body (created (events_of 0 (trace s)) ! i)) Q []"
  shows "holds (\<lambda>_. L) I E (threads s ! i) Q (events_of (Suc i) (trace s))"
proof -
  have "\<forall>(c, a) \<in> set (rev (events_of (Suc i) (trace s))). L c a"
    using reaches_answers [OF assms(1), of L] assms(3) by (auto simp: set_events_of)
  from holds_replay [OF thread_replay [OF assms(1,2)] assms(4) this] show ?thesis by simp
qed

theorem main_holds:
  assumes "reaches body os m s" and "\<And>h c. L c (os h c)" and "holds (\<lambda>_. L) I E m Q []"
  shows "holds (\<lambda>_. L) I E (main_proc s) Q (events_of 0 (trace s))"
proof -
  have "\<forall>(c, a) \<in> set (rev (events_of 0 (trace s))). L c a"
    using reaches_answers [OF assms(1), of L] assms(2) by (auto simp: set_events_of)
  with holds_replay [of "rev (events_of 0 (trace s))" m "main_proc s" L I E Q "[]"] reaches_replays [OF assms(1)] assms(3)
  show ?thesis by (simp add: replays_def)
qed

section \<open>Schedules\<close>

text \<open>A schedule names whose turn it is. It makes the runs of a system computable.\<close>

definition turn :: "(bytes \<Rightarrow> unit process) \<Rightarrow> os \<Rightarrow> nat \<Rightarrow> 'a system \<Rightarrow> 'a system" where
  "turn body os i s = (if \<not> alive s then s else case i of
      0 \<Rightarrow> (case main_proc s of
          Do c k \<Rightarrow> if waits c (threads s) then s
            else let a = os (calls s) c in
              \<lparr>trace = (0, c, a) # trace s, main_proc = k a, threads = spawned body c a (threads s)\<rparr>
        | _ \<Rightarrow> s)
    | Suc j \<Rightarrow> if j < length (threads s)
        then (case threads s ! j of
            Do c k \<Rightarrow> let a = os (calls s) c in
              \<lparr>trace = (i, c, a) # trace s, main_proc = main_proc s, threads = (threads s)[j := k a]\<rparr>
          | _ \<Rightarrow> s)
        else s)"

lemma thread_turn:
  "alive s \<Longrightarrow> i < length (threads s) \<Longrightarrow> threads s ! i = Do c k \<Longrightarrow> main_proc s = m \<Longrightarrow>
   sys_step body os s \<lparr>trace = (Suc i, c, os (calls s) c) # trace s, main_proc = m,
     threads = (threads s)[i := k (os (calls s) c)]\<rparr>"
  using thread_step [of s i c k "os (calls s) c"] by simp

lemma reaches_turn: "reaches body os m s \<Longrightarrow> reaches body os m (turn body os i s)"
  by (auto simp: turn_def Let_def split: nat.split process.split
      intro: reaches.onward [OF _ main_step] reaches.onward [OF _ thread_turn])

lemma reaches_schedule:
  "reaches body os m s \<Longrightarrow> reaches body os m (fold (turn body os) is s)"
  by (induction "is" arbitrary: s) (auto intro: reaches_turn)

end
