(* ===== verification/Cpp_String.thy ===== *)
theory Cpp_String
  imports C_Number
begin

text \<open>
  The parts of the C++ library that the libcurl examples use on strings: searching for a
  character, \<open>substr\<close> with its unsigned positions, and the printing of a \<open>double\<close>. Positions are
  64-bit words; \<open>npos\<close> is the greatest one. The name of the file a page is written to is
  computed here, by the expression that two of the programs share.
\<close>

section \<open>Positions\<close>

type_synonym size_t = "64 word"

abbreviation (input) npos :: size_t where "npos \<equiv> - 1"

definition find_first_of :: "bytes \<Rightarrow> char \<Rightarrow> size_t" where
  "find_first_of s c = (case first_index (\<lambda>d. d = c) s of None \<Rightarrow> npos | Some i \<Rightarrow> of_nat i)"

definition find_last_of :: "bytes \<Rightarrow> char \<Rightarrow> size_t" where
  "find_last_of s c = (case first_index (\<lambda>d. d = c) (rev s) of None \<Rightarrow> npos
     | Some i \<Rightarrow> of_nat (length s - 1 - i))"

text \<open>\<open>substr(pos, n)\<close> throws when \<open>pos\<close> is behind the end.\<close>

definition substr :: "bytes \<Rightarrow> size_t \<Rightarrow> size_t \<Rightarrow> exn + bytes" where
  "substr s pos n = (if length s < unat pos then Inl Out_Of_Range else Inr (take (unat n) (drop (unat pos) s)))"

text \<open>\<open>url.substr(11, url.find_last_of(".") - url.find_first_of(".") - 1) + ".html"\<close>\<close>

definition page_file :: "bytes \<Rightarrow> exn + bytes" where
  "page_file url = (case substr url 11 (find_last_of url CHR ''.'' - find_first_of url CHR ''.'' - 1) of
       Inl e \<Rightarrow> Inl e
     | Inr name \<Rightarrow> Inr (name @ ''.html''))"

section \<open>Printing a \<open>double\<close>\<close>

text \<open>
  \<open>std::cout << d\<close> has six significant digits, as \<open>%g\<close>. The doubles of the programs count bytes,
  so they are whole numbers: up to six digits they are printed as such, from then on rounded
  (ties to even) and with an exponent, without the zeros at the end of the fraction.
\<close>

definition round_half_even :: "nat \<Rightarrow> nat \<Rightarrow> nat" where
  "round_half_even n d = (let q = n div d; r = n mod d
     in if 2 * r < d \<or> (2 * r = d \<and> even q) then q else q + 1)"

definition strip_zeros :: "bytes \<Rightarrow> bytes" where
  "strip_zeros s = rev (dropWhile (\<lambda>c. c = CHR ''0'') (rev s))"

definition show_exponent :: "nat \<Rightarrow> bytes" where
  "show_exponent e = ''e+'' @ (if e < 10 then ''0'' else []) @ dec_nat e"

definition show_double :: "int \<Rightarrow> bytes" where
  "show_double i = (let n = nat \<bar>i\<bar> in
     if n < 1000000 then dec i
     else let e = length (dec_nat n) - 1; q = round_half_even n (10 ^ (e - 5));
         (q, e) = (if q = 1000000 then (100000, e + 1) else (q, e));
         fraction = strip_zeros (tl (dec_nat q))
       in (if i < 0 then ''-'' else []) @ hd (dec_nat q) # (if fraction = [] then [] else CHR ''.'' # fraction)
          @ show_exponent e)"

section \<open>The name of the file\<close>

lemma unat_size: "n < 2 ^ 64 \<Longrightarrow> unat (of_nat n :: size_t) = n"
  by (simp add: unsigned_of_nat take_bit_nat_eq_self)

lemma first_index_append: "\<forall>x \<in> set xs. \<not> p x \<Longrightarrow> p y \<Longrightarrow> first_index p (xs @ y # ys) = Some (length xs)"
  by (induction xs) auto

text \<open>The length that is passed: between the dots, and beyond every string where there are
  fewer than two.\<close>

lemma dots_apart:
  assumes "length s < 2 ^ 64" and "s = xs @ c # ys @ c # zs" and "c \<notin> set xs" and "c \<notin> set zs"
  shows "unat (find_last_of s c - find_first_of s c - 1) = length ys"
proof -
  have f: "first_index (\<lambda>d. d = c) s = Some (length xs)"
    unfolding assms(2) by (rule first_index_append) (use assms(3) in auto)
  have r: "rev s = rev zs @ c # rev ys @ c # rev xs" by (simp add: assms(2))
  have l: "first_index (\<lambda>d. d = c) (rev s) = Some (length zs)"
    unfolding r length_rev [of zs, symmetric] by (rule first_index_append) (use assms(4) in auto)
  have "find_last_of s c - find_first_of s c - 1 = of_nat (length ys)"
    using f l by (simp add: find_first_of_def find_last_of_def assms(2))
  moreover have "length ys < 2 ^ 64" using assms(1,2) by simp
  ultimately show ?thesis by (simp add: unat_size)
qed

lemma dots_missing:
  assumes "\<nexists>xs ys zs. s = xs @ c # ys @ c # zs" and "length s < 2 ^ 64"
  shows "find_last_of s c - find_first_of s c - 1 = npos"
proof (cases "c \<in> set s")
  case False
  then have "first_index (\<lambda>d. d = c) s = None" "first_index (\<lambda>d. d = c) (rev s) = None"
    by (auto simp: first_index_None)
  then show ?thesis by (simp add: find_first_of_def find_last_of_def)
next
  case True
  then obtain xs ys where s: "s = xs @ c # ys" "c \<notin> set xs" by (meson split_list_first)
  have "c \<notin> set ys"
  proof
    assume "c \<in> set ys"
    then obtain us vs where "ys = us @ c # vs" by (meson split_list)
    with s(1) assms(1) show False by blast
  qed
  have "first_index (\<lambda>d. d = c) s = Some (length xs)"
    unfolding s(1) by (rule first_index_append) (use s(2) in auto)
  moreover have "rev s = rev ys @ c # rev xs" by (simp add: s(1))
  then have "first_index (\<lambda>d. d = c) (rev s) = Some (length (rev ys))"
    using \<open>c \<notin> set ys\<close> by (metis (mono_tags, lifting) first_index_append set_rev)
  ultimately show ?thesis by (simp add: find_first_of_def find_last_of_def s(1))
qed

text \<open>An address of the kind the programs have: its middle part names the file.\<close>

lemma page_file_named:
  assumes "CHR ''.'' \<notin> set tld" and "length (''http://www.'' @ name @ CHR ''.'' # tld) < 2 ^ 64"
  shows "page_file (''http://www.'' @ name @ CHR ''.'' # tld) = Inr (name @ ''.html'')"
proof -
  let ?url = "''http://www.'' @ name @ CHR ''.'' # tld"
  have "?url = ''http://www'' @ CHR ''.'' # name @ CHR ''.'' # tld" by simp
  from dots_apart [OF assms(2) this _ assms(1)]
  have "unat (find_last_of ?url CHR ''.'' - find_first_of ?url CHR ''.'' - 1) = length name" by simp
  then show ?thesis by (simp add: page_file_def substr_def del: append.simps append_Cons)
qed

text \<open>
  C36: The name of the file a page goes to. The address is read from its 12th byte on, for as many
  bytes as lie between its first and its last dot, so that \<open>http://www.name.tld\<close> gives \<open>name.html\<close>.
  With fewer than two dots the subtraction of the positions wraps around, and the whole rest is
  taken. An address of fewer than 11 bytes, and no other, throws.
\<close>

theorem page_file_spec:
  assumes "length url < 2 ^ 64"
  shows "case page_file url of
      Inl e \<Rightarrow> e = Out_Of_Range \<and> length url < 11
    | Inr f \<Rightarrow> 11 \<le> length url \<and> (\<exists>name. f = name @ ''.html''
        \<and> (\<forall>xs ys zs. url = xs @ CHR ''.'' # ys @ CHR ''.'' # zs \<and> CHR ''.'' \<notin> set xs \<and> CHR ''.'' \<notin> set zs \<longrightarrow>
              name = take (length ys) (drop 11 url))
        \<and> ((\<nexists>xs ys zs. url = xs @ CHR ''.'' # ys @ CHR ''.'' # zs) \<longrightarrow> name = drop 11 url))"
proof (cases "length url < 11")
  case True
  then show ?thesis by (simp add: page_file_def substr_def)
next
  case False
  define n where "n = unat (find_last_of url CHR ''.'' - find_first_of url CHR ''.'' - 1)"
  have f: "page_file url = Inr (take n (drop 11 url) @ ''.html'')"
    using False by (simp add: page_file_def substr_def n_def)
  have none: "take n (drop 11 url) = drop 11 url" if "\<nexists>xs ys zs. url = xs @ CHR ''.'' # ys @ CHR ''.'' # zs"
  proof -
    have "n = 2 ^ 64 - 1" using dots_missing [OF that assms] by (simp add: n_def unsigned_minus_1_eq_mask mask_eq_exp_minus_1)
    with assms show ?thesis by simp
  qed
  have two: "n = length ys"
    if "url = xs @ CHR ''.'' # ys @ CHR ''.'' # zs" "CHR ''.'' \<notin> set xs" "CHR ''.'' \<notin> set zs" for xs ys zs
    unfolding n_def by (rule dots_apart [OF assms that])
  show ?thesis
    unfolding f sum.case
  proof (intro conjI exI [of _ "take n (drop 11 url)"] refl allI impI, goal_cases)
    case (2 xs ys zs)
    then show ?case by (elim conjE) (drule (2) two, simp only:)
  qed (use False none in simp_all)
qed

theorem page_file_spec_witness:
  "page_file ''http://www.example.com'' = Inr (take (length ''example'') (drop 11 ''http://www.example.com'') @ ''.html'')"
proof -
  have f: "page_file ''http://www.example.com'' = Inr ''example.html''"
    using page_file_named [of "''com''" "''example''"] by simp
  have split: "''http://www.example.com'' = ''http://www'' @ CHR ''.'' # ''example'' @ CHR ''.'' # ''com''
      \<and> CHR ''.'' \<notin> set ''http://www'' \<and> CHR ''.'' \<notin> set ''com''" by simp
  have "length ''http://www.example.com'' < 2 ^ 64" by simp
  from page_file_spec [OF this] obtain name where "''example.html'' = name @ ''.html''"
    "\<forall>xs ys zs. ''http://www.example.com'' = xs @ CHR ''.'' # ys @ CHR ''.'' # zs \<and> CHR ''.'' \<notin> set xs \<and> CHR ''.'' \<notin> set zs \<longrightarrow>
       name = take (length ys) (drop 11 ''http://www.example.com'')"
    unfolding f sum.case by (elim conjE exE)
  from this(1) this(2) [rule_format, OF split] show ?thesis unfolding f by (simp only:)
qed

text \<open>With \<open>https\<close> the name is one byte off.\<close>

lemma https_name_shifted: "page_file ''https://www.example.com'' = Inr ''.exampl.html''"
  by (simp add: page_file_def substr_def find_first_of_def find_last_of_def)

lemma show_double_small: "\<bar>i\<bar> < 1000000 \<Longrightarrow> show_double i = dec i"
proof -
  assume "\<bar>i\<bar> < 1000000"
  then have "nat \<bar>i\<bar> < 1000000" by linarith
  then show ?thesis by (simp add: show_double_def Let_def)
qed

text \<open>A megabyte is not printed exactly.\<close>

lemma show_double_megabyte: "show_double 1048576 = ''1.04858e+06''"
proof -
  have "dec_nat 1048576 = ''1048576''" "dec_nat 104858 = ''104858''"
    "dec_nat (Suc (Suc (Suc (Suc (Suc (Suc 0)))))) = ''6''"
    by (simp add: dec_nat.simps digit_def, code_simp)+
  then show ?thesis by (simp add: show_double_def round_half_even_def strip_zeros_def show_exponent_def)
qed

end
