(* ===== verification/Curl.thy ===== *)
theory Curl
  imports Interleave Cpp_String
begin

text \<open>
  What the three libcurl examples of \<open>01_networking_libraries/libcurl/src\<close> share, and the first
  of them, \<open>basic_curl.cpp\<close>. The library is not in the repository: a transfer is the sequence of
  callbacks that it makes, chosen by the environment, until it returns. The callbacks are the
  programs' own code. The locale \<open>transfer_sink\<close> says what the programs rely on of the pair of
  callbacks they install: it collects what is delivered, and progress only prints.
\<close>

section \<open>The library\<close>

abbreviation (input) CURLE_OK :: int where "CURLE_OK \<equiv> 0"
abbreviation (input) CURLOPT_URL :: int where "CURLOPT_URL \<equiv> 10002"
abbreviation (input) CURLOPT_WRITEFUNCTION :: int where "CURLOPT_WRITEFUNCTION \<equiv> 20011"
abbreviation (input) CURLOPT_WRITEDATA :: int where "CURLOPT_WRITEDATA \<equiv> 10001"
abbreviation (input) CURLOPT_NOPROGRESS :: int where "CURLOPT_NOPROGRESS \<equiv> 43"
abbreviation (input) CURLOPT_PROGRESSFUNCTION :: int where "CURLOPT_PROGRESSFUNCTION \<equiv> 20056"
abbreviation (input) CURLOPT_PROGRESSDATA :: int where "CURLOPT_PROGRESSDATA \<equiv> 10057"
abbreviation (input) CURLOPT_FOLLOWLOCATION :: int where "CURLOPT_FOLLOWLOCATION \<equiv> 52"

text \<open>What a running library function does next: it returns, hands over \<open>size * nmemb\<close> bytes, or
  reports how many it has downloaded.\<close>

datatype callback = Returned int | Deliver size_t size_t bytes | Progressed int

definition callback_of :: "answer \<Rightarrow> callback" where
  "callback_of a = (if a_errno a = 0 then Returned (a_ret a)
     else case a_flags a of
       [sz, nmemb] \<Rightarrow> Deliver (word_of_int sz) (word_of_int nmemb) (a_buf a)
     | _ # downloaded # _ \<Rightarrow> Progressed downloaded
     | _ \<Rightarrow> Progressed 0)"

text \<open>\<open>size\<close> is always 1, and the bytes that are handed over are there (manual page of
  \<open>CURLOPT_WRITEFUNCTION\<close>).\<close>

definition is_transfer :: "call \<Rightarrow> bool" where
  "is_transfer c \<longleftrightarrow> (case c of CurlPerform _ _ \<Rightarrow> True | CurlMultiPerform _ _ \<Rightarrow> True | _ \<Rightarrow> False)"

definition curl_law :: "call \<Rightarrow> answer \<Rightarrow> bool" where
  "curl_law c a \<longleftrightarrow> (is_transfer c \<longrightarrow> (case callback_of a of Deliver sz nmemb b \<Rightarrow> sz = 1 \<and> unat nmemb = length b | _ \<Rightarrow> True))"

definition curl_env :: law where
  "curl_env h c a \<longleftrightarrow> curl_law c a \<and> ((case c of Fgets n \<Rightarrow> 0 < n | _ \<Rightarrow> True) \<longrightarrow> answer_ok h c a)"

text \<open>How many callbacks the library has made or returned from.\<close>

fun callbacks :: "log \<Rightarrow> nat" where
  "callbacks [] = 0"
| "callbacks ((c, a) # h) = (if is_transfer c then 1 else 0) + callbacks h"

text \<open>What a history has delivered to a handle. A multi handle says whose data it hands over.\<close>

definition chunk :: "int \<Rightarrow> event \<Rightarrow> bytes" where
  "chunk p e = (case e of (c, a) \<Rightarrow> case callback_of a of
       Deliver sz nmemb b \<Rightarrow> (case c of CurlPerform q _ \<Rightarrow> if q = p then b else []
         | CurlMultiPerform m _ \<Rightarrow> if a_ptr a = p then b else [] | _ \<Rightarrow> [])
     | _ \<Rightarrow> [])"

fun delivered :: "int \<Rightarrow> log \<Rightarrow> bytes" where
  "delivered p [] = []"
| "delivered p (e # h) = delivered p h @ chunk p e"

lemma is_transfer_simps [simp]:
  "is_transfer (CurlPerform p r)" "is_transfer (CurlMultiPerform m r)" "\<not> is_transfer (Out t)"
  "\<not> is_transfer (Err t)" "\<not> is_transfer (CurlSetOpt p opt val)" "\<not> is_transfer CurlEasyInit"
  "\<not> is_transfer (CurlEasyCleanup p)"
  by (simp_all add: is_transfer_def)

section \<open>Callbacks\<close>

text \<open>\<open>WriteCallback\<close> and \<open>perform_callback\<close>: the product is a \<open>size_t\<close>, and reading behind the data
  is undefined. Memory for the strings does not run out. The result is what is returned.\<close>

definition perform_callback :: "bytes \<Rightarrow> size_t \<Rightarrow> size_t \<Rightarrow> bytes \<Rightarrow> (bytes \<times> size_t) option" where
  "perform_callback ptr sz nmemb str = (let total_size = sz * nmemb
     in if unat total_size \<le> length ptr then Some (str @ take (unat total_size) ptr, total_size) else None)"

definition WriteCallback :: "bytes \<Rightarrow> size_t \<Rightarrow> size_t \<Rightarrow> bytes \<Rightarrow> (bytes \<times> size_t) option" where
  "WriteCallback contents sz nmemb userp = (let total_size = sz * nmemb
     in if unat total_size \<le> length contents then Some (userp @ take (unat total_size) contents, total_size) else None)"

definition print_line :: "bytes list \<Rightarrow> unit process" where
  "print_line parts = Do (Out (fmt (parts @ [[LF]]))) (\<lambda>_. Return ())"

definition print_error :: "bytes list \<Rightarrow> unit process" where
  "print_error parts = Do (Err (fmt (parts @ [[LF]]))) (\<lambda>_. Return ())"

fun set_options :: "int \<Rightarrow> (int \<times> bytes) list \<Rightarrow> unit process" where
  "set_options curl [] = Return ()"
| "set_options curl ((opt, val) # rest) = Do (CurlSetOpt curl opt val) (\<lambda>_. set_options curl rest)"

text \<open>\<open>curl_easy_perform\<close>, with the callbacks that were installed and the data they were given.
  \<open>r\<close> is what the last callback returned.\<close>

primrec transfer ::
  "(bytes \<Rightarrow> size_t \<Rightarrow> size_t \<Rightarrow> 's \<Rightarrow> ('s \<times> size_t) option) \<Rightarrow> (int \<Rightarrow> 's \<Rightarrow> 's process)
   \<Rightarrow> nat \<Rightarrow> int \<Rightarrow> size_t \<Rightarrow> 's \<Rightarrow> (int \<times> 's) process" where
  "transfer on_data on_progress 0 curl r s = Stopped Unfinished"
| "transfer on_data on_progress (Suc n) curl r s = Do (CurlPerform curl r) (\<lambda>a. case callback_of a of
       Returned rc \<Rightarrow> Return (rc, s)
     | Deliver sz nmemb b \<Rightarrow> (case on_data b sz nmemb s of
           None \<Rightarrow> Stopped (Fault Out_Of_Bounds)
         | Some (s', taken) \<Rightarrow> transfer on_data on_progress n curl taken s')
     | Progressed d \<Rightarrow> pbind (on_progress d s) (\<lambda>s'. transfer on_data on_progress n curl 0 s'))"

text \<open>The page goes to the file that its address names. An exception that nothing catches ends the
  program, in a thread as in main.\<close>

definition write_page :: "bytes \<Rightarrow> bytes \<Rightarrow> unit process" where
  "write_page url data = (case page_file url of
       Inl e \<Rightarrow> Stopped Abort
     | Inr filename \<Rightarrow> Do (FileCreate filename) (\<lambda>file.
         if a_ret file \<noteq> 0
         then Do (FilePut filename data) (\<lambda>_. Do (FileClose filename) (\<lambda>_.
           print_line [''Data written to '', filename]))
         else Return ()))"

section \<open>\<open>basic_curl.cpp\<close>\<close>

text \<open>\<open>curl_version_info_data\<close>; a pointer may be NULL. \<open>protocols\<close> is an array that ends with NULL.\<close>

record version_info =
  v_version :: "bytes option"
  v_ssl_version :: "bytes option"
  v_libz_version :: "bytes option"
  v_features :: int
  v_protocols :: "bytes list option"

text \<open>Printing a string that is NULL is undefined.\<close>

definition print_string :: "bytes \<Rightarrow> bytes option \<Rightarrow> unit process" where
  "print_string title s = (case s of None \<Rightarrow> Stopped (Fault Null_Deref) | Some t \<Rightarrow> print_line [title, t])"

definition show_version :: "version_info option \<Rightarrow> unit process" where
  "show_version info = (case info of
       None \<Rightarrow> print_error [''Failed to get libcurl version info.'']
     | Some i \<Rightarrow> pthen (print_string ''libcurl version: '' (v_version i))
         (pthen (print_string ''SSL version: '' (v_ssl_version i))
         (pthen (print_string ''Libz version: '' (v_libz_version i))
         (pthen (print_line [''Features: '', dec (v_features i)])
         (case v_protocols i of None \<Rightarrow> Return ()
          | Some ps \<Rightarrow> print_line (''Supported protocols: '' # map (\<lambda>p. p @ '' '') ps))))))"

definition basic_main :: "version_info option \<Rightarrow> (int \<Rightarrow> bytes) \<Rightarrow> nat \<Rightarrow> int process" where
  "basic_main info strerror n = pthen (show_version info)
     (Do CurlEasyInit (\<lambda>i. let curl = a_ptr i in
      if curl \<noteq> 0
      then pthen (set_options curl [(CURLOPT_URL, ''http://httpstat.us/200''), (CURLOPT_WRITEFUNCTION, ''WriteCallback''),
             (CURLOPT_WRITEDATA, ''&readBuffer'')])
        (pbind (transfer WriteCallback (\<lambda>d s. Return s) n curl 0 []) (\<lambda>(res, readBuffer).
         pthen (if res \<noteq> CURLE_OK then print_error [''curl_easy_perform() failed: '', strerror res]
                else print_line [''Response data: '', readBuffer])
         (Do (CurlEasyCleanup curl) (\<lambda>_. Return 0))))
      else pthen (print_error [''Failed to initialize libcurl'']) (Return 0)))"

section \<open>What the programs rely on\<close>

primrec only_prints :: "'a process \<Rightarrow> ('a \<Rightarrow> bool) \<Rightarrow> bool" where
  "only_prints (Return a) = (\<lambda>Q. Q a)"
| "only_prints (Stopped s) = (\<lambda>Q. False)"
| "only_prints (Do c k) = (\<lambda>Q. (\<exists>t. c = Out t) \<and> (\<forall>a. only_prints (k a) Q))"

lemma holds_only_prints:
  assumes "only_prints m P" and "\<And>h t a. J h \<Longrightarrow> J ((Out t, a) # h)" and "\<And>h. J h \<Longrightarrow> I h"
    and "\<And>s h. P s \<Longrightarrow> J h \<Longrightarrow> Q s h" and "J h"
  shows "holds L I E m Q h"
  using assms(1,5) by (induction m arbitrary: h) (auto simp: assms(2-4))

locale transfer_sink =
  fixes contents :: "'s \<Rightarrow> bytes"
    and on_data :: "bytes \<Rightarrow> size_t \<Rightarrow> size_t \<Rightarrow> 's \<Rightarrow> ('s \<times> size_t) option"
    and on_progress :: "int \<Rightarrow> 's \<Rightarrow> 's process"
  assumes data_kept: "unat nmemb = length b \<Longrightarrow>
      \<exists>s'. on_data b 1 nmemb s = Some (s', nmemb) \<and> contents s' = contents s @ b"
    and progress_prints: "only_prints (on_progress d s) (\<lambda>s'. contents s' = contents s)"
begin

text \<open>What has been collected is what was delivered, whenever the transfer ends. \<open>J\<close> is any
  invariant of the history that the calls of a transfer keep.\<close>

lemma holds_transfer:
  assumes law: "\<And>h c a. L h c a \<Longrightarrow> curl_law c a"
    and J: "\<And>h. J h \<Longrightarrow> I h" "\<And>h r a. J h \<Longrightarrow> J ((CurlPerform p r, a) # h)" "\<And>h t a. J h \<Longrightarrow> J ((Out t, a) # h)"
    and post: "\<And>s r rc a h. J h \<Longrightarrow> contents s = delivered p h \<Longrightarrow> callback_of a = Returned rc \<Longrightarrow>
      Q (rc, s) ((CurlPerform p r, a) # h)"
    and "J h" and "contents s = delivered p h"
    and stuck: "\<And>h. J h \<Longrightarrow> k \<le> callbacks h \<Longrightarrow> E Unfinished h" and "k \<le> n + callbacks h"
  shows "holds L I E (transfer on_data on_progress n p r s) Q h"
  using assms(6,7,9)
proof (induction n arbitrary: r s h)
  case 0
  then show ?case using J(1) stuck by auto
next
  case (Suc n)
  let ?h = "\<lambda>a. (CurlPerform p r, a) # h"
  have on: "k \<le> n + callbacks (?h a)" for a using Suc.prems(3) by simp
  have "holds L I E (case callback_of a of
       Returned rc \<Rightarrow> Return (rc, s)
     | Deliver sz nmemb b \<Rightarrow> (case on_data b sz nmemb s of
           None \<Rightarrow> Stopped (Fault Out_Of_Bounds)
         | Some (s', taken) \<Rightarrow> transfer on_data on_progress n p taken s')
     | Progressed d \<Rightarrow> pbind (on_progress d s) (\<lambda>s'. transfer on_data on_progress n p 0 s')) Q (?h a)"
    if a: "L h (CurlPerform p r) a" for a
  proof (cases "callback_of a")
    case (Returned rc)
    with Suc.prems J post show ?thesis by simp
  next
    case (Deliver sz nmemb b)
    with law [OF a] have "sz = 1" "unat nmemb = length b" by (simp_all add: curl_law_def)
    with data_kept obtain s' where s': "on_data b 1 nmemb s = Some (s', nmemb)" "contents s' = contents s @ b" by blast
    have "holds L I E (transfer on_data on_progress n p nmemb s') Q (?h a)"
      using Suc.prems J(2) s'(2) Deliver on
      by (intro Suc.IH) (simp_all add: chunk_def)
    with Deliver s'(1) \<open>sz = 1\<close> show ?thesis by simp
  next
    case (Progressed d)
    have "holds L I E (transfer on_data on_progress n p 0 s') Q h'"
      if "contents s' = contents s" "J h' \<and> delivered p h' = delivered p h \<and> k \<le> n + callbacks h'" for s' h'
      using that Suc.prems(2) by (intro Suc.IH) simp_all
    with Progressed show ?thesis
      by (simp, intro holds_pbind
          holds_only_prints [OF progress_prints, of "\<lambda>h'. J h' \<and> delivered p h' = delivered p h \<and> k \<le> n + callbacks h'"])
        (use Suc.prems J on in \<open>auto simp: chunk_def split: callback.split\<close>)
  qed
  then show ?case using J(1) Suc.prems(1) by simp
qed

end

interpretation basic: transfer_sink "\<lambda>s. s" WriteCallback "\<lambda>d s. Return s"
  by unfold_locales (auto simp: WriteCallback_def)

section \<open>The first program\<close>

definition complete_info :: "version_info option \<Rightarrow> bool" where
  "complete_info info \<longleftrightarrow> (case info of None \<Rightarrow> True
     | Some i \<Rightarrow> v_version i \<noteq> None \<and> v_ssl_version i \<noteq> None \<and> v_libz_version i \<noteq> None)"

lemma only_prints_pthen: "only_prints m (\<lambda>_. True) \<Longrightarrow> only_prints n P \<Longrightarrow> only_prints (pthen m n) P"
  by (induction m) (auto simp: pthen_def)

lemma holds_print_line:
  "I h \<Longrightarrow> (\<And>t a. I ((Out t, a) # h) \<and> Q () ((Out t, a) # h)) \<Longrightarrow> holds L I E (print_line ps) Q h"
  by (simp add: print_line_def)

lemma holds_print_error:
  "I h \<Longrightarrow> (\<And>t a. I ((Err t, a) # h) \<and> Q () ((Err t, a) # h)) \<Longrightarrow> holds L I E (print_error ps) Q h"
  by (simp add: print_error_def)

text \<open>What is printed, and the setting of options, leave no trace in the resources and deliver
  nothing.\<close>

definition same_resources :: "log \<Rightarrow> log \<Rightarrow> bool" where
  "same_resources h h' \<longleftrightarrow> live h' = live h \<and> disciplined h'"

definition undisturbed :: "log \<Rightarrow> log \<Rightarrow> bool" where
  "undisturbed h h' \<longleftrightarrow> same_resources h h' \<and> callbacks h' = callbacks h \<and> (\<forall>p. delivered p h' = delivered p h)"

lemma undisturbed_refl: "disciplined h \<Longrightarrow> undisturbed h h"
  by (simp add: undisturbed_def same_resources_def)

lemma undisturbed_disciplined: "undisturbed h h' \<Longrightarrow> disciplined h'"
  by (simp add: undisturbed_def same_resources_def)

lemma undisturbed_steps:
  "undisturbed h h' \<Longrightarrow> undisturbed h ((Out t, a) # h')"
  "undisturbed h h' \<Longrightarrow> undisturbed h ((Err t, a) # h')"
  "undisturbed h h' \<Longrightarrow> p = 0 \<or> Curl p \<in> live h \<Longrightarrow> undisturbed h ((CurlSetOpt p opt val, a) # h')"
  by (auto simp: undisturbed_def same_resources_def res_simps chunk_def split: callback.split)

lemma holds_show_version:
  assumes "complete_info info" and "disciplined h" and "\<And>h'. undisturbed h h' \<Longrightarrow> I h' \<and> Q () h'"
  shows "holds L I E (show_version info) Q h"
proof (cases info)
  case None
  with assms show ?thesis
    using undisturbed_refl undisturbed_steps(2) by (simp add: show_version_def print_error_def)
next
  case (Some i)
  with assms(1) have "only_prints (show_version info) (\<lambda>_. True)"
    by (auto simp: complete_info_def show_version_def print_string_def print_line_def intro!: only_prints_pthen
        split: option.split)
  then show ?thesis
    by (rule holds_only_prints [where J = "undisturbed h"])
      (use assms in \<open>auto intro: undisturbed_refl undisturbed_steps\<close>)
qed

lemma holds_set_options:
  assumes "p = 0 \<or> Curl p \<in> live h" and "disciplined h" and "\<And>h'. undisturbed h h' \<Longrightarrow> I h' \<and> Q () h'"
  shows "holds L I E (set_options p opts) Q h"
proof -
  have "holds L I E (set_options p opts) Q h'" if "undisturbed h h'" for h'
    using that
  proof (induction opts arbitrary: h')
    case (Cons o' rest)
    then show ?case using assms(1,3) by (cases o') (auto intro!: Cons.IH undisturbed_steps)
  qed (use assms in auto)
  then show ?thesis using assms(2) by (simp add: undisturbed_refl)
qed

text \<open>The end of a run: the handle is cleaned up, after what the transfer came to was printed.\<close>

definition basic_end :: "(int \<Rightarrow> bytes) \<Rightarrow> log \<Rightarrow> bool" where
  "basic_end strerror h \<longleftrightarrow> (\<exists>p res r a1 a2 a3 h1.
     callback_of a3 = Returned res \<and> h = (CurlEasyCleanup p, a1)
       # (if res = CURLE_OK then Out (fmt [''Response data: '', delivered p h1, [LF]])
          else Err (fmt [''curl_easy_perform() failed: '', strerror res, [LF]]), a2) # (CurlPerform p r, a3) # h1)
   \<or> (\<exists>a1 a2 h1. a_ptr a2 = 0 \<and> h = (Err (fmt [''Failed to initialize libcurl'', [LF]]), a1) # (CurlEasyInit, a2) # h1)"

text \<open>A library function that has not returned after \<open>n\<close> callbacks: the program still waits for it.\<close>

definition still_calling :: "nat \<Rightarrow> stop \<Rightarrow> log \<Rightarrow> bool" where
  "still_calling n e h \<longleftrightarrow> e = Unfinished \<and> n \<le> callbacks h"

lemma holds_basic_end:
  assumes law: "\<And>h c a. L h c a \<Longrightarrow> curl_env h c a" and "p \<noteq> 0"
    and h: "live h = insert (Curl p) R" "Curl p \<notin> R" "disciplined h" "delivered p h = []" "callbacks h = 0"
  shows "holds L disciplined (still_calling n)
    (pbind (transfer WriteCallback (\<lambda>d s. Return s) n p 0 []) (\<lambda>(res, readBuffer).
       pthen (if res \<noteq> CURLE_OK then print_error [''curl_easy_perform() failed: '', strerror res]
              else print_line [''Response data: '', readBuffer])
         (Do (CurlEasyCleanup p) (\<lambda>_. Return 0))))
    (\<lambda>r h. r = 0 \<and> live h = R \<and> basic_end strerror h) h"
proof (rule holds_pbind, rule basic.holds_transfer [where J = "same_resources h" and k = n], goal_cases)
  case (5 s r rc a h')
  then show ?case using h \<open>p \<noteq> 0\<close>
    by (auto intro!: holds_pthen holds_print_line simp: print_error_def print_line_def same_resources_def res_simps basic_end_def)
qed (use assms in \<open>auto simp: same_resources_def res_simps curl_env_def still_calling_def\<close>)

lemma holds_basic_start:
  assumes law: "\<And>h c a. L h c a \<Longrightarrow> curl_env h c a"
    and h: "undisturbed h0 h" "callbacks h0 = 0" "\<And>p. delivered p h0 = []" and i: "L h CurlEasyInit i"
  shows "holds L disciplined (still_calling n)
    (let curl = a_ptr i in
      if curl \<noteq> 0
      then pthen (set_options curl opts)
        (pbind (transfer WriteCallback (\<lambda>d s. Return s) n curl 0 []) (\<lambda>(res, readBuffer).
         pthen (if res \<noteq> CURLE_OK then print_error [''curl_easy_perform() failed: '', strerror res]
                else print_line [''Response data: '', readBuffer])
         (Do (CurlEasyCleanup curl) (\<lambda>_. Return 0))))
      else pthen (print_error [''Failed to initialize libcurl'']) (Return 0))
    (\<lambda>r h. r = 0 \<and> live h = live h0 \<and> basic_end strerror h) ((CurlEasyInit, i) # h)"
proof (cases "a_ptr i = 0")
  case True
  with h show ?thesis
    by (auto simp: print_error_def undisturbed_def same_resources_def res_simps basic_end_def)
next
  case False
  let ?h = "(CurlEasyInit, i) # h"
  have "answer_ok h CurlEasyInit i" using law [OF i] by (simp add: curl_env_def)
  then have fresh: "Curl (a_ptr i) \<notin> live h0"
    using False h(1) by (simp add: answer_ok_def res_simps undisturbed_def same_resources_def)
  have init: "live ?h = insert (Curl (a_ptr i)) (live h0)" "disciplined ?h" "callbacks ?h = 0" "\<And>p. delivered p ?h = []"
    using False h by (auto simp: undisturbed_def same_resources_def res_simps chunk_def split: callback.split)
  show ?thesis
    unfolding Let_def if_P [OF False]
    by (rule holds_pthen, rule holds_set_options)
      (use law init fresh False in \<open>auto intro!: holds_basic_end simp: undisturbed_def same_resources_def simp del: live.simps(2) disciplined.simps(2) callbacks.simps(2) delivered.simps(2)\<close>)
qed

text \<open>
  C35: The first program, with every library that keeps its documented law. It returns 0 as soon
  as the library returns from the transfer, with every handle given back, and what it printed
  last is exactly what was delivered, if the transfer succeeded, and the reason if it did not.
  It goes on only for as long as the library makes callbacks: more than any number \<open>n\<close> of them.
  It has undefined behaviour only before the first transfer, and only when a part of the library
  has no name.
\<close>

theorem basic_curl_delivers:
  assumes "\<And>h c. curl_env h c (os h c)" and "run_proc (basic_main info strerror n) os [] = (r, h)"
  shows "disciplined h \<and> (r = Done 0 \<and> live h = live [] \<and> basic_end strerror h
    \<or> r = Stop Unfinished \<and> n \<le> callbacks h
    \<or> r = Stop (Fault Null_Deref) \<and> callbacks h = 0 \<and> \<not> complete_info info)"
proof (cases "complete_info info")
  case True
  define L :: law where "L = (\<lambda>h c a. a = os h c)"
  have L: "L h c a \<Longrightarrow> curl_env h c a" for h c a using assms(1) by (auto simp: L_def)
  have "holds L disciplined (still_calling n) (basic_main info strerror n)
      (\<lambda>r h. r = 0 \<and> live h = live [] \<and> basic_end strerror h) []"
    unfolding basic_main_def
    by (rule holds_pthen, rule holds_show_version [OF True])
      (auto intro!: holds_basic_start [OF L] dest: undisturbed_disciplined simp del: live.simps(1))
  from wp_holds [OF _ this, of os] assms(2) show ?thesis
    by (auto simp: L_def wp_def still_calling_def split: outcome.splits)
next
  case False
  then have "holds (\<lambda>_ _ _. True) disciplined (\<lambda>e h. e = Fault Null_Deref \<and> callbacks h = 0) (basic_main info strerror n) (\<lambda>_ _. False) []"
    by (auto simp: complete_info_def basic_main_def show_version_def print_string_def print_line_def pthen_def res_simps
        split: option.splits)
  from wp_holds [OF _ this, of os] False assms(2) show ?thesis by (auto simp: wp_def split: outcome.splits)
qed

text \<open>A library that delivers given pieces and then returns.\<close>

definition deliver_answer :: "int \<Rightarrow> bytes \<Rightarrow> answer" where
  "deliver_answer p b = (plain 0)\<lparr>a_errno := 1, a_ptr := p, a_flags := [1, int (length b)], a_buf := b\<rparr>"

definition curl_os :: "(int \<times> bytes) list \<Rightarrow> os" where
  "curl_os pieces h c = (if is_transfer c
     then (if callbacks h < length pieces then case_prod deliver_answer (pieces ! callbacks h)
       else (plain 0)\<lparr>a_flags := [0]\<rparr>)
     else sim_os [] h c)"

lemma curl_os_ok:
  assumes "\<forall>(p, b) \<in> set pieces. length b < 2 ^ 64"
  shows "curl_env h c (curl_os pieces h c)"
proof -
  have "curl_law c (deliver_answer p b)" if "(p, b) \<in> set pieces" for p b
    using assms that by (auto simp: curl_law_def deliver_answer_def callback_of_def unat_size)
  moreover have "curl_law c ((plain 0)\<lparr>a_flags := [0]\<rparr>)" by (simp add: curl_law_def callback_of_def)
  moreover have "curl_law c a" if "\<not> is_transfer c" for a using that by (simp add: curl_law_def)
  ultimately have "curl_law c (curl_os pieces h c)"
    by (auto simp: curl_os_def split: prod.split) (metis nth_mem)
  moreover have "answer_ok h c (curl_os pieces h c)" if "case c of Fgets n \<Rightarrow> 0 < n | _ \<Rightarrow> True"
    using that lawful_sim_os [of "[]", unfolded lawful_def, rule_format, of c h]
    by (cases c) (auto simp: curl_os_def is_transfer_def answer_ok_def res_simps)
  ultimately show "curl_env h c (curl_os pieces h c)" by (simp add: curl_env_def)
qed

theorem basic_curl_delivers_witness:
  "\<exists>h. run_proc (basic_main None (\<lambda>_. []) 3) (curl_os [(3, ''hello ''), (3, ''world'')]) [] = (Done 0, h)
    \<and> disciplined h \<and> live h = live [] \<and> basic_end (\<lambda>_. []) h"
proof -
  let ?run = "run_proc (basic_main None (\<lambda>_. []) 3) (curl_os [(3, ''hello ''), (3, ''world'')]) []"
  have "fst ?run = Done 0" by code_simp
  moreover have "curl_env h c (curl_os [(3, ''hello ''), (3, ''world'')] h c)" for h c by (rule curl_os_ok) simp
  from basic_curl_delivers [OF this prod.collapse [symmetric], of None "\<lambda>_. []" 3]
  have "disciplined (snd ?run) \<and> (fst ?run = Done 0 \<and> live (snd ?run) = live [] \<and> basic_end (\<lambda>_. []) (snd ?run)
    \<or> fst ?run = Stop Unfinished \<and> 3 \<le> callbacks (snd ?run)
    \<or> fst ?run = Stop (Fault Null_Deref) \<and> callbacks (snd ?run) = 0 \<and> \<not> complete_info None)" .
  ultimately show ?thesis by (metis outcome.distinct(1) prod.collapse)
qed

text \<open>A library without SSL or without zlib has NULL for the name of that part.\<close>

theorem missing_part_crashes:
  assumes "v_version i = Some v" and "v_ssl_version i = None"
  shows "outcome_of (run_proc (basic_main (Some i) strerror n)) os = Stop (Fault Null_Deref)"
  using assms
  by (simp add: outcome_of_def basic_main_def show_version_def print_string_def print_line_def run_pthen prog_defs Let_def)

end
