(* ===== verification/Curl_Threads.thy ===== *)
theory Curl_Threads
  imports Curl
begin

text \<open>
  \<open>01_networking_libraries/libcurl/src/curl_multithreaded.cpp\<close>: one thread for each address, every
  one with its own handle, its own data and its own file. The threads are processes of a
  system (theory \<open>Interleave\<close>), so that the properties hold in every interleaving of their
  calls. The handles are never cleaned up.
\<close>

section \<open>The program\<close>

record ProgressData =
  pd_url :: bytes
  lastProgress :: int

definition thread_data :: "bytes \<Rightarrow> size_t \<Rightarrow> size_t \<Rightarrow> bytes \<times> ProgressData \<Rightarrow> ((bytes \<times> ProgressData) \<times> size_t) option" where
  "thread_data ptr sz nmemb s =
     map_option (\<lambda>(str, taken). ((str, snd s), taken)) (perform_callback ptr sz nmemb (fst s))"

definition thread_progress :: "int \<Rightarrow> bytes \<times> ProgressData \<Rightarrow> (bytes \<times> ProgressData) process" where
  "thread_progress downloaded s = (case s of (data, progData) \<Rightarrow>
     if downloaded - lastProgress progData \<ge> 1024
     then pthen (print_line [''Download '', pd_url progData, '': '', show_double downloaded, '' bytes''])
       (Return (data, progData\<lparr>lastProgress := downloaded\<rparr>))
     else Return (data, progData))"

definition perform_request :: "(int \<Rightarrow> bytes) \<Rightarrow> nat \<Rightarrow> bytes \<Rightarrow> unit process" where
  "perform_request strerror n url = Do CurlEasyInit (\<lambda>i. let curl = a_ptr i in
     if curl \<noteq> 0
     then pthen (set_options curl [(CURLOPT_URL, url), (CURLOPT_FOLLOWLOCATION, ''1''),
         (CURLOPT_WRITEFUNCTION, ''perform_callback''), (CURLOPT_WRITEDATA, ''&data''), (CURLOPT_NOPROGRESS, ''0''),
         (CURLOPT_PROGRESSFUNCTION, ''perform_progress''), (CURLOPT_PROGRESSDATA, ''&progData'')])
       (pbind (transfer thread_data thread_progress n curl 0 ([], \<lparr>pd_url = url, lastProgress = 0\<rparr>)) (\<lambda>(res, data, progData).
          if res = CURLE_OK then write_page url data
          else print_error [''curl_easy_perform() failed: '', strerror res]))
     else Return ())"

definition urls :: "bytes list" where
  "urls = [''http://www.example.com'', ''http://www.google.com'', ''http://www.bing.com'', ''http://www.speedtest.net'']"

text \<open>The constructor of \<open>std::thread\<close> throws when no thread can be created.\<close>

fun start_threads :: "bytes list \<Rightarrow> unit process" where
  "start_threads [] = Return ()"
| "start_threads (url # rest) = Do (StdThread url) (\<lambda>t. if a_ret t \<noteq> 0 then Stopped Abort else start_threads rest)"

fun join_threads :: "nat \<Rightarrow> bytes list \<Rightarrow> unit process" where
  "join_threads i [] = Return ()"
| "join_threads i (t # rest) = Do (StdJoin (int i)) (\<lambda>_. join_threads (i + 1) rest)"

definition threads_main :: "int process" where
  "threads_main = Do CurlGlobalInit (\<lambda>_. pthen (start_threads urls) (pthen (join_threads 0 urls)
     (Do CurlGlobalCleanup (\<lambda>_. Return 0))))"

section \<open>One thread\<close>

interpretation page_thread: transfer_sink fst thread_data thread_progress
proof
  show "\<exists>s'. thread_data b 1 nmemb s = Some (s', nmemb) \<and> fst s' = fst s @ b" if "unat nmemb = length b" for nmemb b s
    using that by (simp add: thread_data_def perform_callback_def)
  show "only_prints (thread_progress d s) (\<lambda>s'. fst s' = fst s)" for d s
    by (cases s) (simp add: thread_progress_def print_line_def)
qed

definition owns :: "int \<Rightarrow> log \<Rightarrow> bool" where
  "owns p h \<longleftrightarrow> p \<noteq> 0 \<and> (\<exists>a. (CurlEasyInit, a) \<in> set h \<and> a_ptr a = p)"

lemma owns_mono [simp]: "owns p h \<Longrightarrow> owns p (e # h)"
  by (auto simp: owns_def)

text \<open>What a thread may call: it uses only its own handle, frees nothing, and writes to the file
  of its address exactly what a successful transfer has delivered to its handle.\<close>

fun page_ok :: "bytes \<Rightarrow> log \<Rightarrow> bool" where
  "page_ok url [] \<longleftrightarrow> True"
| "page_ok url ((c, a) # h) \<longleftrightarrow> page_ok url h \<and> (case c of
      FilePut f d \<Rightarrow> page_file url = Inr f \<and> (\<exists>p r b o' h1. h = (FileCreate f, o') # (CurlPerform p r, b) # h1
        \<and> a_ret o' \<noteq> 0 \<and> callback_of b = Returned CURLE_OK \<and> d = delivered p h1 \<and> owns p h1)
    | CurlSetOpt p _ _ \<Rightarrow> owns p h
    | CurlPerform p _ \<Rightarrow> owns p h
    | CurlEasyInit \<Rightarrow> True | Out _ \<Rightarrow> True | Err _ \<Rightarrow> True | FileCreate _ \<Rightarrow> True | FileClose _ \<Rightarrow> True
    | _ \<Rightarrow> False)"

lemma holds_write_page:
  assumes "page_file url = Inr f" and "page_ok url h" and "owns p h"
    and "callback_of b = Returned CURLE_OK" and "data = delivered p h"
  shows "holds L (page_ok url) E (write_page url data) (\<lambda>_ _. True) ((CurlPerform p r, b) # h)"
  using assms by (auto simp: write_page_def print_line_def)

lemma holds_page_options:
  assumes "owns p h" and "page_ok url h" and "delivered p h = []"
    and "\<And>h'. page_ok url h' \<and> owns p h' \<and> delivered p h' = [] \<Longrightarrow> Q () h'"
  shows "holds L (page_ok url) E (set_options p opts) Q h"
  using assms(1-3)
proof (induction opts arbitrary: h)
  case (Cons o' rest)
  then show ?case by (cases o') (auto simp: chunk_def intro!: Cons.IH split: callback.split)
qed (use assms(4) in auto)

lemma holds_perform_request:
  assumes "page_file url = Inr f"
  shows "holds (\<lambda>_. curl_law) (page_ok url) (\<lambda>s _. s = Unfinished) (perform_request strerror n url) (\<lambda>_ _. True) []"
proof -
  let ?H = "\<lambda>m. holds (\<lambda>_. curl_law) (page_ok url) (\<lambda>s _. s = Unfinished) m (\<lambda>_ _. True)"
  have rest: "?H (pbind (transfer thread_data thread_progress n p 0 ([], pd)) (\<lambda>(res, data, progData).
          if res = CURLE_OK then write_page url data
          else print_error [''curl_easy_perform() failed: '', strerror res])) h"
    if "page_ok url h \<and> owns p h \<and> delivered p h = []" for p pd h
    by (intro holds_pbind page_thread.holds_transfer [where J = "\<lambda>h. page_ok url h \<and> owns p h" and k = 0])
      (use that assms in \<open>auto intro!: holds_write_page simp: print_error_def\<close>)
  show ?thesis
    unfolding perform_request_def Let_def
    by (auto intro!: holds_pthen holds_page_options rest simp: owns_def chunk_def
        simp del: set_options.simps pbind_simps split: callback.split)
qed

text \<open>Main starts the threads in the order of the addresses, and calls nothing of a handle.\<close>

fun starts_only :: "log \<Rightarrow> bool" where
  "starts_only [] \<longleftrightarrow> True"
| "starts_only ((c, a) # h) \<longleftrightarrow> starts_only h \<and>
     (case c of StdThread _ \<Rightarrow> True | StdJoin _ \<Rightarrow> True | CurlGlobalInit \<Rightarrow> True | CurlGlobalCleanup \<Rightarrow> True | _ \<Rightarrow> False)"

definition main_ok :: "log \<Rightarrow> bool" where
  "main_ok h \<longleftrightarrow> starts_only h \<and> (\<exists>rest. urls = created h @ rest)"

lemma holds_start_threads:
  assumes "urls = created h @ us" and "starts_only h" and "\<And>h'. created h' = urls \<Longrightarrow> starts_only h' \<Longrightarrow> Q () h'"
    and "\<And>h. E Abort h"
  shows "holds L main_ok E (start_threads us) Q h"
  using assms(1,2)
proof (induction us arbitrary: h)
  case (Cons u us)
  then show ?case using assms(4) by (auto simp: main_ok_def)
qed (use assms(3) in \<open>auto simp: main_ok_def\<close>)

lemma holds_join_threads:
  "created h = urls \<Longrightarrow> starts_only h \<Longrightarrow> (\<And>h'. created h' = urls \<Longrightarrow> starts_only h' \<Longrightarrow> Q () h') \<Longrightarrow>
   holds L main_ok E (join_threads i us) Q h"
  by (induction us arbitrary: i h) (auto simp: main_ok_def)

lemma holds_threads_main: "holds L main_ok (\<lambda>s _. s = Abort) threads_main (\<lambda>r h. r = 0 \<and> created h = urls) []"
  unfolding threads_main_def
  by (auto intro!: holds_pthen holds_start_threads holds_join_threads simp: main_ok_def)

section \<open>All threads, in every interleaving\<close>

lemma url_pages:
  "map page_file urls = [Inr ''example.html'', Inr ''google.html'', Inr ''bing.html'', Inr ''speedtest.html'']"
  using page_file_named [of "''com''" "''example''"] page_file_named [of "''com''" "''google''"]
    page_file_named [of "''com''" "''bing''"] page_file_named [of "''net''" "''speedtest''"]
  by (simp add: urls_def)

lemma url_page: "i < 4 \<Longrightarrow> \<exists>f. page_file (urls ! i) = Inr f"
  using arg_cong [OF url_pages, of "\<lambda>l. l ! i"] by (auto simp: urls_def less_Suc_eq numeral_eq_Suc)

abbreviation (input) curl_system :: "(int \<Rightarrow> bytes) \<Rightarrow> nat \<Rightarrow> os \<Rightarrow> int system \<Rightarrow> bool" where
  "curl_system strerror n os s \<equiv> reaches (perform_request strerror n) os threads_main s"

lemma main_calls:
  assumes "curl_system strerror n os s"
  shows "main_ok (events_of 0 (trace s))"
  using main_holds [OF assms, of "\<lambda>_ _. True" main_ok "\<lambda>s _. s = Abort"] holds_threads_main holds_now by blast

lemma thread_url:
  assumes "curl_system strerror n os s" and "i < length (threads s)"
  shows "i < 4" and "created (events_of 0 (trace s)) ! i = urls ! i"
proof -
  obtain rest where u: "urls = created (events_of 0 (trace s)) @ rest" using main_calls [OF assms(1)] by (auto simp: main_ok_def)
  have l: "length (threads s) = length (created (events_of 0 (trace s)))"
    using reaches_replays [OF assms(1)] by (simp add: replays_def)
  with u assms(2) show "created (events_of 0 (trace s)) ! i = urls ! i" by (metis nth_append)
  have "length urls = 4" by (simp add: urls_def)
  with u l assms(2) show "i < 4" by (metis length_append trans_less_add1)
qed

lemma thread_calls:
  assumes "curl_system strerror n os s" and "\<And>h c. curl_law c (os h c)" and "i < length (threads s)"
  shows "page_ok (urls ! i) (events_of (Suc i) (trace s))" and "threads s ! i = Stopped e \<Longrightarrow> e = Unfinished"
proof -
  obtain f where "page_file (urls ! i) = Inr f" using url_page thread_url(1) [OF assms(1,3)] by blast
  from thread_holds [OF assms(1,3), where L = curl_law, OF assms(2)]
    holds_perform_request [OF this] thread_url(2) [OF assms(1,3)]
  have h: "holds (\<lambda>_. curl_law) (page_ok (urls ! i)) (\<lambda>s _. s = Unfinished) (threads s ! i) (\<lambda>_ _. True) (events_of (Suc i) (trace s))"
    by simp
  then show "page_ok (urls ! i) (events_of (Suc i) (trace s))" by (rule holds_now)
  show "e = Unfinished" if "threads s ! i = Stopped e" using h that by simp
qed

text \<open>Who made the last call, and that it is one that this process may make.\<close>

lemma last_call:
  assumes "curl_system strerror n os s" and "\<And>h c. curl_law c (os h c)" and "trace s = (j, c, a) # tr"
  obtains "j = 0" "starts_only [(c, a)]"
    | i where "j = Suc i" "i < length (threads s)" "page_ok (urls ! i) ((c, a) # events_of j tr)"
proof (cases j)
  case 0
  with main_calls [OF assms(1)] assms(3) that show ?thesis by (simp add: main_ok_def)
next
  case (Suc i)
  have "i < length (threads s)"
  proof (rule ccontr)
    assume "\<not> i < length (threads s)"
    then have "events_of (Suc i) (trace s) = []" using reaches_replays [OF assms(1)] by (simp add: replays_def)
    with Suc assms(3) show False by simp
  qed
  with Suc thread_calls(1) [OF assms(1,2)] assms(3) that show ?thesis by fastforce
qed

text \<open>The handles: every one that was handed out is still live, and belongs to one thread.\<close>

definition handles_ok :: "'a system \<Rightarrow> bool" where
  "handles_ok s \<longleftrightarrow> disciplined (calls s)
     \<and> (\<forall>j a. (j, CurlEasyInit, a) \<in> set (trace s) \<longrightarrow> a_ptr a \<noteq> 0 \<longrightarrow> Curl (a_ptr a) \<in> live (calls s))
     \<and> (\<forall>j a j' a'. (j, CurlEasyInit, a) \<in> set (trace s) \<longrightarrow> (j', CurlEasyInit, a') \<in> set (trace s) \<longrightarrow>
          a_ptr a = a_ptr a' \<longrightarrow> a_ptr a \<noteq> 0 \<longrightarrow> j = j')"

lemma owns_live:
  assumes "handles_ok s" and "owns p (events_of j (trace s))"
  shows "p \<noteq> 0" and "Curl p \<in> live (calls s)"
  using assms by (auto simp: owns_def handles_ok_def set_events_of)

text \<open>A call that its process may make keeps the handles.\<close>

lemma handles_step:
  assumes ok: "handles_ok s" and tr: "trace s' = (j, c, a) # trace s" and env: "answer_ok (calls s) c a \<or> c = Fgets n"
    and c: "starts_only [(c, a)] \<or> page_ok url ((c, a) # events_of j (trace s))"
  shows "handles_ok s'"
proof -
  have calls: "calls s' = (c, a) # calls s" by (simp add: calls_def tr)
  have needs: "needs c \<subseteq> live (calls s)"
    using c owns_live [OF ok, of _ j] by (cases c) (auto simp: needs_def)
  have kept: "Curl p \<in> live (calls s')" if "Curl p \<in> live (calls s)" for p
    using that c by (cases c) (auto simp: calls releases_def)
  have new: "Curl (a_ptr a) \<in> live (calls s') \<and> Curl (a_ptr a) \<notin> live (calls s)" if "c = CurlEasyInit" "a_ptr a \<noteq> 0"
    using that env by (auto simp: calls answer_ok_def acquires_def releases_def)
  have old: "Curl (a_ptr b) \<in> live (calls s)" if "(k, CurlEasyInit, b) \<in> set (trace s)" "a_ptr b \<noteq> 0" for k b
    using ok that by (auto simp: handles_ok_def)
  have "Curl (a_ptr b) \<in> live (calls s')" if "(k, CurlEasyInit, b) \<in> set (trace s')" "a_ptr b \<noteq> 0" for k b
    using that old kept new by (auto simp: tr)
  moreover have "k = k'" if "(k, CurlEasyInit, b) \<in> set (trace s')" "(k', CurlEasyInit, b') \<in> set (trace s')"
    "a_ptr b = a_ptr b'" "a_ptr b \<noteq> 0" for k b k' b'
  proof (cases "(k, CurlEasyInit, b) \<in> set (trace s) \<and> (k', CurlEasyInit, b') \<in> set (trace s)")
    case True
    with that ok show ?thesis unfolding handles_ok_def by blast
  next
    case False
    with that old [of k b] old [of k' b'] new show ?thesis by (auto simp: tr)
  qed
  moreover have "disciplined (calls s')" using ok needs by (simp add: calls handles_ok_def)
  ultimately show ?thesis unfolding handles_ok_def by blast
qed

lemma sys_step_trace: "sys_step body os s s' \<Longrightarrow> \<exists>j c. trace s' = (j, c, os (calls s) c) # trace s"
  by (induction rule: sys_step.induct) auto

lemma handles_kept:
  assumes "curl_system strerror n os s" and env: "\<And>h c. curl_env h c (os h c)"
  shows "handles_ok s"
  using assms(1)
proof induction
  case start
  show ?case by (simp add: handles_ok_def calls_def)
next
  case (onward s s')
  from sys_step_trace [OF onward.hyps(2)] obtain j c where tr: "trace s' = (j, c, os (calls s) c) # trace s" by blast
  have law: "\<And>h c. curl_law c (os h c)" using env by (simp add: curl_env_def)
  have s': "curl_system strerror n os s'" using onward.hyps by (rule reaches.onward)
  show ?case
  proof (rule handles_step [OF onward.IH tr])
    show "answer_ok (calls s) c (os (calls s) c) \<or> c = Fgets (case c of Fgets n \<Rightarrow> n)"
      using env [of "calls s" c] by (cases c) (auto simp: curl_env_def)
    show "starts_only [(c, os (calls s) c)] \<or>
        page_ok (urls ! (j - 1)) ((c, os (calls s) c) # events_of j (trace s))"
    proof (rule last_call [OF s' law tr])
      fix k
      assume "j = Suc k" "page_ok (urls ! k) ((c, os (calls s) c) # events_of j (trace s))"
      then show ?thesis by (simp only: diff_Suc_1) blast
    qed blast
  qed
qed

text \<open>
  C34: In every interleaving of the threads, for a library that keeps its documented law: no
  handle is used by two threads or after it was given back; a thread stops only where its
  library is still running; and what is written to a file is the page of its address, as it
  was delivered to the handle of the thread that asked for it, by a transfer that succeeded.
\<close>

theorem curl_threads_separate:
  assumes "curl_system strerror n os s" and "\<And>h c. curl_env h c (os h c)"
  shows "handles_ok s \<and> (\<forall>i < length (threads s). page_ok (urls ! i) (events_of (Suc i) (trace s))
    \<and> (\<forall>e. threads s ! i = Stopped e \<longrightarrow> e = Unfinished))"
  using handles_kept [OF assms] thread_calls [OF assms(1)] assms(2) by (auto simp: curl_env_def)

text \<open>A schedule: main starts two threads, which take turns.\<close>

definition two_threads :: "int system" where
  "two_threads = fold (turn (perform_request (\<lambda>_. []) 2) (curl_os [(3, ''hi'')]))
     ([0, 0, 0, 1, 2] @ concat (replicate 12 [1, 2])) \<lparr>trace = [], main_proc = threads_main, threads = []\<rparr>"

theorem curl_threads_separate_witness:
  "handles_ok two_threads \<and> length (threads two_threads) = 2
    \<and> (1, FilePut ''example.html'' ''hi'') \<in> set (map (\<lambda>(j, c, a). (j, c)) (trace two_threads))
    \<and> page_ok (urls ! 0) (events_of 1 (trace two_threads)) \<and> page_ok (urls ! 1) (events_of 2 (trace two_threads))"
proof -
  have sys: "curl_system (\<lambda>_. []) 2 (curl_os [(3, ''hi'')]) two_threads"
    unfolding two_threads_def by (intro reaches_schedule reaches.start)
  have run: "length (threads two_threads) = 2
    \<and> (1, FilePut ''example.html'' ''hi'') \<in> set (map (\<lambda>(j, c, a). (j, c)) (trace two_threads))" by code_simp
  have "curl_env h c (curl_os [(3, ''hi'')] h c)" for h c by (rule curl_os_ok) simp
  note all = curl_threads_separate [OF sys this]
  show ?thesis
    using run all all [THEN conjunct2, rule_format, of 0] all [THEN conjunct2, rule_format, of 1]
    by (simp add: numeral_2_eq_2 del: set_map)
qed

end
