(* ===== verification/Curl_Multi.thy ===== *)
theory Curl_Multi
  imports Curl_Threads
begin

text \<open>
  \<open>01_networking_libraries/libcurl/src/curl_multi_handle.cpp\<close>: the same pages in one thread, with
  one multi handle that drives a transfer for each address. The library calls back for any of
  the transfers, and the callback finds its own entry of the table by the pointer it was given.
\<close>

section \<open>The program\<close>

record CurlEasyHandle =
  easy_handle :: int
  handle_url :: bytes
  handle_data :: bytes

definition multi_data :: "bytes \<Rightarrow> size_t \<Rightarrow> size_t \<Rightarrow> CurlEasyHandle \<Rightarrow> (CurlEasyHandle \<times> size_t) option" where
  "multi_data ptr sz nmemb x =
     map_option (\<lambda>(str, taken). (x\<lparr>handle_data := str\<rparr>, taken)) (perform_callback ptr sz nmemb (handle_data x))"

definition multi_progress :: "int \<Rightarrow> CurlEasyHandle \<Rightarrow> CurlEasyHandle process" where
  "multi_progress downloaded x =
     pthen (print_line [''Downloaded '', handle_url x, '': '', show_double downloaded, '' bytes'']) (Return x)"

text \<open>What \<open>curl_multi_perform\<close> stores in \<open>running_status\<close>\<close>

definition running :: "answer \<Rightarrow> int" where
  "running a = (case a_flags a of [r] \<Rightarrow> r | _ \<Rightarrow> 0)"

text \<open>\<open>curl_multi_perform\<close>: a callback is for the entry whose handle the library names.\<close>

primrec multi_perform :: "nat \<Rightarrow> int \<Rightarrow> size_t \<Rightarrow> CurlEasyHandle list \<Rightarrow> (int \<times> int \<times> CurlEasyHandle list) process" where
  "multi_perform 0 m r xs = Stopped Unfinished"
| "multi_perform (Suc n) m r xs = Do (CurlMultiPerform m r) (\<lambda>a. case callback_of a of
       Returned rc \<Rightarrow> Return (rc, running a, xs)
     | Deliver sz nmemb b \<Rightarrow> (case first_index (\<lambda>x. easy_handle x = a_ptr a) xs of
           None \<Rightarrow> Stopped (Fault Out_Of_Bounds)
         | Some i \<Rightarrow> (case multi_data b sz nmemb (xs ! i) of
             None \<Rightarrow> Stopped (Fault Out_Of_Bounds)
           | Some (x, taken) \<Rightarrow> multi_perform n m taken (xs[i := x])))
     | Progressed d \<Rightarrow> (case first_index (\<lambda>x. easy_handle x = a_ptr a) xs of
           None \<Rightarrow> Stopped (Fault Out_Of_Bounds)
         | Some i \<Rightarrow> pbind (multi_progress d (xs ! i)) (\<lambda>x. multi_perform n m 0 (xs[i := x]))))"

definition handle_options :: "bytes \<Rightarrow> (int \<times> bytes) list" where
  "handle_options url = [(CURLOPT_URL, url), (CURLOPT_WRITEFUNCTION, ''perform_callback''),
     (CURLOPT_WRITEDATA, ''&easy_handles[i].data''), (CURLOPT_NOPROGRESS, ''0''),
     (CURLOPT_PROGRESSFUNCTION, ''perform_progress''), (CURLOPT_PROGRESSDATA, ''&easy_handles[i]'')]"

text \<open>The first loop; a NULL handle is not noticed.\<close>

fun add_handles :: "int \<Rightarrow> bytes list \<Rightarrow> CurlEasyHandle list \<Rightarrow> CurlEasyHandle list process" where
  "add_handles m [] xs = Return xs"
| "add_handles m (url # rest) xs = Do CurlEasyInit (\<lambda>i. pthen (set_options (a_ptr i) (handle_options url))
     (Do (CurlMultiAdd m (a_ptr i)) (\<lambda>_.
      add_handles m rest (xs @ [\<lparr>easy_handle = a_ptr i, handle_url = url, handle_data = []\<rparr>]))))"

text \<open>One round of the \<open>do\<close> loop\<close>

definition multi_round :: "nat \<Rightarrow> int \<Rightarrow> CurlEasyHandle list \<Rightarrow> (CurlEasyHandle list, CurlEasyHandle list) iter process" where
  "multi_round n m xs = pbind (multi_perform n m 0 xs) (\<lambda>(rc, running_status, xs).
     pbind (if rc = 0 then Do (CurlMultiWait m 1000) (\<lambda>w. Return (a_ret w)) else Return rc) (\<lambda>rc.
     if rc \<noteq> 0 then pthen (print_error [''curl_multi failed, code '', dec rc]) (Return (Leave xs))
     else Return (if running_status \<noteq> 0 then Again xs else Leave xs)))"

text \<open>The last loop\<close>

fun finish_handles :: "int \<Rightarrow> CurlEasyHandle list \<Rightarrow> unit process" where
  "finish_handles m [] = Return ()"
| "finish_handles m (x # rest) = pthen (write_page (handle_url x) (handle_data x))
     (Do (CurlMultiRemove m (easy_handle x)) (\<lambda>_. Do (CurlEasyCleanup (easy_handle x)) (\<lambda>_. finish_handles m rest)))"

definition multi_main :: "nat \<Rightarrow> int process" where
  "multi_main n = Do CurlGlobalInit (\<lambda>_. Do CurlMultiInit (\<lambda>i. let curl_multi = a_ptr i in
     pbind (add_handles curl_multi urls []) (\<lambda>xs.
     pbind (multi_perform n curl_multi 0 xs) (\<lambda>(rc, running_status, xs).
     pbind (ploop n (multi_round n curl_multi) xs) (\<lambda>xs.
     pthen (finish_handles curl_multi xs) (Do (CurlMultiCleanup curl_multi) (\<lambda>_.
     Do CurlGlobalCleanup (\<lambda>_. Return 0))))))))"

section \<open>The callbacks\<close>

interpretation multi: transfer_sink handle_data multi_data multi_progress
proof
  show "\<exists>s'. multi_data b 1 nmemb s = Some (s', nmemb) \<and> handle_data s' = handle_data s @ b" if "unat nmemb = length b" for nmemb b s
    using that by (simp add: multi_data_def perform_callback_def)
  show "only_prints (multi_progress d s) (\<lambda>s'. handle_data s' = handle_data s)" for d s
    by (simp add: multi_progress_def print_line_def)
qed

lemma multi_data_same:
  "multi_data b sz nmemb x = Some (x', taken) \<Longrightarrow> easy_handle x' = easy_handle x \<and> handle_url x' = handle_url x"
  by (auto simp: multi_data_def)

section \<open>The law of the multi handle\<close>

text \<open>A callback is for a handle that was added.\<close>

definition multi_env :: law where
  "multi_env h c a \<longleftrightarrow> curl_env h c a \<and> (case c of
      CurlMultiPerform m _ \<Rightarrow> (\<exists>rc. callback_of a = Returned rc)
        \<or> (a_ptr a \<noteq> 0 \<and> (\<exists>b. (CurlMultiAdd m (a_ptr a), b) \<in> set h))
    | _ \<Rightarrow> True)"

section \<open>The table\<close>

text \<open>Every write is of a page, and is what was delivered to the handle that has its address.\<close>

fun writes_ok :: "log \<Rightarrow> bool" where
  "writes_ok [] \<longleftrightarrow> True"
| "writes_ok ((c, a) # h) \<longleftrightarrow> writes_ok h \<and> (case c of
      FilePut f d \<Rightarrow> (\<exists>p url b. url \<in> set urls \<and> page_file url = Inr f \<and> (CurlSetOpt p CURLOPT_URL url, b) \<in> set h
        \<and> d = delivered p h)
    | _ \<Rightarrow> True)"

definition entry_ok :: "log \<Rightarrow> CurlEasyHandle \<Rightarrow> bool" where
  "entry_ok h x \<longleftrightarrow> handle_data x = delivered (easy_handle x) h \<and> handle_url x \<in> set urls
     \<and> (\<exists>a. (CurlSetOpt (easy_handle x) CURLOPT_URL (handle_url x), a) \<in> set h)"

definition handles :: "CurlEasyHandle list \<Rightarrow> int list" where
  "handles xs = filter (\<lambda>p. p \<noteq> 0) (map easy_handle xs)"

definition multi_res :: "int \<Rightarrow> res set" where
  "multi_res m = (if m = 0 then {} else {Multi m})"

definition table_ok :: "int \<Rightarrow> CurlEasyHandle list \<Rightarrow> log \<Rightarrow> bool" where
  "table_ok m xs h \<longleftrightarrow> live h = live [] \<union> multi_res m \<union> Curl ` set (handles xs) \<and> disciplined h \<and> writes_ok h
     \<and> (\<forall>x \<in> set xs. entry_ok h x) \<and> distinct (handles xs)"

definition added_ok :: "int \<Rightarrow> CurlEasyHandle list \<Rightarrow> log \<Rightarrow> bool" where
  "added_ok m xs h \<longleftrightarrow> (\<forall>p a. (CurlMultiAdd m p, a) \<in> set h \<longrightarrow> p \<noteq> 0 \<longrightarrow> p \<in> set (handles xs))"

definition harmless :: "call \<Rightarrow> bool" where
  "harmless c \<longleftrightarrow> (case c of Out _ \<Rightarrow> True | Err _ \<Rightarrow> True | FileCreate _ \<Rightarrow> True | FileClose _ \<Rightarrow> True
     | CurlMultiWait _ _ \<Rightarrow> True | CurlMultiRemove _ _ \<Rightarrow> True | CurlSetOpt _ _ _ \<Rightarrow> True | CurlMultiAdd _ _ \<Rightarrow> True
     | CurlGlobalInit \<Rightarrow> True | CurlGlobalCleanup \<Rightarrow> True | _ \<Rightarrow> False)"

lemma chunk_other: "\<not> is_transfer c \<Longrightarrow> chunk p (c, a) = []"
  by (auto simp: chunk_def is_transfer_def split: callback.split call.splits)

lemma harmless_simps [simp]:
  "harmless (Out t)" "harmless (Err t)" "harmless (FileCreate f)" "harmless (FileClose f)" "harmless (CurlMultiWait m d)"
  "harmless (CurlMultiRemove m p)" "harmless (CurlSetOpt p opt val)" "harmless (CurlMultiAdd m p)"
  "harmless CurlGlobalInit" "harmless CurlGlobalCleanup"
  by (simp_all add: harmless_def)

lemma harmless_call:
  assumes "harmless c"
  shows "live ((c, a) # h) = live h" "callbacks ((c, a) # h) = callbacks h" "delivered p ((c, a) # h) = delivered p h"
    "writes_ok ((c, a) # h) = writes_ok h"
  using assms by (cases c; simp add: harmless_def res_simps chunk_def is_transfer_def split: callback.split)+

lemma entry_ok_mono: "entry_ok h x \<Longrightarrow> chunk (easy_handle x) e = [] \<Longrightarrow> entry_ok (e # h) x"
  by (auto simp: entry_ok_def)

lemma table_harmless:
  assumes "table_ok m xs h" and "harmless c" and "needs c \<subseteq> live h"
  shows "table_ok m xs ((c, a) # h)"
proof -
  have "chunk p (c, a) = []" for p using assms(2) by (intro chunk_other) (cases c; simp add: harmless_def is_transfer_def)
  with assms harmless_call [OF assms(2), where a = a and h = h] show ?thesis
    by (auto simp: table_ok_def intro: entry_ok_mono simp del: live.simps)
qed

lemma added_other: "added_ok m xs h \<Longrightarrow> (\<And>q. c \<noteq> CurlMultiAdd m q) \<Longrightarrow> added_ok m xs ((c, a) # h)"
  by (auto simp: added_ok_def)

text \<open>The library calls back for an entry, and the entry is replaced by one with the same handle
  and address.\<close>

lemma entry_found:
  assumes "multi_env h (CurlMultiPerform m r) a" and "\<nexists>rc. callback_of a = Returned rc" and "added_ok m xs h"
  obtains i where "first_index (\<lambda>x. easy_handle x = a_ptr a) xs = Some i" "i < length xs" "easy_handle (xs ! i) = a_ptr a" "a_ptr a \<noteq> 0"
proof -
  from assms have "a_ptr a \<noteq> 0" "a_ptr a \<in> set (handles xs)" by (auto simp: multi_env_def added_ok_def)
  then obtain x where "x \<in> set xs" "easy_handle x = a_ptr a" by (auto simp: handles_def)
  then obtain i where "first_index (\<lambda>x. easy_handle x = a_ptr a) xs = Some i"
    using first_index_exists [of x xs "\<lambda>x. easy_handle x = a_ptr a"] by blast
  with first_index_Some [OF this] \<open>a_ptr a \<noteq> 0\<close> that show ?thesis by blast
qed

lemma handles_update: "i < length xs \<Longrightarrow> easy_handle x = easy_handle (xs ! i) \<Longrightarrow> handles (xs[i := x]) = handles xs"
proof -
  assume "i < length xs" "easy_handle x = easy_handle (xs ! i)"
  then have "map easy_handle (xs[i := x]) = map easy_handle xs" by (simp add: map_update list_update_same_conv)
  then show ?thesis by (simp add: handles_def)
qed

text \<open>Two entries with the same handle are the same entry.\<close>

lemma handle_once:
  assumes "distinct (handles xs)" and "i < length xs" and "j < length xs"
    and "easy_handle (xs ! i) = easy_handle (xs ! j)" and "easy_handle (xs ! i) \<noteq> 0"
  shows "i = j"
  using assms
proof (induction xs arbitrary: i j)
  case (Cons x xs)
  have "easy_handle y \<in> set (handles xs)" if "y \<in> set xs" "easy_handle y \<noteq> 0" for y using that by (auto simp: handles_def)
  moreover have "distinct (handles xs)" "easy_handle x \<noteq> 0 \<Longrightarrow> easy_handle x \<notin> set (handles xs)"
    using Cons.prems(1) by (auto simp: handles_def split: if_splits)
  ultimately show ?case using Cons by (cases i; cases j) (auto, metis nth_mem)
qed simp

lemma table_deliver:
  assumes t: "table_ok m xs h" "added_ok m xs h" and i: "i < length xs" "easy_handle (xs ! i) = a_ptr a" "a_ptr a \<noteq> 0"
    and x: "easy_handle x = a_ptr a" "handle_url x = handle_url (xs ! i)"
      "handle_data x = handle_data (xs ! i) @ chunk (a_ptr a) (CurlMultiPerform m r, a)"
  shows "table_ok m (xs[i := x]) ((CurlMultiPerform m r, a) # h)" and "added_ok m (xs[i := x]) ((CurlMultiPerform m r, a) # h)"
proof -
  let ?h = "(CurlMultiPerform m r, a) # h"
  have hs: "handles (xs[i := x]) = handles xs" using i x by (intro handles_update) simp_all
  have "entry_ok ?h y" if y: "y \<in> set (xs[i := x])" for y
  proof -
    from y obtain j where j: "j < length xs" "y = xs[i := x] ! j" by (auto simp: in_set_conv_nth)
    have old: "entry_ok h (xs ! j)" "entry_ok h (xs ! i)" using t(1) j i by (auto simp: table_ok_def)
    show ?thesis
    proof (cases "j = i")
      case True
      with j i x old show ?thesis by (auto simp: entry_ok_def)
    next
      case False
      with handle_once [of xs i j] t(1) i j have "easy_handle (xs ! j) \<noteq> a_ptr a" by (auto simp: table_ok_def)
      then have "chunk (easy_handle (xs ! j)) (CurlMultiPerform m r, a) = []" by (auto simp: chunk_def split: callback.split)
      with False j old show ?thesis by (auto intro: entry_ok_mono)
    qed
  qed
  moreover have "live ?h = live h" "needs (CurlMultiPerform m r) \<subseteq> live h"
    using t(1) by (auto simp: table_ok_def multi_res_def res_simps)
  ultimately show "table_ok m (xs[i := x]) ?h" using t(1) by (simp add: table_ok_def hs del: live.simps)
  show "added_ok m (xs[i := x]) ?h" using t(2) by (simp add: added_ok_def hs)
qed

section \<open>The transfers\<close>

text \<open>Both invariants, and the fuel that is left: once \<open>N\<close> callbacks have been made it may be spent.\<close>

definition multi_inv :: "nat \<Rightarrow> int \<Rightarrow> nat \<Rightarrow> CurlEasyHandle list \<Rightarrow> log \<Rightarrow> bool" where
  "multi_inv N m n xs h \<longleftrightarrow> table_ok m xs h \<and> added_ok m xs h \<and> N \<le> n + callbacks h"

lemma multi_inv_print:
  "multi_inv N m n xs h \<Longrightarrow> multi_inv N m n xs ((Out t, a) # h)"
  by (auto simp: multi_inv_def needs_def intro!: table_harmless added_other)

text \<open>A call that returns changes nothing.\<close>

lemma table_returned:
  assumes "table_ok m xs h" and "added_ok m xs h" and "callback_of a = Returned rc"
  shows "table_ok m xs ((CurlMultiPerform m r, a) # h)" and "added_ok m xs ((CurlMultiPerform m r, a) # h)"
proof -
  have "live ((CurlMultiPerform m r, a) # h) = live h" "needs (CurlMultiPerform m r) \<subseteq> live h"
    using assms(1) by (auto simp: table_ok_def multi_res_def res_simps)
  then show "table_ok m xs ((CurlMultiPerform m r, a) # h)" "added_ok m xs ((CurlMultiPerform m r, a) # h)"
    using assms by (auto simp: table_ok_def added_ok_def chunk_def intro: entry_ok_mono)
qed

lemma holds_multi_perform:
  assumes law: "\<And>h c a. L h c a \<Longrightarrow> multi_env h c a"
    and post: "\<And>rc run xs' h'. table_ok m xs' h' \<Longrightarrow> added_ok m xs' h' \<Longrightarrow> base < callbacks h' \<Longrightarrow> Q (rc, run, xs') h'"
    and "multi_inv N m n xs h" and "base \<le> callbacks h"
  shows "holds L disciplined (still_calling N) (multi_perform n m r xs) Q h"
  using assms(3,4)
proof (induction n arbitrary: r xs h)
  case 0
  then show ?case by (simp add: multi_inv_def still_calling_def table_ok_def)
next
  case (Suc n)
  let ?c = "CurlMultiPerform m r"
  have t: "table_ok m xs h" "added_ok m xs h" using Suc.prems by (simp_all add: multi_inv_def)
  have "holds L disciplined (still_calling N) (case callback_of a of
       Returned rc \<Rightarrow> Return (rc, running a, xs)
     | Deliver sz nmemb b \<Rightarrow> (case first_index (\<lambda>x. easy_handle x = a_ptr a) xs of
           None \<Rightarrow> Stopped (Fault Out_Of_Bounds)
         | Some i \<Rightarrow> (case multi_data b sz nmemb (xs ! i) of
             None \<Rightarrow> Stopped (Fault Out_Of_Bounds)
           | Some (x, taken) \<Rightarrow> multi_perform n m taken (xs[i := x])))
     | Progressed d \<Rightarrow> (case first_index (\<lambda>x. easy_handle x = a_ptr a) xs of
           None \<Rightarrow> Stopped (Fault Out_Of_Bounds)
         | Some i \<Rightarrow> pbind (multi_progress d (xs ! i)) (\<lambda>x. multi_perform n m 0 (xs[i := x])))) Q ((?c, a) # h)"
    if a: "L h ?c a" for a
  proof (cases "\<exists>rc. callback_of a = Returned rc")
    case True
    then obtain rc where rc: "callback_of a = Returned rc" ..
    with table_returned [OF t rc, of r] show ?thesis using Suc.prems(2) by (auto simp: table_ok_def intro!: post)
  next
    case False
    obtain i where i: "first_index (\<lambda>x. easy_handle x = a_ptr a) xs = Some i" "i < length xs"
      "easy_handle (xs ! i) = a_ptr a" "a_ptr a \<noteq> 0"
      by (rule entry_found [OF law [OF a] False t(2)])
    have next_inv: "multi_inv N m n (xs[i := x]) ((?c, a) # h)"
      if "easy_handle x = a_ptr a" "handle_url x = handle_url (xs ! i)" "handle_data x = handle_data (xs ! i) @ chunk (a_ptr a) (?c, a)" for x
      using table_deliver [OF t i(2-4) that] Suc.prems(1) by (simp add: multi_inv_def)
    show ?thesis
    proof (cases "callback_of a")
      case (Deliver sz nmemb b)
      then have n: "sz = 1" "unat nmemb = length b" using law [OF a] by (simp_all add: multi_env_def curl_env_def curl_law_def)
      from multi.data_kept [OF n(2), of "xs ! i"] obtain x where
        x: "multi_data b 1 nmemb (xs ! i) = Some (x, nmemb)" "handle_data x = handle_data (xs ! i) @ b" by blast
      have "multi_inv N m n (xs[i := x]) ((?c, a) # h)"
        using multi_data_same [OF x(1)] x(2) i Deliver by (intro next_inv) (simp_all add: chunk_def)
      with Deliver i x n show ?thesis by (simp add: Suc.IH Suc.prems(2) le_SucI)
    next
      case (Progressed d)
      then have "multi_inv N m n (xs[i := xs ! i]) ((?c, a) # h)" using i by (intro next_inv) (simp_all add: chunk_def)
      then have inv: "multi_inv N m n xs ((?c, a) # h)" by simp
      have "holds L disciplined (still_calling N) (multi_perform n m 0 xs) Q ((Out t, b) # (?c, a) # h)" for t b
        by (rule Suc.IH [OF multi_inv_print [OF inv]]) (simp add: Suc.prems(2) le_SucI)
      moreover have "disciplined ((?c, a) # h)" using inv by (simp add: multi_inv_def table_ok_def)
      ultimately show ?thesis using Progressed i by (simp add: multi_progress_def print_line_def)
    qed (use False in auto)
  qed
  then show ?case using t(1) by (simp add: table_ok_def)
qed

section \<open>The whole program\<close>

text \<open>The setting up: nothing is delivered before the first transfer.\<close>

lemma no_callbacks: "callbacks h = 0 \<Longrightarrow> delivered p h = []"
  by (induction h) (auto simp: chunk_other split: if_splits)

lemma table_add:
  assumes t: "table_ok m xs h" "added_ok m xs h" "callbacks h = 0" and i: "curl_env h CurlEasyInit i" and u: "url \<in> set urls"
    and h': "undisturbed ((CurlEasyInit, i) # h) h'" "(CurlSetOpt (a_ptr i) CURLOPT_URL url, b) \<in> set h'"
      "set h \<subseteq> set h'" "writes_ok h'" "\<And>p a. (CurlMultiAdd m p, a) \<in> set h' \<Longrightarrow> (CurlMultiAdd m p, a) \<in> set h"
  defines "x \<equiv> \<lparr>easy_handle = a_ptr i, handle_url = url, handle_data = []\<rparr>"
  shows "table_ok m (xs @ [x]) ((CurlMultiAdd m (a_ptr i), a) # h')" and "added_ok m (xs @ [x]) ((CurlMultiAdd m (a_ptr i), a) # h')"
    and "callbacks ((CurlMultiAdd m (a_ptr i), a) # h') = 0"
proof -
  let ?h = "(CurlMultiAdd m (a_ptr i), a) # h'"
  have l: "live h' = live h \<union> (if a_ptr i = 0 then {} else {Curl (a_ptr i)})" "disciplined h'" "callbacks h' = 0"
    using h'(1) t(3) by (auto simp: undisturbed_def same_resources_def res_simps)
  have fresh: "a_ptr i \<noteq> 0 \<Longrightarrow> a_ptr i \<notin> set (handles xs)"
    using i t(1) by (auto simp: curl_env_def answer_ok_def res_simps table_ok_def)
  have none: "delivered p ?h = []" for p using no_callbacks [OF l(3)] by (simp add: chunk_other is_transfer_def)
  have "entry_ok ?h y" if "y \<in> set xs" for y
  proof -
    from that t(1) have "entry_ok h y" by (simp add: table_ok_def)
    with none h'(3) no_callbacks [OF t(3)] show ?thesis unfolding entry_ok_def by (metis list.set_intros(2) subset_code(1))
  qed
  moreover have "entry_ok ?h x" using none h'(2) u by (auto simp: entry_ok_def x_def)
  ultimately have "entry_ok ?h y" if "y \<in> set (xs @ [x])" for y using that by auto
  then show "table_ok m (xs @ [x]) ?h"
    using t(1) l fresh h'(4) by (auto simp: table_ok_def handles_def x_def multi_res_def res_simps)
  show "added_ok m (xs @ [x]) ?h"
    unfolding added_ok_def
  proof (intro allI impI)
    fix p b
    assume "(CurlMultiAdd m p, b) \<in> set ?h" and p: "p \<noteq> 0"
    then have "p = a_ptr i \<or> (CurlMultiAdd m p, b) \<in> set h" using h'(5) by auto
    then show "p \<in> set (handles (xs @ [x]))" using t(2) p by (auto simp: added_ok_def handles_def x_def)
  qed
  show "callbacks ?h = 0" using l(3) by (simp add: is_transfer_def)
qed

text \<open>The options are recorded, and nothing else happens.\<close>

lemma holds_options_recorded:
  assumes "p = 0 \<or> Curl p \<in> live h" and "disciplined h"
    and "\<And>evs. \<forall>e \<in> set evs. \<exists>opt val a. e = (CurlSetOpt p opt val, a) \<Longrightarrow>
      \<forall>(opt, val) \<in> set opts. \<exists>b. (CurlSetOpt p opt val, b) \<in> set evs \<Longrightarrow> Q () (evs @ h)"
  shows "holds L disciplined E (set_options p opts) Q h"
  using assms
proof (induction opts arbitrary: h)
  case Nil
  from Nil(3) [of "[]"] Nil(2) show ?case by simp
next
  case (Cons o' opts)
  obtain opt val where o': "o' = (opt, val)" by (cases o')
  have "holds L disciplined E (set_options p opts) Q ((CurlSetOpt p opt val, a) # h)" for a
  proof (rule Cons.IH)
    fix evs :: log
    assume "\<forall>e \<in> set evs. \<exists>opt val a. e = (CurlSetOpt p opt val, a)"
      and "\<forall>(opt, val) \<in> set opts. \<exists>b. (CurlSetOpt p opt val, b) \<in> set evs"
    then show "Q () (evs @ (CurlSetOpt p opt val, a) # h)"
      using Cons.prems(3) [of "evs @ [(CurlSetOpt p opt val, a)]"] by (fastforce simp: o')
  qed (use Cons.prems in \<open>auto simp: res_simps\<close>)
  with Cons.prems(2) show ?case by (simp add: o')
qed

lemma options_quiet:
  "\<forall>e \<in> set evs. \<exists>opt val a. e = (CurlSetOpt p opt val, a) \<Longrightarrow> p = 0 \<or> Curl p \<in> live h \<Longrightarrow> disciplined h \<Longrightarrow>
   undisturbed h (evs @ h) \<and> (writes_ok (evs @ h) \<longleftrightarrow> writes_ok h)"
  by (induction evs) (auto intro: undisturbed_refl undisturbed_steps)

lemma holds_add_handles:
  assumes law: "\<And>h c a. L h c a \<Longrightarrow> multi_env h c a"
    and post: "\<And>xs h. table_ok m xs h \<Longrightarrow> added_ok m xs h \<Longrightarrow> callbacks h = 0 \<Longrightarrow> Q xs h"
    and "table_ok m xs h" and "added_ok m xs h" and "callbacks h = 0" and "set us \<subseteq> set urls"
  shows "holds L disciplined E (add_handles m us xs) Q h"
  using assms(3-6)
proof (induction us arbitrary: xs h)
  case Nil
  then show ?case by (simp add: post table_ok_def)
next
  case (Cons url us)
  have "holds L disciplined E (pthen (set_options (a_ptr i) (handle_options url)) (Do (CurlMultiAdd m (a_ptr i)) (\<lambda>_.
      add_handles m us (xs @ [\<lparr>easy_handle = a_ptr i, handle_url = url, handle_data = []\<rparr>])))) Q ((CurlEasyInit, i) # h)"
    if i: "L h CurlEasyInit i" for i
  proof (rule holds_pthen)
    let ?h = "(CurlEasyInit, i) # h" and ?p = "a_ptr i"
    have env: "curl_env h CurlEasyInit i" using law [OF i] by (simp add: multi_env_def)
    have live: "?p = 0 \<or> Curl ?p \<in> live ?h" "disciplined ?h" using Cons.prems(1) by (auto simp: table_ok_def res_simps)
    have step: "holds L disciplined E (Do (CurlMultiAdd m ?p) (\<lambda>_.
        add_handles m us (xs @ [\<lparr>easy_handle = ?p, handle_url = url, handle_data = []\<rparr>]))) Q h'"
      if h': "undisturbed ?h h'" "\<exists>b. (CurlSetOpt ?p CURLOPT_URL url, b) \<in> set h'"
        "set h \<subseteq> set h'" "writes_ok h'" "\<And>p a. (CurlMultiAdd m p, a) \<in> set h' \<Longrightarrow> (CurlMultiAdd m p, a) \<in> set h" for h'
    proof -
      from h'(2) obtain b where b: "(CurlSetOpt ?p CURLOPT_URL url, b) \<in> set h'" ..
      have "url \<in> set urls" "set us \<subseteq> set urls" using Cons.prems(4) by auto
      note add = table_add [OF Cons.prems(1-3) env this(1) h'(1) b h'(3-5)]
      have "disciplined h'" by (rule undisturbed_disciplined [OF h'(1)])
      with Cons.IH [OF add \<open>set us \<subseteq> set urls\<close>] show ?thesis by simp
    qed
    show "holds L disciplined E (set_options ?p (handle_options url)) (\<lambda>_. holds L disciplined E (Do (CurlMultiAdd m ?p) (\<lambda>_.
        add_handles m us (xs @ [\<lparr>easy_handle = ?p, handle_url = url, handle_data = []\<rparr>]))) Q) ?h"
    proof (rule holds_options_recorded [OF live], rule step, goal_cases)
      case (1 evs)
      with options_quiet [OF 1(1) live] show ?case by simp
    next
      case (4 evs)
      with options_quiet [OF 4(1) live] Cons.prems(1) show ?case by (simp add: table_ok_def)
    next
      case (5 evs p a)
      from 5(3) show ?case using 5(1) by auto
    qed (auto simp: handle_options_def)
  qed
  then show ?case using Cons.prems(1) by (simp add: table_ok_def)
qed

text \<open>A round asks the library once at least.\<close>

lemma needs_multi: "table_ok m xs h \<Longrightarrow> needs (CurlMultiWait m d) \<subseteq> live h"
  by (auto simp: table_ok_def needs_def multi_res_def)

lemma table_wait:
  assumes "table_ok m xs h" and "added_ok m xs h"
  shows "table_ok m xs ((CurlMultiWait m d, w) # h) \<and> added_ok m xs ((CurlMultiWait m d, w) # h)"
    and "table_ok m xs ((Err t, w) # h) \<and> added_ok m xs ((Err t, w) # h)"
  using assms(2) needs_multi [OF assms(1)]
  by (auto intro!: table_harmless [OF assms(1)] added_other) (simp add: needs_def)

lemma table_disciplined: "table_ok m xs h \<and> added_ok m xs h \<Longrightarrow> disciplined h"
  by (simp add: table_ok_def)

lemma holds_multi_round:
  assumes law: "\<And>h c a. L h c a \<Longrightarrow> multi_env h c a" and inv: "table_ok m xs h \<and> added_ok m xs h"
    and again: "\<And>xs h'. table_ok m xs h' \<and> added_ok m xs h' \<Longrightarrow> callbacks h < callbacks h' \<Longrightarrow> Q (Again xs) h'"
    and leave: "\<And>xs h'. table_ok m xs h' \<and> added_ok m xs h' \<Longrightarrow> Q (Leave xs) h'"
  shows "holds L disciplined (still_calling n) (multi_round n m xs) Q h"
  unfolding multi_round_def
proof (rule holds_pbind, rule holds_multi_perform [OF law _ _ order.refl], goal_cases)
  case (2 rc run xs' h')
  have t: "table_ok m xs' h' \<and> added_ok m xs' h'" using 2 by simp
  have w: "table_ok m xs' ((CurlMultiWait m 1000, a) # h') \<and> added_ok m xs' ((CurlMultiWait m 1000, a) # h')" for a
    using t table_wait by blast
  have failed: "holds L disciplined (still_calling n) (pthen (print_error ps) (Return (Leave xs'))) Q h''"
    if "table_ok m xs' h'' \<and> added_ok m xs' h''" for ps h''
  proof -
    have e: "table_ok m xs' ((Err t, a) # h'') \<and> added_ok m xs' ((Err t, a) # h'')" for t a using that table_wait(2) by blast
    show ?thesis using table_disciplined [OF that] table_disciplined [OF e] leave [OF e]
      by (simp add: print_error_def del: disciplined.simps(2))
  qed
  have over: "holds L disciplined (still_calling n) (Return (if run \<noteq> 0 then Again xs' else Leave xs')) Q ((CurlMultiWait m 1000, a) # h')" for a
    using 2(3) w [of a] table_disciplined [OF w [of a]] by (auto intro!: again leave simp: is_transfer_def simp del: disciplined.simps(2))
  show ?case
    using failed [OF t] failed [OF w] over table_disciplined [OF t] by (auto simp del: disciplined.simps(2))
qed (use inv in \<open>auto simp: multi_inv_def\<close>)

lemma holds_multi_loop:
  assumes law: "\<And>h c a. L h c a \<Longrightarrow> multi_env h c a" and inv: "table_ok m xs h \<and> added_ok m xs h"
    and post: "\<And>xs h'. table_ok m xs h' \<and> added_ok m xs h' \<Longrightarrow> Q xs h'"
  shows "holds L disciplined (still_calling n) (ploop n (multi_round n m) xs) Q h"
proof (rule holds_ploop_fuel [where J = "multi_inv n m"])
  fix k xs h
  assume J: "multi_inv n m (Suc k) xs h"
  then have t: "table_ok m xs h \<and> added_ok m xs h" by (simp add: multi_inv_def)
  show "holds L disciplined (still_calling n) (multi_round n m xs)
      (\<lambda>r h'. case r of Again xs' \<Rightarrow> multi_inv n m k xs' h' | Leave b \<Rightarrow> Q b h') h"
    by (rule holds_multi_round [OF law t]) (use J in \<open>auto simp: multi_inv_def intro: post\<close>)
qed (use inv in \<open>auto simp: multi_inv_def still_calling_def table_ok_def\<close>)

text \<open>The pages are written whatever the transfers came to.\<close>

lemma table_put:
  assumes t: "table_ok m (x # rest) h" and f: "page_file (handle_url x) = Inr f"
  shows "table_ok m (x # rest) ((FilePut f (handle_data x), a) # h)"
proof -
  have x: "entry_ok h x" using t by (simp add: table_ok_def)
  then have "writes_ok ((FilePut f (handle_data x), a) # h)" using t f by (auto simp: table_ok_def entry_ok_def)
  moreover have "chunk p (FilePut f (handle_data x), a) = []" for p by (rule chunk_other) (simp add: is_transfer_def)
  moreover have "live ((FilePut f (handle_data x), a) # h) = live h" "needs (FilePut f (handle_data x)) \<subseteq> live h"
    by (simp_all add: res_simps)
  ultimately show ?thesis using t by (auto simp: table_ok_def intro: entry_ok_mono simp del: writes_ok.simps live.simps)
qed

lemma holds_table_page:
  assumes t: "table_ok m (x # rest) h" and post: "\<And>h'. table_ok m (x # rest) h' \<Longrightarrow> Q () h'"
    and f: "page_file (handle_url x) = Inr f"
  shows "holds L disciplined E (write_page (handle_url x) (handle_data x)) Q h"
proof -
  let ?T = "table_ok m (x # rest)"
  have step: "?T ((c, a) # h')" if "?T h'" "c \<in> {FileCreate f, FileClose f} \<or> (\<exists>t. c = Out t)" for c a h'
    using that by (auto intro!: table_harmless simp: needs_def)
  have d: "?T h' \<Longrightarrow> disciplined h'" for h' by (simp add: table_ok_def)
  have "?T ((FileCreate f, a) # h)" for a using step [OF t] by simp
  moreover have "?T ((FilePut f (handle_data x), b) # (FileCreate f, a) # h)" for a b
    by (rule table_put [OF _ f]) (use step [OF t] in simp)
  moreover have "?T ((FileClose f, c) # (FilePut f (handle_data x), b) # (FileCreate f, a) # h)" for a b c
    by (rule step, rule table_put [OF _ f]) (use step [OF t] in simp_all)
  moreover have "?T ((Out s, e) # (FileClose f, c) # (FilePut f (handle_data x), b) # (FileCreate f, a) # h)" for a b c e s
    by (rule step, rule step, rule table_put [OF _ f]) (use step [OF t] in simp_all)
  ultimately show ?thesis using d d [OF t] post
    by (auto simp: write_page_def print_line_def f simp del: disciplined.simps)
qed

lemma handles_Cons: "handles (x # xs) = (if easy_handle x = 0 then handles xs else easy_handle x # handles xs)"
  by (simp add: handles_def)

lemma table_cleanup:
  assumes "table_ok m (x # rest) h"
  shows "table_ok m rest ((CurlEasyCleanup (easy_handle x), a) # h)"
proof -
  let ?c = "CurlEasyCleanup (easy_handle x)"
  have t: "live h = live [] \<union> multi_res m \<union> Curl ` set (handles (x # rest))" "distinct (handles (x # rest))" "disciplined h"
    "writes_ok h" "\<forall>y \<in> set rest. entry_ok h y"
    using assms by (simp_all add: table_ok_def)
  have chunk: "chunk p (?c, a) = []" for p by (rule chunk_other) simp
  have "live ((?c, a) # h) = live [] \<union> multi_res m \<union> Curl ` set (handles rest)"
    using t(1,2) by (auto simp: handles_Cons multi_res_def acquires_def releases_def split: if_splits)
  moreover have "needs ?c \<subseteq> live h" using t(1) by (simp add: needs_def handles_Cons)
  moreover have "\<forall>y \<in> set rest. entry_ok ((?c, a) # h) y" using t(5) chunk by (blast intro: entry_ok_mono)
  moreover have "distinct (handles rest)" using t(2) by (simp add: handles_Cons split: if_splits)
  ultimately show ?thesis using t(3,4) unfolding table_ok_def by (simp del: live.simps)
qed

lemma holds_finish:
  assumes "table_ok m xs h" and post: "\<And>h'. table_ok m [] h' \<Longrightarrow> Q () h'"
  shows "holds L disciplined E (finish_handles m xs) Q h"
  using assms(1)
proof (induction xs arbitrary: h)
  case Nil
  then show ?case by (simp add: post table_ok_def)
next
  case (Cons x xs)
  have "handle_url x \<in> set urls" using Cons.prems by (simp add: table_ok_def entry_ok_def)
  then obtain j where "j < length urls" "handle_url x = urls ! j" by (auto simp: in_set_conv_nth)
  then obtain f where f: "page_file (handle_url x) = Inr f" using url_page [of j] by (auto simp: urls_def)
  have "holds L disciplined E (Do (CurlMultiRemove m (easy_handle x)) (\<lambda>_.
      Do (CurlEasyCleanup (easy_handle x)) (\<lambda>_. finish_handles m xs))) Q h'" if t: "table_ok m (x # xs) h'" for h'
  proof -
    have "table_ok m (x # xs) ((CurlMultiRemove m (easy_handle x), a) # h')" for a
      by (rule table_harmless [OF t]) (use t in \<open>auto simp: table_ok_def needs_def multi_res_def handles_def\<close>)
    with table_cleanup [OF this] Cons.IH t show ?thesis by (auto simp: table_ok_def simp del: live.simps disciplined.simps)
  qed
  then show ?case by (auto intro!: holds_pthen holds_table_page [OF Cons.prems _ f])
qed

lemma holds_multi_tail:
  assumes law: "\<And>h c a. L h c a \<Longrightarrow> multi_env h c a"
    and inv: "table_ok m xs h" "added_ok m xs h" "callbacks h = 0"
  shows "holds L disciplined (still_calling n) (pbind (multi_perform n m 0 xs) (\<lambda>(rc, running_status, xs).
     pbind (ploop n (multi_round n m) xs) (\<lambda>xs.
     pthen (finish_handles m xs) (Do (CurlMultiCleanup m) (\<lambda>_. Do CurlGlobalCleanup (\<lambda>_. Return (0 :: int)))))))
     (\<lambda>r h. r = 0 \<and> live h = live [] \<and> writes_ok h) h"
proof (rule holds_pbind, rule holds_multi_perform [OF law, where base = 0], goal_cases)
  case (2 rc run xs' h')
  have last: "holds L disciplined (still_calling n) (Do (CurlMultiCleanup m) (\<lambda>_. Do CurlGlobalCleanup (\<lambda>_. Return (0 :: int))))
      (\<lambda>r h. r = 0 \<and> live h = live [] \<and> writes_ok h) h''" if "table_ok m [] h''" for h''
    using that by (auto simp: table_ok_def handles_def multi_res_def res_simps)
  show ?case
    using 2 unfolding prod.case
    by (intro holds_pbind holds_multi_loop [OF law] holds_pthen holds_finish last) auto
qed (use assms in \<open>auto simp: multi_inv_def\<close>)

lemma holds_multi_main:
  assumes law: "\<And>h c a. L h c a \<Longrightarrow> multi_env h c a"
  shows "holds L disciplined (still_calling n) (multi_main n) (\<lambda>r h. r = 0 \<and> live h = live [] \<and> writes_ok h) []"
proof -
  have "holds L disciplined (still_calling n) (let curl_multi = a_ptr i in
     pbind (add_handles curl_multi urls []) (\<lambda>xs.
     pbind (multi_perform n curl_multi 0 xs) (\<lambda>(rc, running_status, xs).
     pbind (ploop n (multi_round n curl_multi) xs) (\<lambda>xs.
     pthen (finish_handles curl_multi xs) (Do (CurlMultiCleanup curl_multi) (\<lambda>_. Do CurlGlobalCleanup (\<lambda>_. Return (0 :: int))))))))
     (\<lambda>r h. r = 0 \<and> live h = live [] \<and> writes_ok h) ((CurlMultiInit, i) # (CurlGlobalInit, g) # [])" for i g
    unfolding Let_def
  proof (rule holds_pbind, rule holds_add_handles [OF law], goal_cases)
    case (2 xs h)
    show ?case by (rule holds_multi_tail [OF law 2])
  qed (auto simp: table_ok_def added_ok_def handles_def multi_res_def res_simps is_transfer_def)
  then show ?thesis by (simp add: multi_main_def res_simps del: live.simps(1))
qed

lemma multi_runs:
  assumes "\<And>h c. multi_env h c (os h c)" and "run_proc (multi_main n) os [] = (r, h)"
  shows "disciplined h \<and> (r = Done 0 \<and> live h = live [] \<and> writes_ok h \<or> r = Stop Unfinished \<and> n \<le> callbacks h)"
proof -
  have "holds (\<lambda>h c a. a = os h c) disciplined (still_calling n) (multi_main n) (\<lambda>r h. r = 0 \<and> live h = live [] \<and> writes_ok h) []"
    using assms(1) by (intro holds_multi_main) auto
  from wp_holds [OF _ this, of os] assms(2) show ?thesis by (auto simp: wp_def still_calling_def split: outcome.splits)
qed

section \<open>Every page is written\<close>

text \<open>The result of a transfer is not asked for, and the loop that writes runs in any case.\<close>

abbreviation (input) anyhow :: "law \<Rightarrow> 'a process \<Rightarrow> ('a \<Rightarrow> bool) \<Rightarrow> log \<Rightarrow> bool" where
  "anyhow L m P h \<equiv> holds L (\<lambda>_. True) (\<lambda>_ _. True) m (\<lambda>a _. P a) h"

lemma urls_update: "map handle_url xs = us \<Longrightarrow> i < length xs \<Longrightarrow> handle_url x = handle_url (xs ! i) \<Longrightarrow> map handle_url (xs[i := x]) = us"
  by (auto simp: map_update intro!: list_update_same_conv [THEN iffD2])

lemma urls_multi_perform: "map handle_url xs = us \<Longrightarrow> anyhow L (multi_perform n m r xs) (\<lambda>(rc, run, xs). map handle_url xs = us) h"
proof (induction n arbitrary: r xs h)
  case (Suc n)
  have "anyhow L (multi_perform n m t (xs[i := x])) (\<lambda>(rc, run, xs). map handle_url xs = us) h'"
    if "first_index p xs = Some i" "handle_url x = handle_url (xs ! i)" for i x p t h'
    using that Suc.prems first_index_Some [OF that(1)] by (intro Suc.IH urls_update) auto
  with Suc show ?case
    by (auto simp: multi_progress_def print_line_def split: callback.split option.split dest: multi_data_same)
qed simp

lemma urls_add_handles:
  "map handle_url xs @ us = vs \<Longrightarrow> holds L (\<lambda>_. True) E (add_handles m us xs) (\<lambda>xs _. map handle_url xs = vs) h"
proof (induction us arbitrary: xs h)
  case (Cons u us)
  have "holds L (\<lambda>_. True) E (set_options p opts) (\<lambda>_ _. True) h" for p opts h
    by (induction p opts arbitrary: h rule: set_options.induct) auto
  then have "holds L (\<lambda>_. True) E (set_options p opts) (\<lambda>_ _. True) h" for p opts h .
  then show ?case using Cons
    by (auto intro!: holds_pthen intro: holds_mono)
qed simp

lemma urls_multi_round:
  "map handle_url xs = us \<Longrightarrow> anyhow L (multi_round n m xs) (\<lambda>r. case r of Again xs \<Rightarrow> map handle_url xs = us | Leave xs \<Rightarrow> map handle_url xs = us) h"
  unfolding multi_round_def
  by (intro holds_pbind, rule holds_mono [OF urls_multi_perform]) (auto simp: print_error_def)

lemma urls_multi_loop:
  "map handle_url xs = us \<Longrightarrow> anyhow L (ploop k (multi_round n m) xs) (\<lambda>xs. map handle_url xs = us) h"
  by (rule holds_ploop [where J = "\<lambda>xs h. map handle_url xs = us"])
    (auto intro: holds_mono [OF urls_multi_round] split: iter.splits)

text \<open>Every entry has its file created when the last loop is over, and written where that succeeds.\<close>

definition written :: "bytes \<Rightarrow> log \<Rightarrow> bool" where
  "written f h \<longleftrightarrow> (\<exists>d a. (FilePut f d, a) \<in> set h)"

definition page_tried :: "log \<Rightarrow> bytes \<Rightarrow> bool" where
  "page_tried h f \<longleftrightarrow> (\<exists>a. (FileCreate f, a) \<in> set h \<and> (a_ret a = 0 \<or> written f h))"

lemma page_tried_mono [simp]: "page_tried h f \<Longrightarrow> page_tried (e # h) f"
  by (auto simp: page_tried_def written_def)

lemma holds_finish_tries:
  assumes "\<forall>f \<in> F. page_tried h f \<or> (\<exists>x \<in> set xs. page_file (handle_url x) = Inr f)"
    and post: "\<And>h'. \<forall>f \<in> F. page_tried h' f \<Longrightarrow> Q () h'"
  shows "holds L (\<lambda>_. True) (\<lambda>_ _. True) (finish_handles m xs) Q h"
  using assms(1)
proof (induction xs arbitrary: h)
  case (Cons x xs)
  show ?case
  proof (cases "page_file (handle_url x)")
    case (Inr f)
    have "holds L (\<lambda>_. True) (\<lambda>_ _. True) (finish_handles m xs) Q h'"
      if "page_tried h' f" "\<And>g. page_tried h g \<Longrightarrow> page_tried h' g" for h'
      using Cons.prems that Inr by (intro Cons.IH ballI) auto
    moreover have "page_tried ((FileCreate f, a) # h) f" if "a_ret a = 0" for a
      using that by (auto simp: page_tried_def)
    moreover have "page_tried ((FilePut f d, b) # (FileCreate f, a) # h) f" for d a b
      by (auto simp: page_tried_def written_def)
    ultimately show ?thesis by (auto simp: write_page_def print_line_def Inr)
  qed (simp add: write_page_def pthen_def)
qed (simp add: post)

definition page_names :: "bytes list" where
  "page_names = [''example.html'', ''google.html'', ''bing.html'', ''speedtest.html'']"

lemma url_files: "f \<in> set page_names \<Longrightarrow> \<exists>u \<in> set urls. page_file u = Inr f"
  using url_pages by (auto simp: urls_def page_names_def)

lemma pages_tried:
  assumes "run_proc (multi_main n) os [] = (Done r, h)"
  shows "list_all (page_tried h) page_names"
proof -
  let ?L = "\<lambda>h c a. a = os h c" and ?F = "set page_names"
  have tail: "holds ?L (\<lambda>_. True) (\<lambda>_ _. True) (pthen (finish_handles m xs) (Do (CurlMultiCleanup m) (\<lambda>_.
      Do CurlGlobalCleanup (\<lambda>_. Return (0 :: int))))) (\<lambda>_ h. \<forall>f \<in> ?F. page_tried h f) h'"
    if xs: "map handle_url xs = urls" for m xs h'
  proof (rule holds_pthen, rule holds_finish_tries [where F = ?F])
    show "\<forall>f \<in> ?F. page_tried h' f \<or> (\<exists>x \<in> set xs. page_file (handle_url x) = Inr f)"
      using url_files unfolding xs [symmetric] by auto
  qed auto
  have "holds ?L (\<lambda>_. True) (\<lambda>_ _. True) (multi_main n) (\<lambda>_ h. \<forall>f \<in> ?F. page_tried h f) []"
    unfolding multi_main_def Let_def
    by (simp, intro allI impI holds_pbind holds_mono [OF urls_add_handles [where vs = urls]])
      (auto intro!: holds_pbind holds_mono [OF urls_multi_perform] holds_mono [OF urls_multi_loop] tail)
  from wp_holds [OF _ this, of os] assms show ?thesis by (auto simp: wp_def list_all_iff)
qed


text \<open>The four handles that \<open>sim_os\<close> gives out are 4 to 7. The library may not name another one,
  so the example delivers only once they have been added.\<close>

definition multi_os :: "(int \<times> bytes) list \<Rightarrow> os" where
  "multi_os pieces h c = (case c of
       CurlMultiPerform m r \<Rightarrow> (if callbacks h < length pieces \<and>
           list_ex (\<lambda>e. fst e = CurlMultiAdd m (fst (pieces ! callbacks h))) h
         then curl_os pieces h c else (plain 0)\<lparr>a_flags := [0]\<rparr>)
     | CurlPerform m r \<Rightarrow> (plain 0)\<lparr>a_flags := [0]\<rparr>
     | _ \<Rightarrow> sim_os [] h c)"

lemma multi_os_ok:
  assumes "\<forall>(p, b) \<in> set pieces. p \<noteq> 0 \<and> length b < 2 ^ 64"
  shows "multi_env h c (multi_os pieces h c)"
proof -
  have curl: "curl_env h c (curl_os pieces h c)" for c using assms by (intro curl_os_ok) auto
  have quiet: "curl_env h c (sim_os [] h c)" if "\<not> is_transfer c" for c using curl [of c] that by (simp add: curl_os_def)
  have stop: "curl_env h c ((plain 0)\<lparr>a_flags := [0]\<rparr>)" if "is_transfer c" for c
    using that by (cases c) (auto simp: curl_env_def curl_law_def callback_of_def answer_ok_def res_simps is_transfer_def)
  have "a_ptr (curl_os pieces h (CurlMultiPerform m r)) \<noteq> 0 \<and>
      a_ptr (curl_os pieces h (CurlMultiPerform m r)) = fst (pieces ! callbacks h)" if "callbacks h < length pieces" for m r
    using that assms by (auto simp: curl_os_def deliver_answer_def split: prod.split dest!: nth_mem)
  then show ?thesis
    using curl quiet stop by (cases c) (auto simp: multi_env_def multi_os_def is_transfer_def callback_of_def list_ex_iff)
qed

text \<open>A library that has nothing to do lets the program return.\<close>

definition has_nothing :: law where
  "has_nothing h c a \<longleftrightarrow> (is_transfer c \<longrightarrow> callback_of a = Returned 0 \<and> running a = 0)"

lemma nothing_to_finish:
  "list_all (\<lambda>x. \<exists>f. page_file (handle_url x) = Inr f) xs \<Longrightarrow>
   holds L (\<lambda>_. True) (\<lambda>_ _. False) (finish_handles m xs) (\<lambda>_ _. True) h"
  by (induction xs arbitrary: h) (auto simp: write_page_def print_line_def)

lemma nothing_to_do:
  "holds has_nothing (\<lambda>_. True) (\<lambda>_ _. False) (multi_main (Suc n)) (\<lambda>_ _. True) []"
proof -
  have tail: "holds has_nothing (\<lambda>_. True) (\<lambda>_ _. False) (pthen (finish_handles m xs) (Do (CurlMultiCleanup m) (\<lambda>_.
      Do CurlGlobalCleanup (\<lambda>_. Return (0 :: int))))) (\<lambda>_ _. True) h" if xs: "map handle_url xs = urls" for m xs h
  proof (rule holds_pthen, rule holds_mono [OF nothing_to_finish])
    have "list_all (\<lambda>u. \<exists>f. page_file u = Inr f) urls" using url_pages by (auto simp: urls_def)
    then show "list_all (\<lambda>x. \<exists>f. page_file (handle_url x) = Inr f) xs" unfolding xs [symmetric] by (simp add: list_all_iff)
  qed simp
  show ?thesis
    unfolding multi_main_def Let_def
    by (simp, intro allI impI holds_pbind holds_mono [OF urls_add_handles [where vs = urls]])
      (auto simp: has_nothing_def multi_round_def print_error_def intro: tail)
qed

lemma multi_demo: "\<exists>h. run_proc (multi_main 2) (multi_os []) [] = (Done 0, h)"
proof -
  have "has_nothing h c (multi_os [] h c)" for h c
    by (cases c) (auto simp: has_nothing_def multi_os_def is_transfer_def callback_of_def running_def)
  from wp_holds [OF this nothing_to_do [of 1]] obtain r h where h: "run_proc (multi_main 2) (multi_os []) [] = (Done r, h)"
    by (auto simp: wp_def numeral_2_eq_2 split: prod.splits outcome.splits)
  have "multi_env h c (multi_os [] h c)" for h c by (rule multi_os_ok) simp
  from multi_runs [OF this h] h show ?thesis by auto
qed


section \<open>Pages that were never received\<close>

text \<open>
  Where files can be created, a run that returns has written all four of them and says so,
  whatever the library has answered, even if no transfer has ever succeeded.
\<close>

theorem pages_written_anyway:
  assumes "\<And>h f. a_ret (os h (FileCreate f)) \<noteq> 0" and "run_proc (multi_main n) os [] = (Done r, h)"
    and "f \<in> set page_names"
  shows "written f h"
proof -
  have "holds (\<lambda>h c a. a = os h c) (\<lambda>h. \<forall>a. (FileCreate f, a) \<in> set h \<longrightarrow> a_ret a \<noteq> 0) (\<lambda>_ _. True) m (\<lambda>_ _. True) h"
    if "\<forall>a. (FileCreate f, a) \<in> set h \<longrightarrow> a_ret a \<noteq> 0" for m :: "int process" and h
    using that
  proof (induction m arbitrary: h)
    case (Do c k)
    have "\<forall>a. (FileCreate f, a) \<in> set ((c, os h c) # h) \<longrightarrow> a_ret a \<noteq> 0" using Do.prems assms(1) by auto
    with Do.IH [OF rangeI] Do.prems show ?case by auto
  qed auto
  from wp_holds [OF _ this, of os "[]" "multi_main n"] have "\<forall>a. (FileCreate f, a) \<in> set h \<longrightarrow> a_ret a \<noteq> 0"
    using assms(2) by (simp add: wp_def)
  with pages_tried [OF assms(2)] assms(3) show ?thesis by (auto simp: list_all_iff page_tried_def)
qed

theorem pages_written_anyway_witness:
  "\<exists>h. run_proc (multi_main 2) (multi_os []) [] = (Done 0, h) \<and> written ''google.html'' h"
proof -
  obtain h where h: "run_proc (multi_main 2) (multi_os []) [] = (Done 0, h)"
    using multi_demo by blast
  have "written ''google.html'' h"
    by (rule pages_written_anyway [OF _ h]) (simp_all add: multi_os_def sim_os_def page_names_def)
  with h show ?thesis by blast
qed

end
